(* ===== verification/Prelude.thy ===== *)
theory Prelude
  imports Main "HOL-Library.Word" "HOL-Library.Monad_Syntax" "HOL-Library.Signed_Division"
begin

text \<open>
  What every component shares: the C integer types as words of their width, byte memory with
  little-endian loads and stores (the hosts, x86-64 and the BlueField's ARMv8, are little-endian),
  bounded loops in the option monad, and the C remainder on \<open>int32_t\<close>.

  A load or store outside the bytes of a buffer is \<^const>\<open>None\<close>: it stands for undefined behaviour (or
  for the rejection by the eBPF verifier), so "the code never leaves the buffer" is the statement
  that a function returns \<^const>\<open>Some\<close>.
\<close>

unbundle bit_operations_syntax

named_theorems mem_simps \<open>loads, stores and lengths of byte buffers\<close>

type_synonym u8 = "8 word"
type_synonym u16 = "16 word"
type_synonym u32 = "32 word"
type_synonym u64 = "64 word"
type_synonym bytes = "u8 list"

section \<open>Byte buffers\<close>

definition get_bytes :: "bytes \<Rightarrow> nat \<Rightarrow> nat \<Rightarrow> bytes" where
  "get_bytes p off n = take n (drop off p)"

definition put_bytes :: "bytes \<Rightarrow> nat \<Rightarrow> bytes \<Rightarrow> bytes" where
  "put_bytes p off bs = take off p @ bs @ drop (off + length bs) p"

lemma length_get_bytes [mem_simps]: "off + n \<le> length p \<Longrightarrow> length (get_bytes p off n) = n"
  by (simp add: get_bytes_def)

lemma length_put_bytes [mem_simps]:
  "off + length bs \<le> length p \<Longrightarrow> length (put_bytes p off bs) = length p"
  by (simp add: put_bytes_def)

lemma get_put_same [mem_simps]:
  "off + length bs \<le> length p \<Longrightarrow> n = length bs \<Longrightarrow> get_bytes (put_bytes p off bs) off n = bs"
  by (simp add: get_bytes_def put_bytes_def)

lemma nth_get_bytes: "off + n \<le> length p \<Longrightarrow> i < n \<Longrightarrow> get_bytes p off n ! i = p ! (off + i)"
  by (simp add: get_bytes_def)

lemma nth_put_bytes:
  assumes "off + length bs \<le> length p" "i < length p"
  shows "put_bytes p off bs ! i = (if off \<le> i \<and> i < off + length bs then bs ! (i - off) else p ! i)"
  using assms by (auto simp: put_bytes_def nth_append)

lemma get_put_other [mem_simps]:
  assumes "off + length bs \<le> length p" "o' + n \<le> length p"
    and "o' + n \<le> off \<or> off + length bs \<le> o'"
  shows "get_bytes (put_bytes p off bs) o' n = get_bytes p o' n"
proof (rule nth_equalityI)
  show "length (get_bytes (put_bytes p off bs) o' n) = length (get_bytes p o' n)"
    using assms by (simp add: mem_simps)
next
  fix i
  assume "i < length (get_bytes (put_bytes p off bs) o' n)"
  then have "i < n"
    using assms by (simp add: mem_simps)
  then show "get_bytes (put_bytes p off bs) o' n ! i = get_bytes p o' n ! i"
    using assms by (auto simp: nth_get_bytes nth_put_bytes mem_simps)
qed

lemma get_bytes_get_bytes:
  "a + m \<le> n \<Longrightarrow> get_bytes (get_bytes p off n) a m = get_bytes p (off + a) m"
  by (simp add: get_bytes_def drop_take add.commute)

lemma get_bytes_append_left [mem_simps]:
  "off + n \<le> length xs \<Longrightarrow> get_bytes (xs @ ys) off n = get_bytes xs off n"
  by (simp add: get_bytes_def)

lemma get_bytes_append_right [mem_simps]:
  "length xs \<le> off \<Longrightarrow> get_bytes (xs @ ys) off n = get_bytes ys (off - length xs) n"
  by (simp add: get_bytes_def)

lemma put_bytes_put_same [mem_simps]:
  assumes "off + length bs \<le> length p" "length cs = length bs"
  shows "put_bytes (put_bytes p off bs) off cs = put_bytes p off cs"
  using assms by (simp add: put_bytes_def)

lemma put_get_id [mem_simps]:
  assumes "off + n \<le> length p"
  shows "put_bytes p off (get_bytes p off n) = p"
  using assms by (simp add: put_bytes_def get_bytes_def)
     (metis append_take_drop_id drop_drop add.commute)

text \<open>Buffers agree when they agree at every byte.\<close>

lemma bytes_eqI:
  assumes "length p = length q" "\<And>i. i < length p \<Longrightarrow> p ! i = q ! i"
  shows "p = q"
  using assms by (rule nth_equalityI)

section \<open>Little-endian integers\<close>

primrec word_of_le :: "bytes \<Rightarrow> 'a::len word" where
  "word_of_le [] = 0"
| "word_of_le (b # bs) = ucast b OR push_bit 8 (word_of_le bs)"

primrec le_of_word :: "nat \<Rightarrow> 'a::len word \<Rightarrow> bytes" where
  "le_of_word 0 w = []"
| "le_of_word (Suc n) w = ucast w # le_of_word n (drop_bit 8 w)"

lemma length_le_of_word [simp, mem_simps]: "length (le_of_word n w) = n"
  by (induction n arbitrary: w) auto

lemma bit_word_of_le:
  "bit (word_of_le bs :: 'a::len word) k \<longleftrightarrow>
     k < LENGTH('a) \<and> k div 8 < length bs \<and> bit (bs ! (k div 8)) (k mod 8)"
proof (induction bs arbitrary: k)
  case Nil
  then show ?case by simp
next
  case (Cons b bs)
  show ?case
  proof (cases "k < 8")
    case True
    then show ?thesis
      by (auto simp: bit_simps Cons.IH)
  next
    case False
    then have "k div 8 = Suc ((k - 8) div 8)" "k mod 8 = (k - 8) mod 8"
      by (simp_all add: le_div_geq le_mod_geq)
    moreover have "\<not> bit b k"
      using False by (auto dest: bit_imp_le_length)
    ultimately show ?thesis
      using False by (auto simp: bit_simps Cons.IH)
  qed
qed

lemma nth_le_of_word:
  "j < n \<Longrightarrow> le_of_word n w ! j = ucast (drop_bit (8 * j) w)"
proof (induction n arbitrary: j w)
  case 0
  then show ?case by simp
next
  case (Suc n)
  then show ?case
    by (cases j) (auto simp: drop_bit_drop_bit add.commute)
qed

lemma word_of_le_le_of_word [mem_simps]:
  fixes w :: "'a::len word"
  assumes "8 * n = LENGTH('a)"
  shows "word_of_le (le_of_word n w) = w"
proof (rule bit_word_eqI)
  fix k
  assume k: "k < LENGTH('a)"
  with assms have "k div 8 < n"
    by arith
  then show "bit (word_of_le (le_of_word n w) :: 'a word) k \<longleftrightarrow> bit w k"
    using k by (simp add: bit_word_of_le nth_le_of_word bit_simps)
qed

lemma le_of_word_word_of_le [mem_simps]:
  assumes "length bs = n" "8 * n \<le> LENGTH('a)"
  shows "le_of_word n (word_of_le bs :: 'a::len word) = bs"
proof (rule nth_equalityI)
  fix j
  assume "j < length (le_of_word n (word_of_le bs :: 'a word))"
  then have j: "j < n" by simp
  show "le_of_word n (word_of_le bs :: 'a word) ! j = bs ! j"
  proof (rule bit_word_eqI)
    fix k
    assume "k < LENGTH(8)"
    then have "k < 8" by simp
    then have "8 * j + k < LENGTH('a)" "(8 * j + k) div 8 = j" "(8 * j + k) mod 8 = k"
      using j assms by auto
    then show "bit (le_of_word n (word_of_le bs :: 'a word) ! j) k \<longleftrightarrow> bit (bs ! j) k"
      using j assms(1) \<open>k < 8\<close> by (simp add: nth_le_of_word bit_simps bit_word_of_le)
  qed
qed (use assms in simp)

text \<open>Loads and stores of an \<open>n\<close>-byte integer at an offset of a buffer.\<close>

definition load :: "nat \<Rightarrow> bytes \<Rightarrow> nat \<Rightarrow> 'a::len word option" where
  "load n p off = (if off + n \<le> length p then Some (word_of_le (get_bytes p off n)) else None)"

definition store :: "nat \<Rightarrow> bytes \<Rightarrow> nat \<Rightarrow> 'a::len word \<Rightarrow> bytes option" where
  "store n p off w = (if off + n \<le> length p then Some (put_bytes p off (le_of_word n w)) else None)"

definition rd8 :: "bytes \<Rightarrow> nat \<Rightarrow> u8 option" where
  "rd8 p off = (if off < length p then Some (p ! off) else None)"

lemma rd8_in [mem_simps]: "off < length p \<Longrightarrow> rd8 p off = Some (p ! off)"
  by (simp add: rd8_def)

abbreviation rd16 :: "bytes \<Rightarrow> nat \<Rightarrow> u16 option" where "rd16 \<equiv> load 2"
abbreviation rd32 :: "bytes \<Rightarrow> nat \<Rightarrow> u32 option" where "rd32 \<equiv> load 4"
abbreviation rd64 :: "bytes \<Rightarrow> nat \<Rightarrow> u64 option" where "rd64 \<equiv> load 8"
abbreviation wr16 :: "bytes \<Rightarrow> nat \<Rightarrow> u16 \<Rightarrow> bytes option" where "wr16 \<equiv> store 2"
abbreviation wr32 :: "bytes \<Rightarrow> nat \<Rightarrow> u32 \<Rightarrow> bytes option" where "wr32 \<equiv> store 4"
abbreviation wr64 :: "bytes \<Rightarrow> nat \<Rightarrow> u64 \<Rightarrow> bytes option" where "wr64 \<equiv> store 8"

text \<open>The value of a field, and the buffer after a store, where the access is in bounds.\<close>

abbreviation le16 :: "bytes \<Rightarrow> nat \<Rightarrow> u16" where "le16 p off \<equiv> word_of_le (get_bytes p off 2)"
abbreviation le32 :: "bytes \<Rightarrow> nat \<Rightarrow> u32" where "le32 p off \<equiv> word_of_le (get_bytes p off 4)"
abbreviation le64 :: "bytes \<Rightarrow> nat \<Rightarrow> u64" where "le64 p off \<equiv> word_of_le (get_bytes p off 8)"
abbreviation put16 :: "bytes \<Rightarrow> nat \<Rightarrow> u16 \<Rightarrow> bytes" where "put16 p off w \<equiv> put_bytes p off (le_of_word 2 w)"
abbreviation put32 :: "bytes \<Rightarrow> nat \<Rightarrow> u32 \<Rightarrow> bytes" where "put32 p off w \<equiv> put_bytes p off (le_of_word 4 w)"
abbreviation put64 :: "bytes \<Rightarrow> nat \<Rightarrow> u64 \<Rightarrow> bytes" where "put64 p off w \<equiv> put_bytes p off (le_of_word 8 w)"

lemma load_in [mem_simps]: "off + n \<le> length p \<Longrightarrow> load n p off = Some (word_of_le (get_bytes p off n))"
  by (simp add: load_def)

lemma load_out: "length p < off + n \<Longrightarrow> load n p off = None"
  by (simp add: load_def)

lemma store_in [mem_simps]: "off + n \<le> length p \<Longrightarrow> store n p off w = Some (put_bytes p off (le_of_word n w))"
  by (simp add: store_def)

lemma store_out: "length p < off + n \<Longrightarrow> store n p off w = None"
  by (simp add: store_def)

text \<open>\<open>memcpy\<close> of \<open>n\<close> bytes inside a buffer or from one buffer to another.\<close>

definition rd_bytes :: "bytes \<Rightarrow> nat \<Rightarrow> nat \<Rightarrow> bytes option" where
  "rd_bytes p off n = (if off + n \<le> length p then Some (get_bytes p off n) else None)"

definition wr_bytes :: "bytes \<Rightarrow> nat \<Rightarrow> bytes \<Rightarrow> bytes option" where
  "wr_bytes p off bs = (if off + length bs \<le> length p then Some (put_bytes p off bs) else None)"

lemma rd_bytes_in [mem_simps]: "off + n \<le> length p \<Longrightarrow> rd_bytes p off n = Some (get_bytes p off n)"
  by (simp add: rd_bytes_def)

lemma wr_bytes_in [mem_simps]: "off + length bs \<le> length p \<Longrightarrow> wr_bytes p off bs = Some (put_bytes p off bs)"
  by (simp add: wr_bytes_def)

section \<open>C integers\<close>

text \<open>\<open>ntohs\<close> and \<open>ntohl\<close> (equally \<open>htons\<close>, \<open>rte_cpu_to_be_16\<close>) on a little-endian host swap bytes.\<close>

definition ntohs :: "u16 \<Rightarrow> u16" where
  "ntohs w = push_bit 8 w OR drop_bit 8 w"

definition ntohl :: "u32 \<Rightarrow> u32" where
  "ntohl w = push_bit 24 w OR push_bit 8 (w AND 0xFF00) OR (drop_bit 8 w AND 0xFF00) OR drop_bit 24 w"

lemma ntohs_ntohs [simp]: "ntohs (ntohs w) = w"
  by (rule bit_word_eqI) (auto simp: ntohs_def bit_simps dest: bit_imp_le_length)

lemma ntohs_eq_iff: "ntohs a = b \<longleftrightarrow> a = ntohs b"
  by (metis ntohs_ntohs)

text \<open>The C remainder of an \<open>int32_t\<close> by a positive constant: it has the sign of the dividend.\<close>

definition c_rem :: "u32 \<Rightarrow> int \<Rightarrow> int" where
  "c_rem v k = sint v smod k"

lemma c_rem_dvd: "0 < k \<Longrightarrow> c_rem v k = 0 \<longleftrightarrow> k dvd sint v"
  by (simp add: c_rem_def signed_modulo_int_def sgn_if mod_eq_0_iff_dvd)

lemma c_rem_0 [simp]: "0 < k \<Longrightarrow> c_rem 0 k = 0"
  by (simp add: c_rem_dvd)

text \<open>For a power of two the remainder test looks at the low bits only, so the sign does not matter.\<close>

lemma c_rem_power2:
  assumes "n \<le> 31"
  shows "c_rem v (2 ^ n) = 0 \<longleftrightarrow> 2 ^ n dvd unat v"
proof -
  have "c_rem v (2 ^ n) = 0 \<longleftrightarrow> take_bit n (sint v) = 0"
    by (simp add: c_rem_dvd take_bit_eq_mod mod_eq_0_iff_dvd)
  also have "take_bit n (sint v) = take_bit n (uint v)"
    using assms by (simp add: sint_uint take_bit_signed_take_bit)
  also have "\<dots> = 0 \<longleftrightarrow> (2::int) ^ n dvd uint v"
    by (simp add: take_bit_eq_mod mod_eq_0_iff_dvd)
  also have "\<dots> \<longleftrightarrow> 2 ^ n dvd unat v"
    using int_dvd_int_iff [of "2 ^ n" "unat v"] by simp
  finally show ?thesis .
qed

section \<open>Loops\<close>

text \<open>
  \<open>for_each f xs s\<close> runs a \<open>for\<close> loop over the indices \<open>xs\<close> with the body \<open>f\<close>; an undefined access
  in the body makes the loop undefined. \<open>for_each_ret\<close> is the same loop with a body that may
  \<open>return\<close> from the enclosing function (\<^const>\<open>Inl\<close>).
\<close>

primrec for_each :: "('i \<Rightarrow> 's \<Rightarrow> 's option) \<Rightarrow> 'i list \<Rightarrow> 's \<Rightarrow> 's option" where
  "for_each f [] s = Some s"
| "for_each f (i # is) s = do { s' \<leftarrow> f i s; for_each f is s' }"

primrec for_each_ret :: "('i \<Rightarrow> 's \<Rightarrow> ('r + 's) option) \<Rightarrow> 'i list \<Rightarrow> 's \<Rightarrow> ('r + 's) option" where
  "for_each_ret f [] s = Some (Inr s)"
| "for_each_ret f (i # is) s =
     do { r \<leftarrow> f i s; case r of Inl x \<Rightarrow> Some (Inl x) | Inr s' \<Rightarrow> for_each_ret f is s' }"

lemma for_each_append: "for_each f (xs @ ys) s = do { s' \<leftarrow> for_each f xs s; for_each f ys s' }"
  by (induction xs arbitrary: s) (auto split: Option.bind_split)

lemma for_each_cong [fundef_cong]:
  "xs = ys \<Longrightarrow> s = t \<Longrightarrow> (\<And>i u. i \<in> set ys \<Longrightarrow> f i u = g i u) \<Longrightarrow> for_each f xs s = for_each g ys t"
  by (induction ys arbitrary: s t xs) (auto split: Option.bind_split)

text \<open>A loop whose body never fails is a fold.\<close>

lemma for_each_fold:
  "(\<And>i u. i \<in> set xs \<Longrightarrow> f i u = Some (g i u)) \<Longrightarrow> for_each f xs s = Some (fold g xs s)"
  by (induction xs arbitrary: s) auto

text \<open>The same when the body needs an invariant of the loop state.\<close>

lemma for_each_fold_inv:
  assumes "I s"
    and "\<And>i u. i \<in> set xs \<Longrightarrow> I u \<Longrightarrow> f i u = Some (g i u) \<and> I (g i u)"
  shows "for_each f xs s = Some (fold g xs s) \<and> I (fold g xs s)"
  using assms
proof (induction xs arbitrary: s)
  case Nil
  then show ?case by simp
next
  case (Cons i xs)
  then have "f i s = Some (g i s)" "I (g i s)"
    by auto
  then show ?case
    using Cons.IH [of "g i s"] Cons.prems by auto
qed

lemma for_each_inv:
  assumes "for_each f xs s = Some t" "I s"
    and "\<And>i u v. i \<in> set xs \<Longrightarrow> I u \<Longrightarrow> f i u = Some v \<Longrightarrow> I v"
  shows "I t"
  using assms
proof (induction xs arbitrary: s)
  case Nil
  then show ?case by simp
next
  case (Cons i xs)
  from Cons.prems(1) obtain u where u: "f i s = Some u" and rest: "for_each f xs u = Some t"
    by (auto split: Option.bind_splits)
  have "I u"
    using Cons.prems(2,3) u by (meson list.set_intros(1))
  from rest this show ?case
    by (rule Cons.IH) (use Cons.prems(3) in auto)
qed

lemma fold_add_sum: "fold (\<lambda>i acc. acc + f i) xs s = s + (\<Sum>i\<leftarrow>xs. f i :: 'a::comm_monoid_add)"
  by (induction xs arbitrary: s) (auto simp: ac_simps)

lemma bind_Some_iff: "Option.bind m f = Some y \<longleftrightarrow> (\<exists>x. m = Some x \<and> f x = Some y)"
  by (cases m) auto

text \<open>Loops that may return.\<close>

lemma bind_Inr_iff:
  "Option.bind m (case_sum (\<lambda>x. Some (Inl x)) k) = Some (Inr t) \<longleftrightarrow> (\<exists>u. m = Some (Inr u) \<and> k u = Some (Inr t))"
proof (cases m)
  case (Some r)
  then show ?thesis by (cases r) auto
qed simp

lemma case_Inr_iff:
  "case_sum (\<lambda>x. Some (Inl x)) k r = Some (Inr t) \<longleftrightarrow> (\<exists>u. r = Inr u \<and> k u = Some (Inr t))"
  by (cases r) auto

lemma for_each_ret_cases:
  "for_each_ret f (x # xs) s = Some (Inr t) \<longleftrightarrow>
     (\<exists>u. f x s = Some (Inr u) \<and> for_each_ret f xs u = Some (Inr t))"
  by (simp add: bind_Inr_iff)

lemma for_each_ret_append:
  "for_each_ret f (xs @ ys) s = do {
     r \<leftarrow> for_each_ret f xs s;
     case r of Inl x \<Rightarrow> Some (Inl x) | Inr s' \<Rightarrow> for_each_ret f ys s' }"
  by (induction xs arbitrary: s) (auto split: Option.bind_split sum.split)

end
