(* ===== verification/Xdp_Packet.thy ===== *)
theory Xdp_Packet
  imports Prelude
begin

text \<open>
  The frame as an XDP program sees it (\<open>ctx->data .. ctx->data_end\<close>): a byte list, with the Ethernet,
  IPv4 and UDP headers at fixed offsets, and the steps that the XDP programs of \<open>src/ebpf-xdp\<close> share:
  the nested bounds checks, the swap of source and destination, the two timestamps, and the UDP
  checksum of \<open>helpers/helpers.c\<close>.  Offsets are pointer differences from \<open>pkt_start\<close>.
\<close>

section \<open>Constants and layout\<close>

text \<open>\<open>src/ebpf-xdp/helpers/helpers.h\<close>\<close>

definition MAX_UDP_SIZE :: nat where "MAX_UDP_SIZE = 1480"
definition TOT_SIZE_B :: nat where "TOT_SIZE_B = 1024"
definition DATA_SIZE_B :: nat where "DATA_SIZE_B = 4"
definition DATA_NR :: nat where "DATA_NR = TOT_SIZE_B div DATA_SIZE_B"
definition MiB :: nat where "MiB = 1048576"

lemmas const_defs = MAX_UDP_SIZE_def TOT_SIZE_B_def DATA_SIZE_B_def DATA_NR_def MiB_def

text \<open>\<open>struct ethhdr\<close> is 14 bytes, \<open>struct iphdr\<close> (no options) 20 and \<open>struct udphdr\<close> 8.\<close>

abbreviation (input) ip_off :: nat where "ip_off \<equiv> 14"
abbreviation (input) udp_off :: nat where "udp_off \<equiv> 34"
abbreviation (input) pay_off :: nat where "pay_off \<equiv> 42"

text \<open>Return codes of an XDP program (\<open>linux/bpf.h\<close>).\<close>

datatype xdp_action = XDP_ABORTED | XDP_DROP | XDP_PASS | XDP_TX

section \<open>The nested bounds checks\<close>

text \<open>
  Every XDP program of the repository opens with the same four nested \<open>if\<close>s: the Ethernet header fits,
  the IP header fits, the protocol is UDP, the UDP header fits.  Where one fails, control reaches the
  final \<open>return XDP_PASS\<close>.
\<close>

definition with_udp :: "bytes \<Rightarrow> 'r \<Rightarrow> 'r option \<Rightarrow> 'r option" where
  "with_udp p pass body =
     (if 0 + 14 \<le> length p then
        if ip_off + 20 \<le> length p then do {
          protocol \<leftarrow> rd8 p (ip_off + 9);
          if protocol = 17 then
            if udp_off + 8 \<le> length p then body else Some pass
          else Some pass
        }
        else Some pass
      else Some pass)"

definition udp_frame :: "bytes \<Rightarrow> bool" where
  "udp_frame p \<longleftrightarrow> pay_off \<le> length p \<and> p ! 23 = 17"

lemma with_udp_eq: "with_udp p pass body = (if udp_frame p then body else Some pass)"
  by (auto simp: with_udp_def udp_frame_def mem_simps)

text \<open>\<open>ntohs(udp->len) - sizeof(*udp)\<close>, as an \<open>unsigned int\<close>.\<close>

definition udp_payload_size :: "bytes \<Rightarrow> u32 option" where
  "udp_payload_size p = do { ulen \<leftarrow> rd16 p (udp_off + 4); Some (ucast (ntohs ulen) - 8) }"

definition payload_len :: "bytes \<Rightarrow> u32" where
  "payload_len p = ucast (ntohs (le16 p 38)) - 8"

lemma udp_payload_size_in [mem_simps]: "42 \<le> length p \<Longrightarrow> udp_payload_size p = Some (payload_len p)"
  by (simp add: udp_payload_size_def payload_len_def mem_simps)

text \<open>The \<open>i\<close>-th \<open>int32_t\<close> of the payload.\<close>

definition payload_word :: "bytes \<Rightarrow> nat \<Rightarrow> u32" where
  "payload_word p i = le32 p (pay_off + 4 * i)"

lemma rd32_payload [mem_simps]:
  "46 + 4 * i \<le> length p \<Longrightarrow> rd32 p (42 + 4 * i) = Some (payload_word p i)"
  by (simp add: load_def payload_word_def)

section \<open>Swap of source and destination\<close>

text \<open>UDP ports, then IP addresses, then the Ethernet addresses, each through a temporary.\<close>

definition swap_hdrs :: "bytes \<Rightarrow> bytes option" where
  "swap_hdrs p = do {
     mem_udp \<leftarrow> rd16 p (udp_off + 2);
     source \<leftarrow> rd16 p udp_off;
     p \<leftarrow> wr16 p (udp_off + 2) source;
     p \<leftarrow> wr16 p udp_off mem_udp;
     mem_ip \<leftarrow> rd32 p (ip_off + 16);
     saddr \<leftarrow> rd32 p (ip_off + 12);
     p \<leftarrow> wr32 p (ip_off + 16) saddr;
     p \<leftarrow> wr32 p (ip_off + 12) mem_ip;
     mem_eth \<leftarrow> rd_bytes p 0 6;
     h_source \<leftarrow> rd_bytes p 6 6;
     p \<leftarrow> wr_bytes p 0 h_source;
     wr_bytes p 6 mem_eth
   }"

text \<open>What the swap does to the bytes: a permutation of the offsets.\<close>

definition swap_perm :: "nat \<Rightarrow> nat" where
  "swap_perm i =
     (if i < 6 then i + 6 else if i < 12 then i - 6
      else if 26 \<le> i \<and> i < 30 then i + 4 else if 30 \<le> i \<and> i < 34 then i - 4
      else if 34 \<le> i \<and> i < 36 then i + 2 else if 36 \<le> i \<and> i < 38 then i - 2 else i)"

definition swapped :: "bytes \<Rightarrow> bytes" where
  "swapped p = map (\<lambda>i. p ! swap_perm i) [0..<length p]"

lemma length_swapped [simp, mem_simps]: "length (swapped p) = length p"
  by (simp add: swapped_def)

lemma nth_swapped: "i < length p \<Longrightarrow> swapped p ! i = p ! swap_perm i"
  by (simp add: swapped_def)

lemma swap_hdrs_in [mem_simps]:
  assumes "42 \<le> length p"
  shows "swap_hdrs p = Some (swapped p)"
proof -
  have "swap_hdrs p = Some (put_bytes (put_bytes (put_bytes (put_bytes (put_bytes (put_bytes p
      36 (get_bytes p 34 2)) 34 (get_bytes p 36 2)) 30 (get_bytes p 26 4)) 26 (get_bytes p 30 4))
      0 (get_bytes p 6 6)) 6 (get_bytes p 0 6))"
    using assms by (simp add: swap_hdrs_def mem_simps)
  also have "\<dots> = Some (swapped p)"
    using assms
    by (intro arg_cong [where f = Some] bytes_eqI)
       (auto simp: nth_put_bytes nth_get_bytes mem_simps nth_swapped swap_perm_def add.commute numeral_2_eq_2)
  finally show ?thesis .
qed

lemma swap_perm_swap_perm [simp]: "swap_perm (swap_perm i) = i"
proof (cases "i < 38")
  case True
  have "\<forall>j \<in> set [0..<38]. swap_perm (swap_perm j) = j"
    by code_simp
  with True show ?thesis by simp
qed (simp add: swap_perm_def)

lemma swap_perm_less: "42 \<le> n \<Longrightarrow> i < n \<Longrightarrow> swap_perm i < n"
  by (auto simp: swap_perm_def)

lemma swapped_swapped: "42 \<le> length p \<Longrightarrow> swapped (swapped p) = p"
  by (rule bytes_eqI) (auto simp: nth_swapped swap_perm_less)

text \<open>A field outside the swapped ranges keeps its value; a swapped one takes its partner's.\<close>

lemma get_bytes_swapped:
  assumes "off + n \<le> length p" "o' + n \<le> length p" "\<And>i. i < n \<Longrightarrow> swap_perm (off + i) = o' + i"
  shows "get_bytes (swapped p) off n = get_bytes p o' n"
  using assms by (intro bytes_eqI) (auto simp: nth_get_bytes mem_simps nth_swapped)

lemma swapped_fields:
  assumes "42 \<le> length p"
  shows "get_bytes (swapped p) 0 6 = get_bytes p 6 6"
    and "get_bytes (swapped p) 6 6 = get_bytes p 0 6"
    and "get_bytes (swapped p) 26 4 = get_bytes p 30 4"
    and "get_bytes (swapped p) 30 4 = get_bytes p 26 4"
    and "get_bytes (swapped p) 34 2 = get_bytes p 36 2"
    and "get_bytes (swapped p) 36 2 = get_bytes p 34 2"
  using assms by (auto intro!: get_bytes_swapped simp: swap_perm_def)

lemma get_bytes_swapped_frame [mem_simps]:
  assumes "38 \<le> off \<or> (12 \<le> off \<and> off + n \<le> 26)" "off + n \<le> length p"
  shows "get_bytes (swapped p) off n = get_bytes p off n"
  using assms by (auto intro!: get_bytes_swapped simp: swap_perm_def)

lemma udp_frame_swapped [simp]: "42 \<le> length p \<Longrightarrow> udp_frame (swapped p) = udp_frame p"
  by (simp add: udp_frame_def nth_swapped swap_perm_def)

lemma payload_len_swapped [simp]: "42 \<le> length p \<Longrightarrow> payload_len (swapped p) = payload_len p"
  by (simp add: payload_len_def mem_simps)

lemma payload_word_swapped [simp]:
  "46 + 4 * i \<le> length p \<Longrightarrow> payload_word (swapped p) i = payload_word p i"
  by (simp add: payload_word_def mem_simps)

end
