(* ===== verification/Xdp_Checksum.thy ===== *)
theory Xdp_Checksum
  imports Xdp_Packet
begin

text \<open>
  \<open>caludpcsum\<close> of \<open>src/ebpf-xdp/helpers/helpers.c\<close>: the model of the loop with its \<open>break\<close>, a closed form
  of the sum it computes, and what the receiver's check (RFC 768: the ones' complement sum of the
  pseudo-header and the datagram, checksum field included, is all ones) makes of the result.
\<close>

section \<open>The function\<close>

text \<open>
  The loop over \<open>i = 0, 2, ..., MAX_UDP_SIZE - 2\<close>; \<open>buf\<close> is the offset of the next 16-bit word and
  \<open>pkt_end\<close> is \<open>length p\<close>.  The sum is a \<open>__u32\<close>.
\<close>

function csum_loop :: "bytes \<Rightarrow> nat \<Rightarrow> nat \<Rightarrow> u32 \<Rightarrow> (u32 \<times> nat) option" where
  "csum_loop p i buf csum_buffer =
     (if i < MAX_UDP_SIZE then
        if length p < buf + 2 then Some (csum_buffer, buf)
        else do {
          w \<leftarrow> rd16 p buf;
          csum_loop p (i + 2) (buf + 2) (csum_buffer + ucast w)
        }
      else Some (csum_buffer, buf))"
  by pat_completeness auto
termination
  by (relation "measure (\<lambda>(p, i, buf, c). MAX_UDP_SIZE - i)") auto

declare csum_loop.simps [simp del]

definition caludpcsum :: "bytes \<Rightarrow> nat \<Rightarrow> nat \<Rightarrow> u16 option" where
  "caludpcsum p iph udph = do {
     saddr \<leftarrow> rd32 p (iph + 12);
     daddr \<leftarrow> rd32 p (iph + 16);
     protocol \<leftarrow> rd8 p (iph + 9);
     len \<leftarrow> rd16 p (udph + 4);
     let csum_buffer = 0;
     let csum_buffer = csum_buffer + ucast (ucast saddr :: u16);
     let csum_buffer = csum_buffer + ucast (ucast (drop_bit 16 saddr) :: u16);
     let csum_buffer = csum_buffer + ucast (ucast daddr :: u16);
     let csum_buffer = csum_buffer + ucast (ucast (drop_bit 16 daddr) :: u16);
     let csum_buffer = csum_buffer + push_bit 8 (ucast protocol);
     let csum_buffer = csum_buffer + ucast len;
     (csum_buffer, buf) \<leftarrow> csum_loop p 0 udph csum_buffer;
     csum_buffer \<leftarrow>
       (if buf + 1 \<le> length p then do { b \<leftarrow> rd8 p buf; Some (csum_buffer + ucast b) }
        else Some csum_buffer);
     let csum = (ucast csum_buffer :: u16) + ucast (drop_bit 16 csum_buffer);
     Some (NOT csum)
   }"

text \<open>The two statements \<open>udp->check = 0; udp->check = caludpcsum(ip, udp, pkt_end);\<close>.\<close>

definition refresh_csum :: "bytes \<Rightarrow> bytes option" where
  "refresh_csum p = do {
     p \<leftarrow> wr16 p (udp_off + 6) 0;
     c \<leftarrow> caludpcsum p ip_off udp_off;
     wr16 p (udp_off + 6) c
   }"

section \<open>The sum as a number\<close>

text \<open>Number of 16-bit words the loop reads, and the bytes it leaves for the odd-byte test.\<close>

definition csum_words :: "bytes \<Rightarrow> nat \<Rightarrow> nat" where
  "csum_words p udph = min (MAX_UDP_SIZE div 2) ((length p - udph) div 2)"

definition pseudo_total :: "bytes \<Rightarrow> nat \<Rightarrow> nat \<Rightarrow> nat" where
  "pseudo_total p iph udph =
     unat (le16 p (iph + 12)) + unat (le16 p (iph + 14)) + unat (le16 p (iph + 16)) +
     unat (le16 p (iph + 18)) + 256 * unat (p ! (iph + 9)) + unat (le16 p (udph + 4))"

definition csum_total :: "bytes \<Rightarrow> nat \<Rightarrow> nat \<Rightarrow> nat" where
  "csum_total p iph udph =
     pseudo_total p iph udph + (\<Sum>k<csum_words p udph. unat (le16 p (udph + 2 * k))) +
     (let e = udph + 2 * csum_words p udph in if e + 1 \<le> length p then unat (p ! e) else 0)"

lemma csum_loop_Suc:
  "i < MAX_UDP_SIZE \<Longrightarrow> buf + 2 \<le> length p \<Longrightarrow>
     csum_loop p i buf c = csum_loop p (i + 2) (buf + 2) (c + ucast (le16 p buf))"
  by (subst csum_loop.simps) (simp add: mem_simps)

lemma csum_loop_stop:
  "MAX_UDP_SIZE \<le> i \<or> length p < buf + 2 \<Longrightarrow> csum_loop p i buf c = Some (c, buf)"
  by (subst csum_loop.simps) auto

lemma csum_loop_sum:
  assumes "n = min ((MAX_UDP_SIZE - i) div 2) ((length p - buf) div 2)" "even i"
  shows "csum_loop p i buf c = Some (c + (\<Sum>k<n. ucast (le16 p (buf + 2 * k))), buf + 2 * n)"
  using assms
proof (induction n arbitrary: i buf c)
  case 0
  then have "MAX_UDP_SIZE \<le> i \<or> length p < buf + 2"
    unfolding MAX_UDP_SIZE_def by presburger
  then show ?case
    by (simp add: csum_loop_stop)
next
  case (Suc n)
  have le: "i < MAX_UDP_SIZE" "buf + 2 \<le> length p"
    and n: "n = min ((MAX_UDP_SIZE - (i + 2)) div 2) ((length p - (buf + 2)) div 2)"
    using Suc.prems(1) unfolding MAX_UDP_SIZE_def by arith+
  from Suc.prems(2) have ev: "even (i + 2)" by simp
  have "(\<Sum>k<Suc n. ucast (le16 p (buf + 2 * k)) :: u32) =
      ucast (le16 p buf) + (\<Sum>k<n. ucast (le16 p (buf + 2 + 2 * k)))"
    by (subst sum.lessThan_Suc_shift) (simp add: algebra_simps)
  then show ?case
    using Suc.IH [OF n ev, of "c + ucast (le16 p buf)"] le
    by (simp add: csum_loop_Suc algebra_simps)
qed

lemma unat_u16_le: "unat (w :: u16) \<le> 65535"
  using unsigned_less [where ?'a = nat and w = w] by simp

lemma unat_ucast_u16: "unat (ucast (w :: u16) :: u32) = unat w"
  using unat_u16_le [of w] by (simp add: unsigned_ucast_eq take_bit_nat_eq_self)

lemma unat_u8_le: "unat (b :: u8) \<le> 255"
  using unsigned_less [where ?'a = nat and w = b] by simp

lemma csum_words_le: "csum_words p udph \<le> 740"
  by (simp add: csum_words_def MAX_UDP_SIZE_def)

lemma csum_total_bound: "csum_total p iph udph < 2 ^ 26"
proof -
  have "(\<Sum>k<csum_words p udph. unat (le16 p (udph + 2 * k))) \<le> (\<Sum>k<csum_words p udph. 65535)"
    by (intro sum_mono unat_u16_le)
  also have "\<dots> \<le> 740 * 65535"
    using csum_words_le [of p udph] by simp
  finally have "(\<Sum>k<csum_words p udph. unat (le16 p (udph + 2 * k))) \<le> 740 * 65535" .
  moreover have "pseudo_total p iph udph \<le> 5 * 65535 + 256 * 255"
    unfolding pseudo_total_def
    using unat_u16_le [of "le16 p (iph + 12)"] unat_u16_le [of "le16 p (iph + 14)"]
      unat_u16_le [of "le16 p (iph + 16)"] unat_u16_le [of "le16 p (iph + 18)"]
      unat_u16_le [of "le16 p (udph + 4)"] unat_u8_le [of "p ! (iph + 9)"]
    by linarith
  ultimately show ?thesis
    using unat_u8_le [of "p ! (udph + 2 * csum_words p udph)"]
    unfolding csum_total_def Let_def by (auto split: if_splits)
qed

section \<open>Closed form\<close>

text \<open>One fold of the carries into 16 bits, as the code does it.\<close>

definition csum_fold :: "nat \<Rightarrow> nat" where
  "csum_fold t = (t mod 65536 + t div 65536) mod 65536"

lemma halves_le32:
  assumes "off + 4 \<le> length p"
  shows "ucast (le32 p off) = le16 p off" "ucast (drop_bit 16 (le32 p off)) = le16 p (off + 2)"
proof -
  have len: "length (get_bytes p off 4) = 4" "length (get_bytes p off 2) = 2"
      "length (get_bytes p (off + 2) 2) = 2"
    using assms by (simp_all add: mem_simps)
  have shift: "(16 + k) div 8 = 2 + k div 8" for k :: nat
    by simp
  have shift': "(16 + k) mod 8 = k mod 8" for k :: nat
    by presburger
  have nth: "k div 8 < 2 \<Longrightarrow> get_bytes p off 2 ! (k div 8) = get_bytes p off 4 ! (k div 8)"
      "k div 8 < 2 \<Longrightarrow> get_bytes p (off + 2) 2 ! (k div 8) = get_bytes p off 4 ! ((16 + k) div 8)" for k
    using assms by (simp_all add: nth_get_bytes add.assoc div_add_self1 shift)
  show "ucast (le32 p off) = le16 p off" "ucast (drop_bit 16 (le32 p off)) = le16 p (off + 2)"
    by (rule bit_word_eqI, use len nth shift' in \<open>auto simp: bit_simps bit_word_of_le shift\<close>)+
qed

lemma ucast_of_nat_unat: "(ucast (w :: 'a::len word) :: u32) = of_nat (unat w)"
  by simp

lemma unat_not16: "unat (NOT w :: u16) = 65535 - unat w"
proof -
  have "NOT w = - 1 - w"
    by (simp add: not_eq_complement)
  moreover have "unat (- 1 :: u16) = 65535"
    by (simp add: unsigned_minus_1_eq_mask mask_eq_exp_minus_1)
  moreover have "w \<le> - 1"
    by simp
  ultimately show ?thesis
    by (simp only: unat_sub)
qed

lemma caludpcsum_eq:
  assumes "iph + 20 \<le> length p" "udph + 6 \<le> length p"
  shows "\<exists>c. caludpcsum p iph udph = Some c \<and> unat c = 65535 - csum_fold (csum_total p iph udph)"
proof -
  define t where "t = csum_total p iph udph"
  define c where "c = (of_nat t :: u32)"
  have t: "t < 2 ^ 26"
    unfolding t_def by (rule csum_total_bound)
  then have unat_c: "unat c = t"
    by (simp add: c_def unat_of_nat)
  have loop: "csum_loop p 0 udph x =
      Some (x + (\<Sum>k<csum_words p udph. ucast (le16 p (udph + 2 * k))), udph + 2 * csum_words p udph)"
    for x
    by (rule csum_loop_sum) (simp_all add: csum_words_def)
  have "caludpcsum p iph udph = Some (NOT ((ucast c :: u16) + ucast (drop_bit 16 c)))"
    using assms
    by (simp add: caludpcsum_def mem_simps halves_le32 loop c_def t_def csum_total_def pseudo_total_def
        Let_def push_bit_eq_mult algebra_simps)
  moreover have "unat ((ucast c :: u16) + ucast (drop_bit 16 c)) = csum_fold t"
    using t by (simp add: unat_word_ariths csum_fold_def unat_c unsigned_ucast_eq take_bit_eq_mod
        unsigned_drop_bit_eq drop_bit_eq_div)
  ultimately show ?thesis
    by (simp add: t_def unat_not16)
qed

section \<open>What the receiver checks\<close>

text \<open>The receiver folds all carries (RFC 1071) and wants all ones.\<close>

lemma fold_carry_less:
  assumes "1 < m" "m \<le> t"
  shows "t mod m + t div m < (t::nat)"
proof -
  have "0 < t div m"
    using assms by (simp add: div_greater_zero_iff)
  then have "1 * (t div m) < m * (t div m)"
    using assms by (intro mult_strict_right_mono) auto
  then show ?thesis
    using mult_div_mod_eq [of m t] by linarith
qed

function ones_sum :: "nat \<Rightarrow> nat" where
  "ones_sum t = (if t < 65536 then t else ones_sum (t mod 65536 + t div 65536))"
  by pat_completeness auto
termination
  by (relation "measure id") (simp, unfold in_measure id_apply, rule fold_carry_less, simp_all)

declare ones_sum.simps [simp del]

definition csum_valid :: "bytes \<Rightarrow> nat \<Rightarrow> nat \<Rightarrow> bool" where
  "csum_valid p iph udph \<longleftrightarrow> ones_sum (csum_total p iph udph) = 65535"

lemma fold_carry_mod: "(t mod 65536 + t div 65536) mod 65535 = t mod (65535::nat)"
proof -
  have "t = 65535 * (t div 65536) + (t mod 65536 + t div 65536)"
    using div_mult_mod_eq [of t 65536] by linarith
  then show ?thesis
    by (metis mod_mult_self4)
qed

lemma ones_sum_iff: "ones_sum t = 65535 \<longleftrightarrow> 65535 dvd t \<and> 0 < t"
proof (induction t rule: ones_sum.induct)
  case (1 t)
  show ?case
  proof (cases "t < 65536")
    case True
    then have "ones_sum t = t"
      by (simp add: ones_sum.simps)
    moreover have "t = 65535 \<longleftrightarrow> 65535 dvd t \<and> 0 < t"
    proof
      assume "65535 dvd t \<and> 0 < t"
      then obtain k where "t = 65535 * k" "0 < k" by (auto elim: dvdE)
      moreover have "k < 2"
      proof (rule ccontr)
        assume "\<not> k < 2"
        then have "65535 * 2 \<le> 65535 * k" by (intro mult_le_mono) auto
        with True \<open>t = 65535 * k\<close> show False by simp
      qed
      ultimately show "t = 65535" by (cases k) auto
    qed simp
    ultimately show ?thesis by simp
  next
    case False
    let ?u = "t mod 65536 + t div 65536"
    have "ones_sum t = ones_sum ?u"
      using False by (subst ones_sum.simps) simp
    moreover have "0 < ?u"
      using False by (simp add: div_greater_zero_iff)
    moreover have "65535 dvd ?u \<longleftrightarrow> 65535 dvd t"
      by (simp add: dvd_eq_mod_eq_0 fold_carry_mod)
    ultimately show ?thesis
      using 1 False by simp
  qed
qed

text \<open>Storing a checksum adds it to the sum of the datagram with a cleared field.\<close>

lemma csum_words_ge4: "42 \<le> length p \<Longrightarrow> 4 \<le> csum_words p 34"
  by (simp add: csum_words_def MAX_UDP_SIZE_def)

lemma csum_words_in: "k < csum_words p udph \<Longrightarrow> udph + 2 * k + 2 \<le> length p"
  unfolding csum_words_def by linarith

lemma csum_words_put [simp]:
  "off + length bs \<le> length p \<Longrightarrow> csum_words (put_bytes p off bs) udph = csum_words p udph"
  by (simp add: csum_words_def mem_simps)

lemma csum_total_put_check:
  assumes "42 \<le> length p"
  shows "csum_total (put16 p 40 c) 14 34 = csum_total (put16 p 40 0) 14 34 + unat c"
proof -
  let ?n = "csum_words p 34" and ?e = "34 + 2 * csum_words p 34"
  define w where "w d k = unat (le16 (put16 p 40 d) (34 + 2 * k))" for d k
  have other: "w c k = w 0 k" if "k \<in> {..<?n} - {3}" for k
  proof -
    have "34 + 2 * k + 2 \<le> 40 \<or> 42 \<le> 34 + 2 * k"
      using that by (cases "k < 3") auto
    then show ?thesis
      using assms csum_words_in [of k p 34] that by (simp add: w_def mem_simps)
  qed
  have three: "w d 3 = unat d" for d
    using assms by (simp add: w_def mem_simps)
  have "3 \<in> {..<?n}"
    using csum_words_ge4 [OF assms] by simp
  then have sum: "(\<Sum>k<?n. w d k) = w d 3 + (\<Sum>k\<in>{..<?n} - {3}. w d k)" for d
    by (intro sum.remove) auto
  have "(\<Sum>k<?n. w c k) = (\<Sum>k<?n. w 0 k) + unat c"
    using other by (simp add: sum three)
  moreover have "pseudo_total (put16 p 40 c) 14 34 = pseudo_total (put16 p 40 0) 14 34"
    using assms by (simp add: pseudo_total_def mem_simps nth_put_bytes)
  moreover have "?e + 1 \<le> length p \<Longrightarrow> put16 p 40 c ! ?e = put16 p 40 0 ! ?e"
    using assms csum_words_ge4 [OF assms] by (simp add: nth_put_bytes)
  ultimately show ?thesis
    using assms by (simp add: csum_total_def w_def Let_def mem_simps)
qed

text \<open>The sum of the datagram that the checksum is computed over.\<close>

definition csum_base :: "bytes \<Rightarrow> nat" where
  "csum_base p = csum_total (put16 p 40 0) 14 34"

lemma refresh_csum_eq:
  assumes "42 \<le> length p"
  shows "\<exists>c. refresh_csum p = Some (put16 p 40 c) \<and> unat c = 65535 - csum_fold (csum_base p)"
proof -
  have "14 + 20 \<le> length (put16 p 40 0)" "34 + 6 \<le> length (put16 p 40 0)"
    using assms by (simp_all add: mem_simps)
  then obtain c where "caludpcsum (put16 p 40 0) 14 34 = Some c"
      "unat c = 65535 - csum_fold (csum_base p)"
    using caludpcsum_eq unfolding csum_base_def by blast
  then show ?thesis
    using assms by (auto simp: refresh_csum_def mem_simps)
qed

lemma csum_fold_valid:
  assumes "t < 2 ^ 26"
  shows "65535 dvd (t + (65535 - csum_fold t)) \<and> 0 < t + (65535 - csum_fold t) \<longleftrightarrow>
    t mod 65536 + t div 65536 < 65536"
proof -
  define q r where "q = t div 65536" and "r = t mod 65536"
  have q: "q < 1024" and r: "r < 65536" and t: "t = 65536 * q + r"
    using assms by (simp_all add: q_def r_def less_mult_imp_div_less)
  have fold: "csum_fold t = (r + q) mod 65536"
    by (simp add: csum_fold_def q_def r_def)
  have "65535 dvd (t + (65535 - csum_fold t)) \<and> 0 < t + (65535 - csum_fold t) \<longleftrightarrow> r + q < 65536"
  proof (cases "r + q < 65536")
    case True
    then have fold': "csum_fold t = r + q"
      by (simp add: fold)
    define d where "d = 65535 - (r + q)"
    have "r + q + d = 65535"
      using True by (simp add: d_def)
    moreover have "65535 - csum_fold t = d"
      by (simp add: d_def fold')
    ultimately have "t + (65535 - csum_fold t) = 65535 * (q + 1)"
      using t by simp
    then show ?thesis
      using True by (simp only: dvd_triv_left) simp
  next
    case False
    then have "csum_fold t = r + q - 65536"
      using q r by (simp add: fold mod_if)
    define d where "d = 65535 - (r + q - 65536)"
    have "r + q + d = 131071"
      using False q r by (simp add: d_def)
    moreover have "65535 - csum_fold t = d"
      by (simp add: d_def \<open>csum_fold t = r + q - 65536\<close>)
    ultimately have "t + (65535 - csum_fold t) = 65535 * (q + 2) + 1"
      using t by simp
    then have "\<not> 65535 dvd (t + (65535 - csum_fold t))"
      by (simp only: dvd_eq_mod_eq_0 mod_mult_self4) simp
    then show ?thesis
      using False by simp
  qed
  then show ?thesis
    by (simp add: q_def r_def)
qed

lemma refresh_csum_correct:
  assumes "42 \<le> length p"
  shows "\<exists>p'. refresh_csum p = Some p' \<and> length p' = length p \<and>
     (csum_valid p' 14 34 \<longleftrightarrow> csum_base p mod 65536 + csum_base p div 65536 < 65536)"
proof -
  obtain c where c: "refresh_csum p = Some (put16 p 40 c)" "unat c = 65535 - csum_fold (csum_base p)"
    using refresh_csum_eq [OF assms] by blast
  have "csum_total (put16 p 40 c) 14 34 = csum_base p + (65535 - csum_fold (csum_base p))"
    using csum_total_put_check [OF assms, of c] c(2) by (simp add: csum_base_def)
  moreover have "csum_base p < 2 ^ 26"
    unfolding csum_base_def by (rule csum_total_bound)
  ultimately have "csum_valid (put16 p 40 c) 14 34 \<longleftrightarrow>
      csum_base p mod 65536 + csum_base p div 65536 < 65536"
    using csum_fold_valid by (simp add: csum_valid_def ones_sum_iff)
  then show ?thesis
    using c(1) assms by (auto simp: mem_simps)
qed


text \<open>
  A 42-byte datagram from 0.0.0.0:223 to 255.255.255.255:0 (no payload) whose sum is \<open>0x2FFFE\<close>: the
  fold gives \<open>0xFFFE + 2 = 0x10000\<close>, the carry is dropped, and the stored checksum is wrong.
\<close>

definition carry_frame :: bytes where
  "carry_frame = replicate 12 0 @ [8, 0] @ replicate 9 0 @ [17] @ replicate 6 0 @ replicate 4 255 @
     [0, 223, 0, 0, 0, 8, 0, 0]"

lemma carry_frame_list: "carry_frame =
  [0,0,0,0,0,0,0,0,0,0,0,0,8,0,0,0,0,0,0,0,0,0,0,17,0,0,0,0,0,0,255,255,255,255,0,223,0,0,0,8,0,0]"
  by (simp add: carry_frame_def numeral_eq_Suc)

lemma length_carry_frame: "length carry_frame = 42"
  by (simp add: carry_frame_list)

lemma csum_base_carry_frame: "csum_base carry_frame = 196606"
proof -
  have "(\<Sum>k<(4::nat). f k) = f 0 + f 1 + f 2 + (f 3 :: nat)" for f
    by (simp add: numeral_eq_Suc)
  moreover have "put16 carry_frame 40 0 = carry_frame"
    by (simp add: carry_frame_list put_bytes_def numeral_2_eq_2)
  moreover have "csum_words carry_frame 34 = 4"
    by (simp add: csum_words_def MAX_UDP_SIZE_def length_carry_frame)
  ultimately show ?thesis
    by (simp add: csum_base_def csum_total_def pseudo_total_def Let_def length_carry_frame)
       (simp add: carry_frame_list get_bytes_def)
qed


section \<open>The swap needs no new checksum\<close>

text \<open>The comment \<open>NO NEED to recompute checksum\<close> of the swap: the sum is symmetric in the two parties.\<close>

lemma csum_total_swapped:
  assumes "42 \<le> length p"
  shows "csum_total (swapped p) 14 34 = csum_total p 14 34"
proof -
  let ?n = "csum_words p 34" and ?e = "34 + 2 * csum_words p 34"
  obtain m where m: "?n = Suc (Suc m)"
    using csum_words_ge4 [OF assms] by (intro that [of "?n - 2"]) simp
  have words [simp]: "csum_words (swapped p) 34 = ?n"
    by (simp add: csum_words_def)
  have rest: "le16 (swapped p) (38 + 2 * k) = le16 p (38 + 2 * k)" if "k < m" for k
    using csum_words_in [of "Suc (Suc k)" p 34] that m by (simp add: mem_simps)
  have ports: "le16 (swapped p) 34 = le16 p 36" "le16 (swapped p) 36 = le16 p 34"
    using swapped_fields [OF assms] by simp_all
  have halves: "get_bytes (swapped p) 26 2 = get_bytes p 30 2" "get_bytes (swapped p) 28 2 = get_bytes p 32 2"
      "get_bytes (swapped p) 30 2 = get_bytes p 26 2" "get_bytes (swapped p) 32 2 = get_bytes p 28 2"
    using assms by (auto intro!: get_bytes_swapped simp: swap_perm_def)
  have "(\<Sum>k<?n. unat (le16 (swapped p) (34 + 2 * k))) = (\<Sum>k<?n. unat (le16 p (34 + 2 * k)))"
    unfolding m using rest by (simp add: sum.lessThan_Suc_shift ports del: sum.lessThan_Suc)
  moreover have "pseudo_total (swapped p) 14 34 = pseudo_total p 14 34"
    using assms halves by (simp add: pseudo_total_def mem_simps nth_swapped swap_perm_def)
  moreover have "?e + 1 \<le> length p \<Longrightarrow> swapped p ! ?e = p ! ?e"
    using csum_words_ge4 [OF assms] by (simp add: nth_swapped swap_perm_def)
  ultimately show ?thesis
    by (simp add: csum_total_def Let_def)
qed

text \<open>
  Swapping the Ethernet addresses, IP addresses and ports of a datagram keeps its checksum
  valid, so the programs that only swap need not recompute it.
\<close>

theorem swap_keeps_csum:
  assumes "42 \<le> length p"
  shows "\<exists>p'. swap_hdrs p = Some p' \<and> csum_valid p' 14 34 = csum_valid p 14 34 \<and> swap_hdrs p' = Some p"
  using assms by (simp add: swap_hdrs_in csum_valid_def csum_total_swapped swapped_swapped)

theorem swap_keeps_csum_witness:
  "\<exists>p'. swap_hdrs carry_frame = Some p' \<and> swap_hdrs p' = Some carry_frame"
  using swap_keeps_csum [of carry_frame] by (auto simp: carry_frame_list)

end
