(* ===== verification/Bpf_Maps.thy ===== *)
theory Bpf_Maps
  imports Prelude
begin

text \<open>
  The BPF maps of the XDP programs.  The kernel's map helpers are not code of the repository: they
  are a record of operations that every handler takes as an argument, and what the handlers rely on
  (the documented behaviour of \<open>BPF_MAP_TYPE_ARRAY\<close>, \<open>BPF_MAP_TYPE_HASH\<close>, \<open>BPF_MAP_TYPE_LRU_HASH\<close>) are the
  laws of three locales.  \<open>cell_array\<close> is the weaker contract that a loop over accumulators needs; it
  is also what the arrays of \<open>rte_atomic32_t\<close> in the DPDK programs give.
\<close>

section \<open>Operations\<close>

text \<open>
  \<open>lookup_elem\<close> is \<open>bpf_map_lookup_elem\<close>: \<^const>\<open>None\<close> for the null pointer, otherwise the value the pointer
  refers to.  \<open>store_elem\<close> writes through that pointer, \<open>update_elem\<close> is \<open>bpf_map_update_elem\<close> with
  \<open>BPF_ANY\<close> (its return code is never looked at).
\<close>

record ('m, 'v) map_ops =
  lookup_elem :: "'m \<Rightarrow> u32 \<Rightarrow> 'v option"
  store_elem :: "'m \<Rightarrow> u32 \<Rightarrow> 'v \<Rightarrow> 'm"
  update_elem :: "'m \<Rightarrow> u32 \<Rightarrow> 'v \<Rightarrow> 'm"

text \<open>\<open>p = lookup(i); if (p) __sync_fetch_and_add(p, d);\<close>\<close>

definition cell_add :: "('m \<Rightarrow> 'i \<Rightarrow> 'v::plus option) \<Rightarrow> ('m \<Rightarrow> 'i \<Rightarrow> 'v \<Rightarrow> 'm) \<Rightarrow> 'i \<Rightarrow> 'v \<Rightarrow> 'm \<Rightarrow> 'm" where
  "cell_add get put i d m = (case get m i of None \<Rightarrow> m | Some v \<Rightarrow> put m i (v + d))"

definition fetch_and_add :: "('m, 'v::plus) map_ops \<Rightarrow> u32 \<Rightarrow> 'v \<Rightarrow> 'm \<Rightarrow> 'm" where
  "fetch_and_add ops key d m = cell_add (lookup_elem ops) (store_elem ops) key d m"

section \<open>Cells\<close>

locale cell_array =
  fixes get :: "'m \<Rightarrow> 'i \<Rightarrow> 'v::comm_monoid_add option"
    and put :: "'m \<Rightarrow> 'i \<Rightarrow> 'v \<Rightarrow> 'm"
  assumes get_put: "get m i \<noteq> None \<Longrightarrow> get (put m i v) = (get m)(i \<mapsto> v)"
begin

lemma get_cell_add:
  "get (cell_add get put i d m) j = map_option (\<lambda>v. if j = i then v + d else v) (get m j)"
  by (cases "get m j"; cases "get m i") (auto simp: cell_add_def get_put)

text \<open>Accumulating a list of contributions: every cell gets the sum of those addressed to it.\<close>

lemma get_fold_add:
  "get (fold (\<lambda>x. cell_add get put (i x) (d x)) xs m) j =
     map_option (\<lambda>v. v + (\<Sum>x\<leftarrow>filter (\<lambda>x. i x = j) xs. d x)) (get m j)"
proof (induction xs arbitrary: m)
  case Nil
  then show ?case by (simp add: option.map_id0 option.map_ident)
next
  case (Cons x xs)
  then show ?case
    by (simp add: get_cell_add option.map_comp comp_def add.assoc cong: map_option_cong)
qed

lemma dom_cell_add: "dom (get (cell_add get put i d m)) = dom (get m)"
  by (auto simp: dom_def get_cell_add)

lemma dom_fold_add: "dom (get (fold (\<lambda>x. cell_add get put (i x) (d x)) xs m)) = dom (get m)"
  by (auto simp: dom_def get_fold_add)

text \<open>Writing a list of cells, at most once each.\<close>

lemma get_fold_put:
  assumes "set is \<subseteq> dom (get m)" "distinct is"
  shows "get (fold (\<lambda>i m. put m i (f i)) is m) = (\<lambda>j. if j \<in> set is then Some (f j) else get m j)"
  using assms
proof (induction "is" arbitrary: m)
  case Nil
  then show ?case by simp
next
  case (Cons i "is")
  then have "get (put m i (f i)) = (get m)(i \<mapsto> f i)"
    by (intro get_put) auto
  moreover from this have "set is \<subseteq> dom (get (put m i (f i)))"
    using Cons.prems(1) by auto
  then have "get (fold (\<lambda>i m. put m i (f i)) is (put m i (f i))) =
      (\<lambda>j. if j \<in> set is then Some (f j) else get (put m i (f i)) j)"
    using Cons.prems(2) by (intro Cons.IH) auto
  ultimately show ?case
    using Cons.prems(2) by (auto simp: fun_eq_iff)
qed

end

section \<open>Array maps\<close>

text \<open>
  All \<open>max_entries\<close> elements of an array map exist from its creation, a lookup with a larger key
  returns null, an update with a larger key fails (\<open>-E2BIG\<close>).
\<close>

locale bpf_array =
  fixes ops :: "('m, u32) map_ops"
    and max_entries :: "'m \<Rightarrow> nat"
  assumes lookup_iff: "lookup_elem ops m k \<noteq> None \<longleftrightarrow> unat k < max_entries m"
    and lookup_store: "unat k < max_entries m \<Longrightarrow>
      lookup_elem ops (store_elem ops m k v) = (lookup_elem ops m)(k \<mapsto> v)"
    and max_store: "unat k < max_entries m \<Longrightarrow> max_entries (store_elem ops m k v) = max_entries m"
    and lookup_update: "unat k < max_entries m \<Longrightarrow>
      lookup_elem ops (update_elem ops m k v) = (lookup_elem ops m)(k \<mapsto> v)"
    and lookup_update_out: "max_entries m \<le> unat k \<Longrightarrow>
      lookup_elem ops (update_elem ops m k v) = lookup_elem ops m"
    and max_update: "max_entries (update_elem ops m k v) = max_entries m"

sublocale bpf_array \<subseteq> cells: cell_array "lookup_elem ops" "store_elem ops"
  by unfold_locales (use lookup_iff lookup_store in blast)

text \<open>The \<open>update\<close> through the helper obeys the same contract as the store through a pointer.\<close>

sublocale bpf_array \<subseteq> upd: cell_array "lookup_elem ops" "update_elem ops"
  by unfold_locales (use lookup_iff lookup_update in blast)

definition elem :: "('m, 'v) map_ops \<Rightarrow> 'm \<Rightarrow> nat \<Rightarrow> 'v" where
  "elem ops m i = the (lookup_elem ops m (of_nat i))"

context bpf_array
begin

lemma dom_lookup: "dom (lookup_elem ops m) = {k. unat k < max_entries m}"
  by (auto simp: dom_def simp flip: lookup_iff)

lemma lookup_0: "0 < max_entries m \<Longrightarrow> lookup_elem ops m 0 = Some (elem ops m 0)"
  using lookup_iff [of m 0] by (auto simp: elem_def)

lemma lookup_elem_of_nat:
  "i < max_entries m \<Longrightarrow> i < 2 ^ 32 \<Longrightarrow> lookup_elem ops m (of_nat i) = Some (elem ops m i)"
  using lookup_iff [of m "of_nat i"] by (auto simp: elem_def unat_of_nat)

lemma max_add: "max_entries (fetch_and_add ops k d m) = max_entries m"
  using lookup_iff [of m k] by (auto simp: fetch_and_add_def cell_add_def max_store split: option.split)

lemma elem_add_0: "0 < max_entries m \<Longrightarrow> elem ops (fetch_and_add ops 0 d m) 0 = elem ops m 0 + d"
  using lookup_iff [of m 0] by (auto simp: elem_def fetch_and_add_def cells.get_cell_add)

lemma max_fold_add: "max_entries (fold (\<lambda>x. fetch_and_add ops (i x) (d x)) xs m) = max_entries m"
  by (induction xs arbitrary: m) (simp_all add: max_add)

lemma elem_fold_add:
  assumes "j < max_entries m" "j < 2 ^ 32"
  shows "elem ops (fold (\<lambda>x. fetch_and_add ops (i x) (d x)) xs m) j =
    elem ops m j + (\<Sum>x\<leftarrow>filter (\<lambda>x. i x = of_nat j) xs. d x)"
proof -
  obtain v where v: "lookup_elem ops m (of_nat j) = Some v"
    using lookup_elem_of_nat [OF assms] by blast
  then show ?thesis
    by (simp add: elem_def fetch_and_add_def [abs_def] cells.get_fold_add)
qed

lemma max_fold_update: "max_entries (fold (\<lambda>i m. update_elem ops m (k i) (f i)) is m) = max_entries m"
  by (induction "is" arbitrary: m) (simp_all add: max_update)

end

text \<open>The loops use their index as the key.\<close>

lemma filter_key:
  assumes "j < n" "n \<le> 2 ^ 32"
  shows "filter (\<lambda>i. (of_nat i :: u32) = of_nat j) [0..<n] = [j]"
proof -
  have "filter (\<lambda>i. (of_nat i :: u32) = of_nat j) [0..<n] = filter (\<lambda>i. i = j) [0..<n]"
    using assms by (intro filter_cong) (auto simp: word_of_nat_eq_iff take_bit_nat_eq_self)
  also have "\<dots> = [j]"
    using assms(1) by (induction n) auto
  finally show ?thesis .
qed

section \<open>Hash maps\<close>

text \<open>
  A hash map takes an update of an existing key always, and of a new key while it has fewer than
  \<open>max_entries\<close> keys.
\<close>

locale bpf_hash =
  fixes ops :: "('m, 'v) map_ops"
    and max_entries :: nat
  assumes finite_keys: "finite (dom (lookup_elem ops m))"
    and lookup_update: "lookup_elem ops m k \<noteq> None \<or> card (dom (lookup_elem ops m)) < max_entries \<Longrightarrow>
      lookup_elem ops (update_elem ops m k v) = (lookup_elem ops m)(k \<mapsto> v)"
begin

text \<open>While there is room for all of them, the keys of a list of updates are added.\<close>

lemma dom_fold_update:
  assumes "card (dom (lookup_elem ops m)) + length xs \<le> max_entries"
  shows "dom (lookup_elem ops (fold (\<lambda>x m. update_elem ops m (k x) (v x)) xs m)) =
    dom (lookup_elem ops m) \<union> k ` set xs"
  using assms
proof (induction xs arbitrary: m)
  case Nil
  then show ?case by simp
next
  case (Cons x xs)
  have up: "lookup_elem ops (update_elem ops m (k x) (v x)) = (lookup_elem ops m)(k x \<mapsto> v x)"
    using Cons.prems by (intro lookup_update) simp
  have "card (dom (lookup_elem ops (update_elem ops m (k x) (v x)))) \<le> Suc (card (dom (lookup_elem ops m)))"
    using finite_keys [of m] by (simp add: up card_insert_if)
  then have "card (dom (lookup_elem ops (update_elem ops m (k x) (v x)))) + length xs \<le> max_entries"
    using Cons.prems by simp
  from Cons.IH [OF this] show ?case
    by (auto simp: up)
qed

lemma lookup_fold_update:
  assumes "card (dom (lookup_elem ops m)) + length ks \<le> max_entries"
  shows "lookup_elem ops (fold (\<lambda>k m. update_elem ops m k (f k)) ks m) =
    (\<lambda>j. if j \<in> set ks then Some (f j) else lookup_elem ops m j)"
  using assms
proof (induction ks arbitrary: m)
  case Nil
  then show ?case by simp
next
  case (Cons k ks)
  have up: "lookup_elem ops (update_elem ops m k (f k)) = (lookup_elem ops m)(k \<mapsto> f k)"
    using Cons.prems by (intro lookup_update) simp
  have "card (dom (lookup_elem ops (update_elem ops m k (f k)))) \<le> Suc (card (dom (lookup_elem ops m)))"
    using finite_keys [of m] by (simp add: up card_insert_if)
  then have "card (dom (lookup_elem ops (update_elem ops m k (f k)))) + length ks \<le> max_entries"
    using Cons.prems by simp
  from Cons.IH [OF this] show ?case
    by (auto simp: up fun_eq_iff)
qed

end

section \<open>LRU hash maps\<close>

text \<open>
  An LRU hash map evicts other keys when it is full, so an update always takes effect and may lose
  any other key.  A lookup marks the element as used, so it returns the map too.
\<close>

record ('m, 'v) lru_ops =
  lru_lookup :: "'m \<Rightarrow> u32 \<Rightarrow> 'v option \<times> 'm"
  lru_update :: "'m \<Rightarrow> u32 \<Rightarrow> 'v \<Rightarrow> 'm"

definition lru_get :: "('m, 'v) lru_ops \<Rightarrow> 'm \<Rightarrow> u32 \<Rightarrow> 'v option" where
  "lru_get ops m k = fst (lru_lookup ops m k)"

locale bpf_lru_hash =
  fixes ops :: "('m, u32) lru_ops"
  assumes get_after_lookup: "lru_get ops (snd (lru_lookup ops m k)) = lru_get ops m"
    and get_update: "lru_get ops (lru_update ops m k v) k = Some v"
    and get_update_other: "k' \<noteq> k \<Longrightarrow>
      lru_get ops (lru_update ops m k v) k' = lru_get ops m k' \<or> lru_get ops (lru_update ops m k v) k' = None"

section \<open>Reference instances\<close>

text \<open>
  An array map as its element array; a hash map as an association list of at most
  \<open>n\<close> keys; an LRU hash map as an association list in order of use, cut at \<open>n\<close> keys.
\<close>

definition array_map :: "(u32 list, u32) map_ops" where
  "array_map = \<lparr>
     lookup_elem = (\<lambda>m k. if unat k < length m then Some (m ! unat k) else None),
     store_elem = (\<lambda>m k v. m[unat k := v]),
     update_elem = (\<lambda>m k v. if unat k < length m then m[unat k := v] else m) \<rparr>"

lemma array_map_simps [simp]:
  "lookup_elem array_map m k = (if unat k < length m then Some (m ! unat k) else None)"
  "store_elem array_map m k v = m[unat k := v]"
  "update_elem array_map m k v = (if unat k < length m then m[unat k := v] else m)"
  by (simp_all add: array_map_def)

interpretation arr: bpf_array array_map length
  by unfold_locales (auto simp: fun_eq_iff nth_list_update dest: word_unat_eq_iff [THEN iffD2])

definition hash_map :: "nat \<Rightarrow> ((u32 \<times> 'v) list, 'v) map_ops" where
  "hash_map n = \<lparr>
     lookup_elem = map_of,
     store_elem = (\<lambda>m k v. (k, v) # m),
     update_elem = (\<lambda>m k v. if k \<in> fst ` set m \<or> card (fst ` set m) < n then (k, v) # m else m) \<rparr>"

lemma hash_map_simps [simp]:
  "lookup_elem (hash_map n) m k = map_of m k"
  "update_elem (hash_map n) m k v = (if k \<in> fst ` set m \<or> card (fst ` set m) < n then (k, v) # m else m)"
  by (simp_all add: hash_map_def)

interpretation hash: bpf_hash "hash_map n" n for n
  by unfold_locales (auto simp: hash_map_def finite_dom_map_of dom_map_of_conv_image_fst map_of_eq_None_iff)

definition lru_map :: "nat \<Rightarrow> ((u32 \<times> u32) list, u32) lru_ops" where
  "lru_map n = \<lparr>
     lru_lookup = (\<lambda>m k. case map_of m k of
        None \<Rightarrow> (None, m) | Some v \<Rightarrow> (Some v, (k, v) # filter (\<lambda>x. fst x \<noteq> k) m)),
     lru_update = (\<lambda>m k v. take (max n 1) ((k, v) # filter (\<lambda>x. fst x \<noteq> k) m)) \<rparr>"

lemma lru_map_get: "lru_get (lru_map n) m k = map_of m k"
  by (simp add: lru_get_def lru_map_def split: option.split)

lemma map_of_take_or: "map_of (take n xs) k = map_of xs k \<or> map_of (take n xs) k = None"
proof (cases "map_of (take n xs) k")
  case (Some v)
  then have "map_of (take n xs @ drop n xs) k = Some v"
    unfolding map_of_append by (simp add: map_add_def)
  then show ?thesis
    using Some by simp
qed simp

lemma map_of_filter_key: "k' \<noteq> k \<Longrightarrow> map_of (filter (\<lambda>x. fst x \<noteq> k) m) k' = map_of m k'"
  by (induction m) auto

interpretation lru: bpf_lru_hash "lru_map n" for n
proof
  show "lru_get (lru_map n) (snd (lru_lookup (lru_map n) m k)) = lru_get (lru_map n) m" for m k
    by (rule ext, unfold lru_map_get) (auto simp: lru_map_def map_of_filter_key split: option.split)
  show "lru_get (lru_map n) (lru_update (lru_map n) m k v) k = Some v" for m k v
    unfolding lru_map_get by (cases "max n 1") (simp_all add: lru_map_def)
  show "k' \<noteq> k \<Longrightarrow> lru_get (lru_map n) (lru_update (lru_map n) m k v) k' = lru_get (lru_map n) m k' \<or>
      lru_get (lru_map n) (lru_update (lru_map n) m k v) k' = None" for m k k' v
    using map_of_take_or [of "max n 1" "(k, v) # filter (\<lambda>x. fst x \<noteq> k) m" k']
    unfolding lru_map_get by (simp add: lru_map_def map_of_filter_key del: take_Suc_Cons)
qed

end
