(* ===== verification/Xdp_Steps.thy ===== *)
theory Xdp_Steps
  imports Xdp_Checksum Bpf_Maps
begin

text \<open>
  The steps that the batch programs (aggregate, reduce, histogram, copy to host, copy from host,
  filter) have in common after the header checks: the size and bounds check of the payload, the
  count of packets with its notification every \<open>MiB/TOT_SIZE_B\<close> packets, the two timestamps; and the
  contracts \<open>counted_job\<close> and \<open>accumulating_job\<close> that turn a theorem on one packet into a theorem on a
  run of packets.
\<close>

type_synonym 's xdp_result = "(xdp_action \<times> bytes \<times> 's) option"

section \<open>Payload checks\<close>

text \<open>\<open>payload_size != TOT_SIZE_B\<close> and \<open>payload + payload_size/DATA_SIZE_B > pkt_end\<close>: pass the packet on.\<close>

definition with_payload :: "bytes \<Rightarrow> 'r \<Rightarrow> (nat \<Rightarrow> 'r option) \<Rightarrow> 'r option" where
  "with_payload p pass body = do {
     payload_size \<leftarrow> udp_payload_size p;
     if payload_size \<noteq> of_nat TOT_SIZE_B then Some pass
     else let n = unat payload_size div DATA_SIZE_B in
       if length p < pay_off + DATA_SIZE_B * n then Some pass else body n
   }"

definition job_frame :: "bytes \<Rightarrow> bool" where
  "job_frame p \<longleftrightarrow> udp_frame p \<and> payload_len p = 1024 \<and> 1066 \<le> length p"

lemma with_job_eq:
  "with_udp p pass (with_payload p pass body) = (if job_frame p then body 256 else Some pass)"
  by (auto simp: with_udp_eq with_payload_def udp_frame_def job_frame_def mem_simps const_defs Let_def)

lemma job_frame_length: "job_frame p \<Longrightarrow> 1066 \<le> length p"
  by (simp add: job_frame_def)

text \<open>A frame whose payload is the given \<open>int32_t\<close> values, all other header fields zero.\<close>

definition job_hdr :: bytes where
  "job_hdr = replicate 23 0 @ [17] @ replicate 14 0 @ [4, 8, 0, 0]"

definition job_of :: "u32 list \<Rightarrow> bytes" where
  "job_of ws = job_hdr @ concat (map (le_of_word 4) ws)"

lemma length_job_hdr [simp]: "length job_hdr = 42"
  by (simp add: job_hdr_def)

lemma length_concat_words [simp]: "length (concat (map (le_of_word 4) ws)) = 4 * length ws"
  by (induction ws) auto

lemma get_bytes_concat_words:
  "i < length ws \<Longrightarrow> get_bytes (concat (map (le_of_word 4) ws)) (4 * i) 4 = le_of_word 4 (ws ! i)"
proof (induction ws arbitrary: i)
  case Nil
  then show ?case by simp
next
  case (Cons w ws)
  show ?case
  proof (cases i)
    case 0
    then show ?thesis by (simp add: get_bytes_def)
  next
    case (Suc j)
    have "4 \<le> 4 * i" "4 * i - 4 = 4 * j" "j < length ws"
      using Suc Cons.prems by auto
    then have "get_bytes (le_of_word 4 w @ concat (map (le_of_word 4) ws)) (4 * i) 4 =
        le_of_word 4 (ws ! j)"
      by (simp add: get_bytes_append_right Cons.IH del: le_of_word.simps)
    then show ?thesis
      using Suc by simp
  qed
qed

lemma length_job_of [simp]: "length (job_of ws) = 42 + 4 * length ws"
  by (simp add: job_of_def)

lemma payload_word_job_of: "i < length ws \<Longrightarrow> payload_word (job_of ws) i = ws ! i"
  by (simp add: payload_word_def job_of_def get_bytes_append_right get_bytes_concat_words mem_simps)

lemma job_frame_job_of: "job_frame (job_of ws) \<longleftrightarrow> 256 \<le> length ws"
proof -
  have "get_bytes job_hdr 38 2 = [4, 8]"
    by (simp add: job_hdr_def get_bytes_def)
  then have "payload_len (job_of ws) = 1024"
    by (simp add: payload_len_def job_of_def get_bytes_append_left ntohs_def push_bit_eq_mult)
       (simp add: ntohs_def numeral_2_eq_2)?
  moreover have "udp_frame (job_of ws)"
    by (simp add: udp_frame_def job_of_def nth_append) (simp add: job_hdr_def nth_append)
  ultimately show ?thesis
    by (auto simp: job_frame_def job_of_def)
qed

lemma job_frame_job: "length ws = 256 \<Longrightarrow> job_frame (job_of ws)"
  by (simp add: job_frame_job_of)

section \<open>Counting packets\<close>

record 'm counted =
  rxpkt :: 'm

text \<open>
  \<open>__sync_fetch_and_add(nr_pkt, 1); if (*nr_pkt % (MiB/TOT_SIZE_B) == 0)\<close>: the new map and whether the
  packet is sent back.  The value is read again after the atomic addition; \<open>Xdp_Race\<close> looks at what
  other cores may do in between, here nothing does.
\<close>

definition count_pkt :: "('m, u32) map_ops \<Rightarrow> ('m, 'z) counted_scheme \<Rightarrow> (bool \<times> ('m, 'z) counted_scheme) option" where
  "count_pkt ops st =
     (case lookup_elem ops (rxpkt st) 0 of
        None \<Rightarrow> Some (False, st)
      | Some n \<Rightarrow> do {
          let st = st\<lparr>rxpkt := store_elem ops (rxpkt st) 0 (n + 1)\<rparr>;
          nr_pkt \<leftarrow> lookup_elem ops (rxpkt st) 0;
          Some (c_rem nr_pkt (int (MiB div TOT_SIZE_B)) = 0, st)
        })"

definition pkt_count :: "('m, u32) map_ops \<Rightarrow> ('m, 'z) counted_scheme \<Rightarrow> u32" where
  "pkt_count ops st = elem ops (rxpkt st) 0"

lemma pkt_count_array: "rxpkt st = [n] \<Longrightarrow> pkt_count array_map st = n"
  by (simp add: pkt_count_def elem_def)

text \<open>The packet is sent back when its number is a multiple of 1024.\<close>

definition notifies :: "u32 \<Rightarrow> bool" where
  "notifies n \<longleftrightarrow> 1024 dvd unat n"

lemma c_rem_1024: "c_rem n 1024 = 0 \<longleftrightarrow> notifies n"
  using c_rem_power2 [of 10 n] by (simp add: notifies_def)

context bpf_array
begin

lemma count_pkt_eq:
  assumes "0 < max_entries (rxpkt st)"
  shows "\<exists>m. count_pkt ops st = Some (notifies (pkt_count ops st + 1), st\<lparr>rxpkt := m\<rparr>) \<and>
    max_entries m = max_entries (rxpkt st) \<and> elem ops m 0 = pkt_count ops st + 1"
proof -
  let ?m = "store_elem ops (rxpkt st) 0 (pkt_count ops st + 1)"
  have "lookup_elem ops (rxpkt st) 0 = Some (pkt_count ops st)"
    using assms by (simp add: lookup_0 pkt_count_def)
  moreover have "lookup_elem ops ?m 0 = Some (pkt_count ops st + 1)"
    using assms by (simp add: lookup_store)
  ultimately show ?thesis
    using assms by (intro exI [of _ ?m])
      (simp add: count_pkt_def const_defs c_rem_1024 max_store elem_def)
qed

end

section \<open>Timestamps\<close>

text \<open>\<open>memcpy(payload, &time, 8); time = ...; memcpy(((long long *) payload) + 1, &time, 8);\<close>\<close>

definition stamp_times :: "bytes \<Rightarrow> u64 \<Rightarrow> u64 \<Rightarrow> bytes option" where
  "stamp_times p t0 t1 = do { p \<leftarrow> wr64 p pay_off t0; wr64 p (pay_off + 8) t1 }"

definition stamped :: "bytes \<Rightarrow> u64 \<Rightarrow> u64 \<Rightarrow> bytes" where
  "stamped p t0 t1 = put64 (put64 p 42 t0) 50 t1"

lemma stamp_times_in [mem_simps]: "58 \<le> length p \<Longrightarrow> stamp_times p t0 t1 = Some (stamped p t0 t1)"
  by (simp add: stamp_times_def stamped_def mem_simps)

lemma length_stamped [mem_simps]: "58 \<le> length p \<Longrightarrow> length (stamped p t0 t1) = length p"
  by (simp add: stamped_def mem_simps)

lemma stamped_times:
  assumes "58 \<le> length p"
  shows "le64 (stamped p t0 t1) 42 = t0" "le64 (stamped p t0 t1) 50 = t1"
  using assms by (simp_all add: stamped_def mem_simps)

lemma get_bytes_stamped [mem_simps]:
  "58 \<le> length p \<Longrightarrow> off + n \<le> length p \<Longrightarrow> off + n \<le> 42 \<or> 58 \<le> off \<Longrightarrow>
     get_bytes (stamped p t0 t1) off n = get_bytes p off n"
  by (auto simp: stamped_def mem_simps)

text \<open>The frame that goes up the stack: the times in the payload and a new checksum.\<close>

definition refreshed :: "bytes \<Rightarrow> bytes" where
  "refreshed p = put16 p 40 (of_nat (65535 - csum_fold (csum_base p)))"

lemma refresh_csum_in [mem_simps]:
  assumes "42 \<le> length p"
  shows "refresh_csum p = Some (refreshed p)"
proof -
  obtain c where "refresh_csum p = Some (put16 p 40 c)" "unat c = 65535 - csum_fold (csum_base p)"
    using refresh_csum_eq [OF assms] by blast
  moreover have "of_nat (unat c) = c"
    by simp
  ultimately show ?thesis
    by (simp add: refreshed_def)
qed

lemma length_refreshed [mem_simps]: "42 \<le> length p \<Longrightarrow> length (refreshed p) = length p"
  by (simp add: refreshed_def mem_simps)

lemma get_bytes_refreshed [mem_simps]:
  "42 \<le> length p \<Longrightarrow> off + n \<le> length p \<Longrightarrow> off + n \<le> 40 \<or> 42 \<le> off \<Longrightarrow>
     get_bytes (refreshed p) off n = get_bytes p off n"
  by (auto simp: refreshed_def mem_simps)

text \<open>The new checksum does not depend on the old one.\<close>

lemma refreshed_put_check: "42 \<le> length p \<Longrightarrow> refreshed (put16 p 40 c) = refreshed p"
  by (simp add: refreshed_def csum_base_def mem_simps)

lemma swapped_put_check: "42 \<le> length p \<Longrightarrow> swapped (put16 p 40 c) = put16 (swapped p) 40 c"
  by (rule bytes_eqI) (auto simp: nth_swapped nth_put_bytes mem_simps swap_perm_less, auto simp: swap_perm_def)

section \<open>Runs\<close>

text \<open>The invocations of a handler on the packets of a queue, one after the other.\<close>

primrec run_xdp :: "('e \<Rightarrow> 's \<Rightarrow> 's xdp_result) \<Rightarrow> 'e list \<Rightarrow> 's \<Rightarrow> ((xdp_action \<times> bytes) list \<times> 's) option" where
  "run_xdp h [] s = Some ([], s)"
| "run_xdp h (e # es) s = do {
     (a, q, s) \<leftarrow> h e s;
     (out, s) \<leftarrow> run_xdp h es s;
     Some ((a, q) # out, s)
   }"

definition accepted :: "('e \<Rightarrow> bool) \<Rightarrow> 'e list \<Rightarrow> nat" where
  "accepted acc es = length (filter acc es)"

text \<open>The invocations of a timed program carry the two clock values; its jobs are the accepted frames.\<close>

type_synonym timed = "u64 \<times> u64 \<times> bytes"

definition jobs :: "timed list \<Rightarrow> bytes list" where
  "jobs es = filter job_frame (map (snd \<circ> snd) es)"

lemma accepted_timed: "accepted (\<lambda>(t0, t1, p). job_frame p) es = length (jobs es)"
  by (induction es) (auto simp: accepted_def jobs_def)

lemma sum_timed:
  assumes "\<And>p. c p i = (if job_frame p then f p else 0)"
  shows "(\<Sum>e\<leftarrow>es. (case e of (t0, t1, p) \<Rightarrow> c p) i) = (\<Sum>p\<leftarrow>jobs es. f p :: u32)"
  by (induction es) (auto simp: jobs_def assms)

text \<open>
  The contract of a batch program: from a well-formed state it always returns, a packet it accepts
  adds one to the count and is sent back exactly when the new count is a multiple of 1024, any other
  packet leaves the count alone and is passed on.
\<close>

locale counted_job =
  fixes handle :: "'e \<Rightarrow> 's \<Rightarrow> 's xdp_result"
    and wf :: "'s \<Rightarrow> bool"
    and count :: "'s \<Rightarrow> u32"
    and accepts :: "'e \<Rightarrow> bool"
  assumes handles: "wf s \<Longrightarrow> \<exists>a q s'. handle e s = Some (a, q, s') \<and> wf s' \<and>
    count s' = (if accepts e then count s + 1 else count s) \<and>
    (a = XDP_TX \<longleftrightarrow> accepts e \<and> notifies (count s'))"
begin

lemma div_notifies:
  "(n + 1) div 1024 = n div 1024 + (if 1024 dvd n + 1 then 1 else (0::nat))"
  by (auto simp: div_Suc mod_eq_0_iff_dvd)

lemma notifies_mod:
  assumes "n mod 2 ^ 32 = unat c"
  shows "notifies c \<longleftrightarrow> 1024 dvd n"
proof -
  have "1024 dvd n mod 2 ^ 32 \<longleftrightarrow> (1024::nat) dvd n"
    by (rule dvd_mod_iff) simp
  then show ?thesis
    unfolding notifies_def assms [symmetric] by simp
qed

lemma count_Suc_mod:
  assumes "n mod 2 ^ 32 = unat (c :: u32)"
  shows "(n + 1) mod 2 ^ 32 = unat (c + 1)"
proof -
  have "unat (c + 1) = (n mod 2 ^ 32 + 1) mod 2 ^ 32"
    unfolding assms by (simp add: unat_word_ariths)
  also have "\<dots> = (n + 1) mod 2 ^ 32"
    by (rule mod_add_left_eq)
  finally show ?thesis by simp
qed

text \<open>
  The program answers every 1024th accepted packet, whatever the interleaving with others and also
  when the 32-bit count wraps around.
\<close>

lemma replies:
  assumes "wf s"
  shows "\<exists>out s'. run_xdp handle es s = Some (out, s') \<and> wf s' \<and>
    count s' = count s + of_nat (accepted accepts es) \<and> length out = length es \<and>
    length (filter (\<lambda>r. fst r = XDP_TX) out) = (unat (count s) + accepted accepts es) div 1024 - unat (count s) div 1024"
proof -
  have "\<exists>out s'. run_xdp handle es s = Some (out, s') \<and> wf s' \<and>
    count s' = count s + of_nat (accepted accepts es) \<and> length out = length es \<and>
    length (filter (\<lambda>r. fst r = XDP_TX) out) = (n + accepted accepts es) div 1024 - n div 1024"
    if "wf s" "n mod 2 ^ 32 = unat (count s)" for n
    using that
  proof (induction es arbitrary: s n)
    case Nil
    then show ?case by (simp add: accepted_def)
  next
    case (Cons e es)
    obtain a q s1 where h: "handle e s = Some (a, q, s1)" "wf s1"
        "count s1 = (if accepts e then count s + 1 else count s)"
        "a = XDP_TX \<longleftrightarrow> accepts e \<and> notifies (count s1)"
      using handles [OF Cons.prems(1)] by blast
    define n1 where "n1 = (if accepts e then n + 1 else n)"
    have n1: "n1 mod 2 ^ 32 = unat (count s1)"
      using Cons.prems(2) count_Suc_mod by (simp add: n1_def h(3))
    then obtain out s' where r: "run_xdp handle es s1 = Some (out, s')" "wf s'"
        "count s' = count s1 + of_nat (accepted accepts es)" "length out = length es"
        "length (filter (\<lambda>r. fst r = XDP_TX) out) = (n1 + accepted accepts es) div 1024 - n1 div 1024"
      using Cons.IH h(2) by blast
    have "a = XDP_TX \<longleftrightarrow> accepts e \<and> 1024 dvd n1"
      using h(4) notifies_mod [OF n1] by simp
    moreover have "n1 div 1024 \<le> (n1 + accepted accepts es) div 1024"
      by (intro div_le_mono) simp
    moreover have "n1 + accepted accepts es = n + accepted accepts (e # es)"
      by (simp add: n1_def accepted_def)
    moreover have "n1 div 1024 = n div 1024 + (if a = XDP_TX then 1 else 0)"
      using div_notifies [of n] calculation(1) by (simp add: n1_def)
    ultimately have "length (filter (\<lambda>r. fst r = XDP_TX) ((a, q) # out)) =
        (n + accepted accepts (e # es)) div 1024 - n div 1024"
      using r(5) by (auto simp: Suc_diff_Suc Suc_le_eq)
    moreover have "run_xdp handle (e # es) s = Some ((a, q) # out, s')"
      using h(1) r(1) by simp
    moreover have "count s' = count s + of_nat (accepted accepts (e # es))"
      using h(3) r(3) by (simp add: accepted_def add.assoc)
    moreover have "length ((a, q) # out) = length (e # es)"
      using r(4) by simp
    ultimately show ?case
      using r(2) by (intro exI [of _ "(a, q) # out"] exI [of _ s'] conjI)
  qed
  from this [OF assms, of "unat (count s)"] show ?thesis
    using unsigned_less [where ?'a = nat and w = "count s"] by simp
qed

end

text \<open>
  A batch program that also accumulates: each cell of its result grows by the contribution of the
  packet.
\<close>

locale accumulating_job = counted_job handle wf count accepts
  for handle :: "'e \<Rightarrow> 's \<Rightarrow> 's xdp_result"
    and wf :: "'s \<Rightarrow> bool"
    and count :: "'s \<Rightarrow> u32"
    and accepts :: "'e \<Rightarrow> bool" +
  fixes cell :: "'s \<Rightarrow> 'i \<Rightarrow> u32"
    and contrib :: "'e \<Rightarrow> 'i \<Rightarrow> u32"
    and dom_cells :: "'i set"
  assumes accumulates: "wf s \<Longrightarrow> handle e s = Some (a, q, s') \<Longrightarrow> i \<in> dom_cells \<Longrightarrow>
    cell s' i = cell s i + contrib e i"
begin

lemma total:
  assumes "wf s" "run_xdp handle es s = Some (out, s')" "i \<in> dom_cells"
  shows "cell s' i = cell s i + (\<Sum>e\<leftarrow>es. contrib e i)"
  using assms
proof (induction es arbitrary: s out)
  case Nil
  then show ?case by simp
next
  case (Cons e es)
  obtain a q s1 where h: "handle e s = Some (a, q, s1)" "wf s1"
    using handles [OF Cons.prems(1)] by blast
  with Cons.prems(2) obtain out' where "run_xdp handle es s1 = Some (out', s')"
    by (auto split: Option.bind_splits)
  then have "cell s' i = cell s1 i + (\<Sum>e\<leftarrow>es. contrib e i)"
    using Cons.IH h(2) Cons.prems(3) by blast
  then show ?case
    using accumulates [OF Cons.prems(1) h(1) Cons.prems(3)] by (simp add: add.assoc)
qed

lemma run:
  assumes "wf s"
  shows "\<exists>out s'. run_xdp handle es s = Some (out, s') \<and> wf s' \<and>
    (\<forall>i\<in>dom_cells. cell s' i = cell s i + (\<Sum>e\<leftarrow>es. contrib e i)) \<and>
    count s' = count s + of_nat (accepted accepts es) \<and> length out = length es \<and>
    length (filter (\<lambda>r. fst r = XDP_TX) out) =
      (unat (count s) + accepted accepts es) div 1024 - unat (count s) div 1024"
proof -
  obtain out s' where r: "run_xdp handle es s = Some (out, s')" "wf s'"
      "count s' = count s + of_nat (accepted accepts es)" "length out = length es"
      "length (filter (\<lambda>r. fst r = XDP_TX) out) =
        (unat (count s) + accepted accepts es) div 1024 - unat (count s) div 1024"
    using replies [OF assms, of es] by blast
  show ?thesis
    by (intro exI [of _ out] exI [of _ s'] conjI ballI r total [OF assms r(1)])
qed

end

end
