(* ===== verification/Xdp_Aggregate.thy ===== *)
theory Xdp_Aggregate
  imports Xdp_Steps
begin

text \<open>
  \<open>src/ebpf-xdp/aggregate\<close> (\<open>aggregate.c\<close>, \<open>aggregate_no_t.c\<close>) and \<open>src/ebpf-xdp/clock_overhead/aggregate.c\<close>: the sum of
  all \<open>int32_t\<close> of all accepted payloads, in one map cell.  The \<open>int32_t\<close> sums are kept as 32-bit words:
  the eBPF instructions they compile to wrap around.  \<open>bpf_trace_printk\<close> of the \<open>_no_t\<close> variant only
  logs and is left out.
\<close>

record 'm aggregate_maps = "'m counted" +
  rxaggr :: 'm

section \<open>The handlers\<close>

definition payload_sum_loop :: "bytes \<Rightarrow> nat \<Rightarrow> u32 option" where
  "payload_sum_loop p n =
     for_each (\<lambda>i res. do { w \<leftarrow> rd32 p (pay_off + 4 * i); Some (res + w) }) [0..<n] 0"

definition aggregate :: "('m, u32) map_ops \<Rightarrow> u64 \<Rightarrow> u64 \<Rightarrow> bytes \<Rightarrow> 'm aggregate_maps \<Rightarrow> 'm aggregate_maps xdp_result" where
  "aggregate ops time time' p st =
     with_udp p (XDP_PASS, p, st) (with_payload p (XDP_PASS, p, st) (\<lambda>n. do {
       res \<leftarrow> payload_sum_loop p n;
       let st = st\<lparr>rxaggr := fetch_and_add ops 0 res (rxaggr st)\<rparr>;
       (reply, st) \<leftarrow> count_pkt ops st;
       if reply then do {
         p \<leftarrow> swap_hdrs p;
         Some (XDP_TX, p, st)
       }
       else if length p < pay_off + 2 * 8 then Some (XDP_PASS, p, st)
       else do {
         p \<leftarrow> stamp_times p time time';
         p \<leftarrow> refresh_csum p;
         Some (XDP_PASS, p, st)
       }
     }))"

definition aggregate_no_t :: "('m, u32) map_ops \<Rightarrow> bytes \<Rightarrow> 'm aggregate_maps \<Rightarrow> 'm aggregate_maps xdp_result" where
  "aggregate_no_t ops p st =
     with_udp p (XDP_PASS, p, st) (with_payload p (XDP_PASS, p, st) (\<lambda>n. do {
       res \<leftarrow> payload_sum_loop p n;
       let st = st\<lparr>rxaggr := fetch_and_add ops 0 res (rxaggr st)\<rparr>;
       (reply, st) \<leftarrow> count_pkt ops st;
       if reply then do {
         p \<leftarrow> swap_hdrs p;
         Some (XDP_TX, p, st)
       }
       else Some (XDP_DROP, p, st)
     }))"

text \<open>The clock-overhead variant reads the clock twice in a row before anything else.\<close>

definition aggregate_clock :: "('m, u32) map_ops \<Rightarrow> u64 \<Rightarrow> u64 \<Rightarrow> bytes \<Rightarrow> 'm aggregate_maps \<Rightarrow> 'm aggregate_maps xdp_result" where
  "aggregate_clock ops time1 time2 p st =
     with_udp p (XDP_PASS, p, st) (with_payload p (XDP_PASS, p, st) (\<lambda>n. do {
       res \<leftarrow> payload_sum_loop p n;
       let st = st\<lparr>rxaggr := fetch_and_add ops 0 res (rxaggr st)\<rparr>;
       (reply, st) \<leftarrow> count_pkt ops st;
       if reply then do {
         p \<leftarrow> swap_hdrs p;
         Some (XDP_TX, p, st)
       }
       else if length p < pay_off + 2 * 8 then Some (XDP_PASS, p, st)
       else do {
         p \<leftarrow> stamp_times p time1 time2;
         p \<leftarrow> refresh_csum p;
         Some (XDP_PASS, p, st)
       }
     }))"

lemma aggregate_clock_eq: "aggregate_clock = aggregate"
  by (simp add: aggregate_clock_def aggregate_def fun_eq_iff)

section \<open>One packet\<close>

definition payload_sum :: "bytes \<Rightarrow> u32" where
  "payload_sum p = (\<Sum>i\<leftarrow>[0..<256]. payload_word p i)"

lemma payload_sum_loop_in:
  assumes "1066 \<le> length p"
  shows "payload_sum_loop p 256 = Some (payload_sum p)"
proof -
  have "payload_sum_loop p 256 = Some (fold (\<lambda>i res. res + payload_word p i) [0..<256] 0)"
    unfolding payload_sum_loop_def using assms by (intro for_each_fold) (simp add: rd32_payload)
  then show ?thesis
    by (simp only: fold_add_sum payload_sum_def add_0)
qed

definition sum_of :: "('m, u32) map_ops \<Rightarrow> 'm aggregate_maps \<Rightarrow> u32" where
  "sum_of ops st = elem ops (rxaggr st) 0"

definition aggregate_wf :: "('m \<Rightarrow> nat) \<Rightarrow> 'm aggregate_maps \<Rightarrow> bool" where
  "aggregate_wf me st \<longleftrightarrow> me (rxaggr st) = 1 \<and> me (rxpkt st) = 1"

context bpf_array
begin

lemma aggregate_job:
  assumes "aggregate_wf max_entries st" "job_frame p"
  shows "\<exists>st'. aggregate_wf max_entries st' \<and> sum_of ops st' = sum_of ops st + payload_sum p \<and>
    pkt_count ops st' = pkt_count ops st + 1 \<and>
    aggregate ops t0 t1 p st = Some
      (if notifies (pkt_count ops st') then (XDP_TX, swapped p, st')
       else (XDP_PASS, refreshed (stamped p t0 t1), st')) \<and>
    aggregate_no_t ops p st = Some
      (if notifies (pkt_count ops st') then (XDP_TX, swapped p, st') else (XDP_DROP, p, st'))"
proof -
  define st1 where "st1 = st\<lparr>rxaggr := fetch_and_add ops 0 (payload_sum p) (rxaggr st)\<rparr>"
  have st1: "max_entries (rxpkt st1) = 1" "max_entries (rxaggr st1) = 1" "pkt_count ops st1 = pkt_count ops st"
      "sum_of ops st1 = sum_of ops st + payload_sum p"
    using assms(1) by (simp_all add: st1_def aggregate_wf_def max_add elem_add_0 sum_of_def pkt_count_def)
  obtain m where m: "count_pkt ops st1 = Some (notifies (pkt_count ops st1 + 1), st1\<lparr>rxpkt := m\<rparr>)"
      "max_entries m = max_entries (rxpkt st1)" "elem ops m 0 = pkt_count ops st1 + 1"
    using count_pkt_eq [of st1] st1(1) by auto
  have len: "1066 \<le> length p"
    using assms(2) by (rule job_frame_length)
  show ?thesis
    using assms(2) len m st1
    by (intro exI [of _ "st1\<lparr>rxpkt := m\<rparr>"])
       (simp add: aggregate_def aggregate_no_t_def with_job_eq payload_sum_loop_in mem_simps
         aggregate_wf_def sum_of_def pkt_count_def flip: st1_def)
qed

lemma aggregate_other:
  assumes "\<not> job_frame p"
  shows "aggregate ops t0 t1 p st = Some (XDP_PASS, p, st)" "aggregate_no_t ops p st = Some (XDP_PASS, p, st)"
  using assms by (simp_all add: aggregate_def aggregate_no_t_def with_job_eq)

end

text \<open>The contract of a batch program, for both variants.\<close>

definition sum_contrib :: "bytes \<Rightarrow> unit \<Rightarrow> u32" where
  "sum_contrib p _ = (if job_frame p then payload_sum p else 0)"

sublocale bpf_array \<subseteq> aggr: accumulating_job
  "\<lambda>(t0, t1, p). aggregate ops t0 t1 p" "aggregate_wf max_entries" "pkt_count ops" "\<lambda>(t0, t1, p). job_frame p"
  "\<lambda>st _. sum_of ops st" "\<lambda>(t0, t1, p). sum_contrib p" UNIV
proof (unfold_locales, goal_cases)
  case (1 st e)
  obtain t0 t1 p where e: "e = (t0, t1, p)" by (metis prod_cases3)
  show ?case
  proof (cases "job_frame p")
    case True
    then show ?thesis
      using aggregate_job [OF 1 True, of t0 t1] by (auto simp: e)
  qed (use 1 aggregate_other in \<open>auto simp: e\<close>)
next
  case (2 st e a q st' i)
  obtain t0 t1 p where e: "e = (t0, t1, p)" by (metis prod_cases3)
  show ?case
  proof (cases "job_frame p")
    case True
    then show ?thesis
      using aggregate_job [OF 2(1) True, of t0 t1] 2(2) by (auto simp: e sum_contrib_def split: if_splits)
  qed (use 2 aggregate_other in \<open>auto simp: e sum_contrib_def\<close>)
qed

sublocale bpf_array \<subseteq> aggr_no_t: accumulating_job
  "aggregate_no_t ops" "aggregate_wf max_entries" "pkt_count ops" job_frame
  "\<lambda>st _. sum_of ops st" sum_contrib UNIV
proof (unfold_locales, goal_cases)
  case (1 st p)
  show ?case
  proof (cases "job_frame p")
    case True
    then show ?thesis
      using aggregate_job [OF 1 True, of 0 0] by auto
  qed (use 1 aggregate_other in auto)
next
  case (2 st p a q st' i)
  show ?case
  proof (cases "job_frame p")
    case True
    then show ?thesis
      using aggregate_job [OF 2(1) True, of 0 0] 2(2) by (auto simp: sum_contrib_def split: if_splits)
  qed (use 2 aggregate_other in \<open>auto simp: sum_contrib_def\<close>)
qed

context bpf_array
begin

lemmas aggregate_runs = aggr.run
lemmas aggregate_no_t_runs = aggr_no_t.run

end

section \<open>Properties\<close>

text \<open>
  One invocation of \<open>aggregate\<close>, for every frame and both maps of one element: a UDP frame with 1024 bytes
  of payload adds the sum of its 256 integers to \<open>rxaggr\<close> and one to \<open>rxpkt\<close>; it is sent back with the
  parties swapped when its number is a multiple of 1024, otherwise it goes up the stack with the
  two times in the payload and a new checksum; any other frame is passed on with nothing changed.
\<close>

theorem aggregate_packet:
  assumes "bpf_array ops me" "me (rxaggr st) = 1" "me (rxpkt st) = 1"
  shows "\<exists>st'. (if job_frame p
      then sum_of ops st' = sum_of ops st + payload_sum p \<and> pkt_count ops st' = pkt_count ops st + 1 \<and>
        aggregate ops t0 t1 p st = Some
          (if notifies (pkt_count ops st') then (XDP_TX, swapped p, st')
           else (XDP_PASS, refreshed (stamped p t0 t1), st'))
      else st' = st \<and> aggregate ops t0 t1 p st = Some (XDP_PASS, p, st'))"
proof (cases "job_frame p")
  case True
  have "aggregate_wf me st"
    using assms by (simp add: aggregate_wf_def)
  then show ?thesis
    using bpf_array.aggregate_job [OF assms(1) _ True, of st t0 t1] True by auto
qed (simp add: bpf_array.aggregate_other [OF assms(1)])

definition ones_frame :: bytes where
  "ones_frame = job_of (replicate 256 1)"

lemma job_frame_ones: "job_frame ones_frame"
  by (simp add: ones_frame_def job_frame_job_of)

lemma payload_sum_ones: "payload_sum ones_frame = 256"
proof -
  have "map (payload_word ones_frame) [0..<256] = replicate 256 1"
    by (rule nth_equalityI) (simp_all add: ones_frame_def payload_word_job_of)
  then show ?thesis
    by (simp add: payload_sum_def sum_list_replicate)
qed

lemma start_maps:
  "pkt_count array_map \<lparr>rxpkt = [n], rxaggr = [a]\<rparr> = n" "sum_of array_map \<lparr>rxpkt = [n], rxaggr = [a]\<rparr> = a"
  by (simp_all add: elem_def pkt_count_def sum_of_def)

theorem aggregate_packet_witness:
  "\<exists>st'. aggregate array_map 5 9 ones_frame \<lparr>rxpkt = [1023], rxaggr = [7]\<rparr> =
     Some (XDP_TX, swapped ones_frame, st') \<and> sum_of array_map st' = 263"
  using aggregate_packet [OF arr.bpf_array_axioms, of "\<lparr>rxpkt = [1023], rxaggr = [7]\<rparr>" ones_frame 5 9]
  by (auto simp: job_frame_ones payload_sum_ones start_maps notifies_def)

lemma aggregate_sums:
  assumes "bpf_array ops me" "me (rxaggr st) = 1" "me (rxpkt st) = 1"
  shows "\<exists>out st'. run_xdp (\<lambda>(t0, t1, p). aggregate ops t0 t1 p) es st = Some (out, st') \<and>
    sum_of ops st' = sum_of ops st + (\<Sum>p\<leftarrow>jobs es. payload_sum p) \<and>
    pkt_count ops st' = pkt_count ops st + of_nat (length (jobs es)) \<and>
    length (filter (\<lambda>r. fst r = XDP_TX) out) =
      (unat (pkt_count ops st) + length (jobs es)) div 1024 - unat (pkt_count ops st) div 1024"
proof -
  have wf: "aggregate_wf me st"
    using assms by (simp add: aggregate_wf_def)
  have sums: "(\<Sum>e\<leftarrow>es. (case e of (t0, t1, p) \<Rightarrow> sum_contrib p) ()) = (\<Sum>p\<leftarrow>jobs es. payload_sum p)"
    by (rule sum_timed) (simp add: sum_contrib_def)
  show ?thesis
    using bpf_array.aggregate_runs [OF assms(1) wf, of es] unfolding accepted_timed
    by (auto simp: sums)
qed

text \<open>
  C1: over any run of packets, accepted or not, \<open>aggregate\<close> never fails, \<open>rxaggr\<close> ends as its start plus
  the sum of all accepted payloads (modulo \<open>2^32\<close>), \<open>rxpkt\<close> as its start plus the number of accepted packets, and
  exactly one packet is sent back for every 1024 accepted ones, also when the count wraps around.
\<close>

theorem aggregate_run:
  assumes "bpf_array ops me" "me (rxaggr st) = 1" "me (rxpkt st) = 1"
  shows "\<exists>out st'. run_xdp (\<lambda>(t0, t1, p). aggregate ops t0 t1 p) es st = Some (out, st') \<and>
    sum_of ops st' = sum_of ops st + (\<Sum>p\<leftarrow>jobs es. payload_sum p) \<and>
    pkt_count ops st' = pkt_count ops st + of_nat (length (jobs es)) \<and>
    length (filter (\<lambda>r. fst r = XDP_TX) out) =
      (unat (pkt_count ops st) + length (jobs es)) div 1024 - unat (pkt_count ops st) div 1024"
  by (rule aggregate_sums [OF assms])

theorem aggregate_run_witness:
  "\<exists>out st'. run_xdp (\<lambda>(t0, t1, p). aggregate array_map t0 t1 p) [(5, 9, ones_frame), (6, 8, [])]
      \<lparr>rxpkt = [1023], rxaggr = [7]\<rparr> = Some (out, st') \<and>
    sum_of array_map st' = 263 \<and> length (filter (\<lambda>r. fst r = XDP_TX) out) = 1"
proof -
  have "jobs [(5, 9, ones_frame), (6, 8, [])] = [ones_frame]"
    by (simp add: jobs_def job_frame_ones) (simp add: job_frame_def)
  then show ?thesis
    using aggregate_run [OF arr.bpf_array_axioms, of "\<lparr>rxpkt = [1023], rxaggr = [7]\<rparr>"
        "[(5, 9, ones_frame), (6, 8, [])]"]
    by (auto simp: payload_sum_ones start_maps simp del: run_xdp.simps)
qed

text \<open>
  The variant without timestamps accumulates and counts in the same way and drops what it does
  not send back.
\<close>

theorem aggregate_no_t_run:
  assumes "bpf_array ops me" "me (rxaggr st) = 1" "me (rxpkt st) = 1"
  shows "\<exists>out st'. run_xdp (aggregate_no_t ops) ps st = Some (out, st') \<and>
    sum_of ops st' = sum_of ops st + (\<Sum>p\<leftarrow>filter job_frame ps. payload_sum p) \<and>
    pkt_count ops st' = pkt_count ops st + of_nat (length (filter job_frame ps)) \<and>
    length (filter (\<lambda>r. fst r = XDP_TX) out) =
      (unat (pkt_count ops st) + length (filter job_frame ps)) div 1024 - unat (pkt_count ops st) div 1024"
proof -
  have wf: "aggregate_wf me st"
    using assms by (simp add: aggregate_wf_def)
  show ?thesis
    using bpf_array.aggregate_no_t_runs [OF assms(1) wf, of ps] unfolding accepted_def
    by (auto simp: sum_contrib_def sum_list_map_filter')
qed

theorem aggregate_no_t_run_witness:
  "\<exists>out st'. run_xdp (aggregate_no_t array_map) [ones_frame] \<lparr>rxpkt = [4294967295], rxaggr = [7]\<rparr> =
     Some (out, st') \<and> length (filter (\<lambda>r. fst r = XDP_TX) out) = 1 \<and> pkt_count array_map st' = 0"
  using aggregate_no_t_run [OF arr.bpf_array_axioms, of "\<lparr>rxpkt = [4294967295], rxaggr = [7]\<rparr>" "[ones_frame]"]
  by (auto simp: job_frame_ones start_maps simp del: run_xdp.simps)

end
