(* ===== verification/Xdp_Reduce.thy ===== *)
theory Xdp_Reduce
  imports Xdp_Steps
begin

text \<open>
  \<open>src/ebpf-xdp/reduce\<close> (\<open>reduce.c\<close>, \<open>reduce_no_t.c\<close>): element-wise sum of all accepted payloads in an array
  map of \<open>M = DATA_NR\<close> elements.
\<close>

record 'm reduce_maps = "'m counted" +
  rxred :: 'm

section \<open>The handlers\<close>

definition reduce_loop :: "('m, u32) map_ops \<Rightarrow> bytes \<Rightarrow> nat \<Rightarrow> 'm \<Rightarrow> 'm option" where
  "reduce_loop ops p n red =
     for_each (\<lambda>i red. let key = of_nat i in
       case lookup_elem ops red key of
         None \<Rightarrow> Some red
       | Some v \<Rightarrow> do { w \<leftarrow> rd32 p (pay_off + 4 * i); Some (store_elem ops red key (v + w)) }) [0..<n] red"

text \<open>The timed variant does not recompute the checksum after it writes the times.\<close>

definition reduce :: "('m, u32) map_ops \<Rightarrow> u64 \<Rightarrow> u64 \<Rightarrow> bytes \<Rightarrow> 'm reduce_maps \<Rightarrow> 'm reduce_maps xdp_result" where
  "reduce ops time time' p st =
     with_udp p (XDP_PASS, p, st) (with_payload p (XDP_PASS, p, st) (\<lambda>n. do {
       red \<leftarrow> reduce_loop ops p n (rxred st);
       let st = st\<lparr>rxred := red\<rparr>;
       (reply, st) \<leftarrow> count_pkt ops st;
       if reply then do {
         p \<leftarrow> swap_hdrs p;
         Some (XDP_TX, p, st)
       }
       else if length p < pay_off + 2 * 8 then Some (XDP_PASS, p, st)
       else do {
         p \<leftarrow> stamp_times p time time';
         Some (XDP_PASS, p, st)
       }
     }))"

definition reduce_no_t :: "('m, u32) map_ops \<Rightarrow> bytes \<Rightarrow> 'm reduce_maps \<Rightarrow> 'm reduce_maps xdp_result" where
  "reduce_no_t ops p st =
     with_udp p (XDP_PASS, p, st) (with_payload p (XDP_PASS, p, st) (\<lambda>n. do {
       red \<leftarrow> reduce_loop ops p n (rxred st);
       let st = st\<lparr>rxred := red\<rparr>;
       (reply, st) \<leftarrow> count_pkt ops st;
       if reply then do {
         p \<leftarrow> swap_hdrs p;
         Some (XDP_TX, p, st)
       }
       else Some (XDP_PASS, p, st)
     }))"

section \<open>One packet\<close>

definition red_at :: "('m, u32) map_ops \<Rightarrow> 'm reduce_maps \<Rightarrow> nat \<Rightarrow> u32" where
  "red_at ops st j = elem ops (rxred st) j"

definition reduce_wf :: "('m \<Rightarrow> nat) \<Rightarrow> 'm reduce_maps \<Rightarrow> bool" where
  "reduce_wf me st \<longleftrightarrow> me (rxred st) = DATA_NR \<and> me (rxpkt st) = 1"

context bpf_array
begin

lemma reduce_loop_in:
  assumes "1066 \<le> length p" "max_entries red = DATA_NR"
  shows "\<exists>red'. reduce_loop ops p 256 red = Some red' \<and> max_entries red' = DATA_NR \<and>
    (\<forall>j<256. elem ops red' j = elem ops red j + payload_word p j)"
proof -
  let ?f = "\<lambda>i. fetch_and_add ops (of_nat i) (payload_word p i)"
  have "reduce_loop ops p 256 red = Some (fold ?f [0..<256] red)"
    unfolding reduce_loop_def using assms(1)
    by (intro for_each_fold)
       (auto simp: rd32_payload fetch_and_add_def cell_add_def Let_def split: option.split)
  moreover have "elem ops (fold ?f [0..<256] red) j = elem ops red j + payload_word p j" if "j < 256" for j
    using that assms(2) by (simp add: elem_fold_add const_defs filter_key)
  ultimately show ?thesis
    using assms(2) by (simp add: max_fold_add)
qed

lemma reduce_job:
  assumes "reduce_wf max_entries st" "job_frame p"
  shows "\<exists>st'. reduce_wf max_entries st' \<and>
    (\<forall>j<256. red_at ops st' j = red_at ops st j + payload_word p j) \<and>
    pkt_count ops st' = pkt_count ops st + 1 \<and>
    reduce ops t0 t1 p st = Some
      (if notifies (pkt_count ops st') then (XDP_TX, swapped p, st') else (XDP_PASS, stamped p t0 t1, st')) \<and>
    reduce_no_t ops p st = Some
      (if notifies (pkt_count ops st') then (XDP_TX, swapped p, st') else (XDP_PASS, p, st'))"
proof -
  have len: "1066 \<le> length p"
    using assms(2) by (rule job_frame_length)
  obtain red' where red: "reduce_loop ops p 256 (rxred st) = Some red'" "max_entries red' = DATA_NR"
      "\<forall>j<256. elem ops red' j = elem ops (rxred st) j + payload_word p j"
    using reduce_loop_in [OF len, of "rxred st"] assms(1) by (auto simp: reduce_wf_def)
  define st1 where "st1 = st\<lparr>rxred := red'\<rparr>"
  have st1: "max_entries (rxpkt st1) = 1" "pkt_count ops st1 = pkt_count ops st" "rxred st1 = red'"
    using assms(1) by (simp_all add: st1_def reduce_wf_def pkt_count_def)
  obtain m where m: "count_pkt ops st1 = Some (notifies (pkt_count ops st1 + 1), st1\<lparr>rxpkt := m\<rparr>)"
      "max_entries m = max_entries (rxpkt st1)" "elem ops m 0 = pkt_count ops st1 + 1"
    using count_pkt_eq [of st1] st1(1) by auto
  show ?thesis
    using assms(2) len m st1 red
    by (intro exI [of _ "st1\<lparr>rxpkt := m\<rparr>"])
       (simp add: reduce_def reduce_no_t_def with_job_eq mem_simps
         reduce_wf_def red_at_def pkt_count_def flip: st1_def)
qed

lemma reduce_other:
  assumes "\<not> job_frame p"
  shows "reduce ops t0 t1 p st = Some (XDP_PASS, p, st)" "reduce_no_t ops p st = Some (XDP_PASS, p, st)"
  using assms by (simp_all add: reduce_def reduce_no_t_def with_job_eq)

end

definition red_contrib :: "bytes \<Rightarrow> nat \<Rightarrow> u32" where
  "red_contrib p j = (if job_frame p then payload_word p j else 0)"

sublocale bpf_array \<subseteq> red: accumulating_job
  "\<lambda>(t0, t1, p). reduce ops t0 t1 p" "reduce_wf max_entries" "pkt_count ops" "\<lambda>(t0, t1, p). job_frame p"
  "red_at ops" "\<lambda>(t0, t1, p). red_contrib p" "{..<256}"
proof (unfold_locales, goal_cases)
  case (1 st e)
  obtain t0 t1 p where e: "e = (t0, t1, p)" by (metis prod_cases3)
  show ?case
    using reduce_job [OF 1, of p t0 t1] reduce_other [of p] 1 by (cases "job_frame p") (auto simp: e)
next
  case (2 st e a q st' i)
  obtain t0 t1 p where e: "e = (t0, t1, p)" by (metis prod_cases3)
  show ?case
    using reduce_job [OF 2(1), of p t0 t1] reduce_other [of p] 2(2,3)
    by (cases "job_frame p") (auto simp: e red_contrib_def split: if_splits)
qed

sublocale bpf_array \<subseteq> red_no_t: accumulating_job
  "reduce_no_t ops" "reduce_wf max_entries" "pkt_count ops" job_frame "red_at ops" red_contrib "{..<256}"
proof (unfold_locales, goal_cases)
  case (1 st p)
  show ?case
    using reduce_job [OF 1, of p 0 0] reduce_other [of p] 1 by (cases "job_frame p") auto
next
  case (2 st p a q st' i)
  show ?case
    using reduce_job [OF 2(1), of p 0 0] reduce_other [of p] 2(2,3)
    by (cases "job_frame p") (auto simp: red_contrib_def split: if_splits)
qed

context bpf_array
begin

lemmas reduce_runs = red.run
lemmas reduce_no_t_runs = red_no_t.run

end

section \<open>Properties\<close>

text \<open>
  Over any run of packets \<open>reduce\<close> never fails, every one of the 256 elements of \<open>rxred\<close> ends as its
  start plus the sum, over the accepted packets, of the integer at its position, and one packet is sent back for
  every 1024 accepted ones.
\<close>

theorem reduce_run:
  assumes "bpf_array ops me" "me (rxred st) = DATA_NR" "me (rxpkt st) = 1"
  shows "\<exists>out st'. run_xdp (\<lambda>(t0, t1, p). reduce ops t0 t1 p) es st = Some (out, st') \<and>
    (\<forall>j<256. red_at ops st' j = red_at ops st j + (\<Sum>p\<leftarrow>jobs es. payload_word p j)) \<and>
    pkt_count ops st' = pkt_count ops st + of_nat (length (jobs es)) \<and>
    length (filter (\<lambda>r. fst r = XDP_TX) out) =
      (unat (pkt_count ops st) + length (jobs es)) div 1024 - unat (pkt_count ops st) div 1024"
proof -
  have wf: "reduce_wf me st"
    using assms by (simp add: reduce_wf_def)
  have sums: "(\<Sum>e\<leftarrow>es. (case e of (t0, t1, p) \<Rightarrow> red_contrib p) j) = (\<Sum>p\<leftarrow>jobs es. payload_word p j)" for j
    by (rule sum_timed) (simp add: red_contrib_def)
  show ?thesis
    using bpf_array.reduce_runs [OF assms(1) wf, of es] unfolding accepted_timed
    by (auto simp: sums)
qed

theorem reduce_run_witness:
  "\<exists>out st'. run_xdp (\<lambda>(t0, t1, p). reduce array_map t0 t1 p)
      [(5, 9, job_of (replicate 256 3)), (6, 8, job_of (replicate 256 4))]
      \<lparr>rxpkt = [0], rxred = replicate 256 1\<rparr> = Some (out, st') \<and> red_at array_map st' 255 = 8"
proof -
  let ?es = "[(5, 9, job_of (replicate 256 3)), (6, 8, job_of (replicate 256 4))]"
  let ?st = "\<lparr>rxpkt = [0], rxred = replicate 256 1\<rparr>"
  have "jobs ?es = [job_of (replicate 256 3), job_of (replicate 256 4)]"
    by (simp add: jobs_def job_frame_job)
  moreover have "red_at array_map ?st 255 = 1"
    by (simp add: red_at_def elem_def)
  ultimately show ?thesis
    using reduce_run [OF arr.bpf_array_axioms, of ?st ?es]
    by (auto simp: payload_word_job_of const_defs simp del: run_xdp.simps)
qed

text \<open>
  The timed and the untimed \<open>reduce\<close> do the same to the maps and send back the same packets.
\<close>

theorem reduce_variants_agree:
  assumes "bpf_array ops me" "me (rxred st) = DATA_NR" "me (rxpkt st) = 1"
  shows "\<exists>a q b r st'. reduce ops t0 t1 p st = Some (a, q, st') \<and> reduce_no_t ops p st = Some (b, r, st') \<and>
    a = b \<and> (a = XDP_TX \<longrightarrow> q = r)"
proof (cases "job_frame p")
  case True
  have "reduce_wf me st"
    using assms by (simp add: reduce_wf_def)
  then show ?thesis
    using bpf_array.reduce_job [OF assms(1) _ True, of st t0 t1] by auto
qed (simp add: bpf_array.reduce_other [OF assms(1)])

theorem reduce_variants_agree_witness:
  "\<exists>a q st'. reduce array_map 1 2 [] \<lparr>rxpkt = [0], rxred = replicate 256 1\<rparr> = Some (a, q, st')"
  using reduce_variants_agree [OF arr.bpf_array_axioms, of "\<lparr>rxpkt = [0], rxred = replicate 256 1\<rparr>" 1 2 "[]"]
  by (auto simp: const_defs)

end
