(* ===== verification/Xdp_Histogram.thy ===== *)
theory Xdp_Histogram
  imports Xdp_Steps
begin

text \<open>
  \<open>src/ebpf-xdp/histogram\<close> (\<open>histogram.c\<close>, \<open>histogram_no_t.c\<close>): a histogram of all accepted integers in an
  array map of \<open>HISTOG_NR\<close> bins.  A payload integer above \<open>HISTOG_NR\<close> or below 0 ends the invocation, with the
  bins already counted; the value \<open>HISTOG_NR\<close> itself passes the check and has no bin.
\<close>

definition HISTOG_NR :: nat where "HISTOG_NR = 1024"

record 'm histogram_maps = "'m counted" +
  rxhist :: 'm

section \<open>The handlers\<close>

definition histogram_loop :: "('m, u32) map_ops \<Rightarrow> bytes \<Rightarrow> nat \<Rightarrow> 'm \<Rightarrow> ('m + 'm) option" where
  "histogram_loop ops p n hist =
     for_each_ret (\<lambda>i hist. do {
       w \<leftarrow> rd32 p (pay_off + 4 * i);
       if sint w > int HISTOG_NR \<or> sint w < 0 then Some (Inl hist)
       else let key = w in
         Some (Inr (case lookup_elem ops hist key of None \<Rightarrow> hist | Some v \<Rightarrow> store_elem ops hist key (v + 1)))
     }) [0..<n] hist"

definition histogram :: "('m, u32) map_ops \<Rightarrow> u64 \<Rightarrow> u64 \<Rightarrow> bytes \<Rightarrow> 'm histogram_maps \<Rightarrow> 'm histogram_maps xdp_result" where
  "histogram ops time time' p st =
     with_udp p (XDP_PASS, p, st) (with_payload p (XDP_PASS, p, st) (\<lambda>n. do {
       r \<leftarrow> histogram_loop ops p n (rxhist st);
       case r of
         Inl hist \<Rightarrow> Some (XDP_PASS, p, st\<lparr>rxhist := hist\<rparr>)
       | Inr hist \<Rightarrow> do {
           let st = st\<lparr>rxhist := hist\<rparr>;
           (reply, st) \<leftarrow> count_pkt ops st;
           if reply then do {
             p \<leftarrow> swap_hdrs p;
             Some (XDP_TX, p, st)
           }
           else if length p < pay_off + 2 * 8 then Some (XDP_PASS, p, st)
           else do {
             p \<leftarrow> stamp_times p time time';
             p \<leftarrow> refresh_csum p;
             Some (XDP_PASS, p, st)
           }
         }
     }))"

definition histogram_no_t :: "('m, u32) map_ops \<Rightarrow> bytes \<Rightarrow> 'm histogram_maps \<Rightarrow> 'm histogram_maps xdp_result" where
  "histogram_no_t ops p st =
     with_udp p (XDP_PASS, p, st) (with_payload p (XDP_PASS, p, st) (\<lambda>n. do {
       r \<leftarrow> histogram_loop ops p n (rxhist st);
       case r of
         Inl hist \<Rightarrow> Some (XDP_PASS, p, st\<lparr>rxhist := hist\<rparr>)
       | Inr hist \<Rightarrow> do {
           let st = st\<lparr>rxhist := hist\<rparr>;
           (reply, st) \<leftarrow> count_pkt ops st;
           if reply then do {
             p \<leftarrow> swap_hdrs p;
             Some (XDP_TX, p, st)
           }
           else Some (XDP_PASS, p, st)
         }
     }))"

section \<open>One packet\<close>

definition in_range :: "u32 \<Rightarrow> bool" where
  "in_range w \<longleftrightarrow> 0 \<le> sint w \<and> sint w \<le> 1024"

definition payload_words :: "bytes \<Rightarrow> u32 list" where
  "payload_words p = map (payload_word p) [0..<256]"

text \<open>The integers that are counted: all up to the first one out of range.\<close>

definition counted_words :: "bytes \<Rightarrow> u32 list" where
  "counted_words p = takeWhile in_range (payload_words p)"

definition bin :: "('m, u32) map_ops \<Rightarrow> 'm histogram_maps \<Rightarrow> nat \<Rightarrow> u32" where
  "bin ops st j = elem ops (rxhist st) j"

definition histogram_wf :: "('m \<Rightarrow> nat) \<Rightarrow> 'm histogram_maps \<Rightarrow> bool" where
  "histogram_wf me st \<longleftrightarrow> me (rxhist st) = HISTOG_NR \<and> me (rxpkt st) = 1"

definition histogram_job :: "bytes \<Rightarrow> bool" where
  "histogram_job p \<longleftrightarrow> job_frame p \<and> (\<forall>w\<in>set (payload_words p). in_range w)"

lemma histogram_loop_words:
  assumes "\<And>i. i \<in> set is \<Longrightarrow> rd32 p (pay_off + 4 * i) = Some (f i)"
  shows "for_each_ret (\<lambda>i hist. do {
       w \<leftarrow> rd32 p (pay_off + 4 * i);
       if sint w > int HISTOG_NR \<or> sint w < 0 then Some (Inl hist)
       else let key = w in
         Some (Inr (case lookup_elem ops hist key of None \<Rightarrow> hist | Some v \<Rightarrow> store_elem ops hist key (v + 1)))
     }) is hist =
    Some (let h = fold (\<lambda>w. fetch_and_add ops w 1) (takeWhile in_range (map f is)) hist
      in if \<forall>i\<in>set is. in_range (f i) then Inr h else Inl h)"
  using assms
proof (induction "is" arbitrary: hist)
  case Nil
  then show ?case by simp
next
  case (Cons i "is")
  have test: "(sint (f i) > int HISTOG_NR \<or> sint (f i) < 0) = (\<not> in_range (f i))"
    by (auto simp: in_range_def HISTOG_NR_def)
  have step: "(case lookup_elem ops hist (f i) of None \<Rightarrow> hist | Some v \<Rightarrow> store_elem ops hist (f i) (v + 1)) =
      fetch_and_add ops (f i) 1 hist"
    by (simp add: fetch_and_add_def cell_add_def)
  show ?case
    using Cons by (simp add: test step Let_def)
qed

lemma count_list_sum: "(\<Sum>x\<leftarrow>filter (\<lambda>x. x = y) xs. 1) = (of_nat (count_list xs y) :: u32)"
  by (induction xs) auto

context bpf_array
begin

lemma histogram_loop_in:
  assumes "1066 \<le> length p" "max_entries hist = HISTOG_NR"
  shows "\<exists>h. histogram_loop ops p 256 hist =
      Some (if \<forall>w\<in>set (payload_words p). in_range w then Inr h else Inl h) \<and> max_entries h = HISTOG_NR \<and>
    (\<forall>j<1024. elem ops h j = elem ops hist j + of_nat (count_list (counted_words p) (of_nat j)))"
proof -
  let ?h = "fold (\<lambda>w. fetch_and_add ops w 1) (counted_words p) hist"
  have "histogram_loop ops p 256 hist = Some (if \<forall>w\<in>set (payload_words p). in_range w then Inr ?h else Inl ?h)"
    unfolding histogram_loop_def using assms(1)
    by (subst histogram_loop_words [where f = "payload_word p"])
       (simp_all add: rd32_payload counted_words_def payload_words_def Let_def)
  moreover have "elem ops ?h j = elem ops hist j + of_nat (count_list (counted_words p) (of_nat j))" if "j < 1024" for j
    using that assms(2) elem_fold_add [of j hist "\<lambda>w. w" "\<lambda>_. 1" "counted_words p"]
    by (simp add: HISTOG_NR_def count_list_sum)
  moreover have "max_entries ?h = HISTOG_NR"
    using assms(2) max_fold_add [of "\<lambda>w. w" "\<lambda>_. 1" "counted_words p"] by simp
  ultimately show ?thesis by blast
qed

text \<open>What one invocation does, by the case whether all integers are in range.\<close>

lemma histogram_step:
  assumes "histogram_wf max_entries st" "job_frame p"
  shows "\<exists>st'. histogram_wf max_entries st' \<and>
    (\<forall>j<1024. bin ops st' j = bin ops st j + of_nat (count_list (counted_words p) (of_nat j))) \<and>
    (if histogram_job p then pkt_count ops st' = pkt_count ops st + 1 \<and>
       histogram ops t0 t1 p st = Some
         (if notifies (pkt_count ops st') then (XDP_TX, swapped p, st')
          else (XDP_PASS, refreshed (stamped p t0 t1), st')) \<and>
       histogram_no_t ops p st = Some
         (if notifies (pkt_count ops st') then (XDP_TX, swapped p, st') else (XDP_PASS, p, st'))
     else pkt_count ops st' = pkt_count ops st \<and>
       histogram ops t0 t1 p st = Some (XDP_PASS, p, st') \<and> histogram_no_t ops p st = Some (XDP_PASS, p, st'))"
proof -
  have len: "1066 \<le> length p"
    using assms(2) by (rule job_frame_length)
  obtain h where h: "histogram_loop ops p 256 (rxhist st) =
      Some (if \<forall>w\<in>set (payload_words p). in_range w then Inr h else Inl h)" "max_entries h = HISTOG_NR"
      "\<forall>j<1024. elem ops h j = elem ops (rxhist st) j + of_nat (count_list (counted_words p) (of_nat j))"
    using histogram_loop_in [OF len, of "rxhist st"] assms(1) by (auto simp: histogram_wf_def)
  define st1 where "st1 = st\<lparr>rxhist := h\<rparr>"
  have st1: "max_entries (rxpkt st1) = 1" "pkt_count ops st1 = pkt_count ops st" "rxhist st1 = h"
    using assms(1) by (simp_all add: st1_def histogram_wf_def pkt_count_def)
  show ?thesis
  proof (cases "histogram_job p")
    case True
    obtain m where m: "count_pkt ops st1 = Some (notifies (pkt_count ops st1 + 1), st1\<lparr>rxpkt := m\<rparr>)"
        "max_entries m = max_entries (rxpkt st1)" "elem ops m 0 = pkt_count ops st1 + 1"
      using count_pkt_eq [of st1] st1(1) by auto
    have r: "histogram_loop ops p 256 (rxhist st) = Some (Inr h)"
      using True h(1) by (simp add: histogram_job_def)
    show ?thesis
      using True assms(2) len m st1 h(2,3)
      by (intro exI [of _ "st1\<lparr>rxpkt := m\<rparr>"])
         (simp add: histogram_def histogram_no_t_def with_job_eq mem_simps r
           histogram_wf_def bin_def pkt_count_def flip: st1_def)
  next
    case False
    then have r: "histogram_loop ops p 256 (rxhist st) = Some (Inl h)"
      using h(1) assms(2) by (auto simp: histogram_job_def)
    show ?thesis
      using False assms(2) st1 h(2,3)
      by (intro exI [of _ st1])
         (simp add: histogram_def histogram_no_t_def with_job_eq r histogram_wf_def bin_def flip: st1_def)
  qed
qed

lemma histogram_other:
  assumes "\<not> job_frame p"
  shows "histogram ops t0 t1 p st = Some (XDP_PASS, p, st)" "histogram_no_t ops p st = Some (XDP_PASS, p, st)"
  using assms by (simp_all add: histogram_def histogram_no_t_def with_job_eq)

end

definition bin_contrib :: "bytes \<Rightarrow> nat \<Rightarrow> u32" where
  "bin_contrib p j = (if job_frame p then of_nat (count_list (counted_words p) (of_nat j)) else 0)"

sublocale bpf_array \<subseteq> hist: accumulating_job
  "\<lambda>(t0, t1, p). histogram ops t0 t1 p" "histogram_wf max_entries" "pkt_count ops"
  "\<lambda>(t0, t1, p). histogram_job p" "bin ops" "\<lambda>(t0, t1, p). bin_contrib p" "{..<1024}"
proof (unfold_locales, goal_cases)
  case (1 st e)
  obtain t0 t1 p where e: "e = (t0, t1, p)" by (metis prod_cases3)
  show ?case
  proof (cases "job_frame p")
    case True
    then show ?thesis
      using histogram_step [OF 1 True, of t0 t1] by (cases "histogram_job p") (auto simp: e)
  qed (use 1 histogram_other [of p] in \<open>auto simp: e histogram_job_def\<close>)
next
  case (2 st e a q st' i)
  obtain t0 t1 p where e: "e = (t0, t1, p)" by (metis prod_cases3)
  show ?case
  proof (cases "job_frame p")
    case True
    then show ?thesis
      using histogram_step [OF 2(1) True, of t0 t1] 2(2,3)
      by (cases "histogram_job p") (auto simp: e bin_contrib_def split: if_splits)
  qed (use 2 histogram_other [of p] in \<open>auto simp: e bin_contrib_def\<close>)
qed

sublocale bpf_array \<subseteq> hist_no_t: accumulating_job
  "histogram_no_t ops" "histogram_wf max_entries" "pkt_count ops" histogram_job "bin ops" bin_contrib "{..<1024}"
proof (unfold_locales, goal_cases)
  case (1 st p)
  show ?case
  proof (cases "job_frame p")
    case True
    then show ?thesis
      using histogram_step [OF 1 True, of 0 0] by (cases "histogram_job p") auto
  qed (use 1 histogram_other [of p] in \<open>auto simp: histogram_job_def\<close>)
next
  case (2 st p a q st' i)
  show ?case
  proof (cases "job_frame p")
    case True
    then show ?thesis
      using histogram_step [OF 2(1) True, of 0 0] 2(2,3)
      by (cases "histogram_job p") (auto simp: bin_contrib_def split: if_splits)
  qed (use 2 histogram_other [of p] in \<open>auto simp: bin_contrib_def\<close>)
qed

context bpf_array
begin

lemmas histogram_runs = hist.run
lemmas histogram_no_t_runs = hist_no_t.run

end

section \<open>Properties\<close>

text \<open>
  C30: over any run of packets \<open>histogram\<close> never fails; each of the 1024 bins grows by the number of payload
  integers of its value that come, in their frame, before the first integer out of range; only frames
  with all 256 integers in range are counted in \<open>rxpkt\<close>, and one packet is sent back for every 1024 of them.
\<close>

theorem histogram_run:
  assumes "bpf_array ops me" "me (rxhist st) = HISTOG_NR" "me (rxpkt st) = 1"
  shows "\<exists>out st'. run_xdp (\<lambda>(t0, t1, p). histogram ops t0 t1 p) es st = Some (out, st') \<and>
    (\<forall>j<1024. bin ops st' j =
       bin ops st j + (\<Sum>p\<leftarrow>jobs es. of_nat (count_list (counted_words p) (of_nat j)))) \<and>
    (let n = accepted (\<lambda>(t0, t1, p). histogram_job p) es in
     pkt_count ops st' = pkt_count ops st + of_nat n \<and>
     length (filter (\<lambda>r. fst r = XDP_TX) out) =
       (unat (pkt_count ops st) + n) div 1024 - unat (pkt_count ops st) div 1024)"
proof -
  have wf: "histogram_wf me st"
    using assms by (simp add: histogram_wf_def)
  have sums: "(\<Sum>e\<leftarrow>es. (case e of (t0, t1, p) \<Rightarrow> bin_contrib p) j) =
      (\<Sum>p\<leftarrow>jobs es. of_nat (count_list (counted_words p) (of_nat j)))" for j
    by (rule sum_timed) (simp add: bin_contrib_def)
  show ?thesis
    using bpf_array.histogram_runs [OF assms(1) wf, of es]
    by (auto simp: sums Let_def)
qed

text \<open>The words of a constructed frame are the given ones.\<close>

lemma payload_words_job_of: "length ws = 256 \<Longrightarrow> payload_words (job_of ws) = ws"
  by (rule nth_equalityI) (auto simp: payload_words_def payload_word_job_of)

theorem histogram_run_witness:
  "\<exists>out st'. run_xdp (\<lambda>(t0, t1, p). histogram array_map t0 t1 p)
      [(5, 9, job_of (replicate 256 7)), (6, 8, job_of (replicate 2 7 @ replicate 254 2000))]
      \<lparr>rxpkt = [0], rxhist = replicate 1024 0\<rparr> = Some (out, st') \<and>
    bin array_map st' 7 = 258 \<and> pkt_count array_map st' = 1"
proof -
  let ?p = "job_of (replicate 256 7)" and ?q = "job_of (replicate 2 7 @ replicate 254 2000)"
  let ?es = "[(5, 9, ?p), (6, 8, ?q)] :: timed list"
  let ?st = "\<lparr>rxpkt = [0], rxhist = replicate 1024 0\<rparr>"
  have range: "in_range 7" "\<not> in_range 2000"
    by (simp_all add: in_range_def)
  have words: "payload_words ?p = replicate 256 7" "payload_words ?q = replicate 2 7 @ replicate 254 2000"
    by (rule payload_words_job_of, simp)+
  have frames: "job_frame ?p" "job_frame ?q"
    by (rule job_frame_job, simp)+
  have counts: "counted_words ?p = replicate 256 7" "counted_words ?q = replicate 2 7"
    by (simp_all add: counted_words_def words range takeWhile_append takeWhile_replicate)
  have "jobs ?es = [?p, ?q]" "accepted (\<lambda>(t0, t1, p). histogram_job p) ?es = 1"
    by (simp_all add: jobs_def accepted_def histogram_job_def frames words range)
  moreover have "bin array_map ?st 7 = 0" "pkt_count array_map ?st = 0"
    by (simp_all add: bin_def elem_def pkt_count_def)
  moreover have "count_list (replicate n x) x = n" for n and x :: u32
    by (induction n) auto
  ultimately show ?thesis
    using histogram_run [OF arr.bpf_array_axioms, of ?st ?es]
    by (auto simp: HISTOG_NR_def counts Let_def simp del: run_xdp.simps)
qed

text \<open>
  The untimed \<open>histogram\<close> keeps the same histogram and the same count: both variants leave equal
  maps, and agree on which packets are sent back and on their contents.
\<close>

theorem histogram_variants_agree:
  assumes "bpf_array ops me" "me (rxhist st) = HISTOG_NR" "me (rxpkt st) = 1"
  shows "\<exists>a q b r st'. histogram ops t0 t1 p st = Some (a, q, st') \<and> histogram_no_t ops p st = Some (b, r, st') \<and>
    a = b \<and> (a = XDP_TX \<longrightarrow> q = r)"
proof (cases "job_frame p")
  case True
  have "histogram_wf me st"
    using assms by (simp add: histogram_wf_def)
  then show ?thesis
    using bpf_array.histogram_step [OF assms(1) _ True, of st t0 t1]
    by (cases "histogram_job p") auto
qed (simp add: bpf_array.histogram_other [OF assms(1)])

theorem histogram_variants_agree_witness:
  "\<exists>a q st'. histogram array_map 1 2 [] \<lparr>rxpkt = [0], rxhist = replicate 1024 1\<rparr> = Some (a, q, st')"
  using histogram_variants_agree [OF arr.bpf_array_axioms, of "\<lparr>rxpkt = [0], rxhist = replicate 1024 1\<rparr>" 1 2 "[]"]
  by (auto simp: HISTOG_NR_def)

end
