(* ===== verification/Xdp_Copy.thy ===== *)
theory Xdp_Copy
  imports Xdp_Steps
begin

text \<open>
  \<open>src/ebpf-xdp/copy_to_host\<close> and \<open>src/ebpf-xdp/copy_from_host\<close>, with and without timestamps: the payload of a
  packet is written to the array map \<open>rxcptoh\<close> that the host reads, or filled from the one that the host writes.
\<close>

record 'm copy_maps = "'m counted" +
  rxcptoh :: 'm

section \<open>Copy to the host\<close>

definition copy_in_loop :: "('m, u32) map_ops \<Rightarrow> bytes \<Rightarrow> nat \<Rightarrow> 'm \<Rightarrow> 'm option" where
  "copy_in_loop ops p n cp =
     for_each (\<lambda>i cp. do { w \<leftarrow> rd32 p (pay_off + 4 * i); Some (update_elem ops cp (of_nat i) w) }) [0..<n] cp"

definition copy_to_host :: "('m, u32) map_ops \<Rightarrow> u64 \<Rightarrow> u64 \<Rightarrow> bytes \<Rightarrow> 'm copy_maps \<Rightarrow> 'm copy_maps xdp_result" where
  "copy_to_host ops time time' p st =
     with_udp p (XDP_PASS, p, st) (with_payload p (XDP_PASS, p, st) (\<lambda>n. do {
       cp \<leftarrow> copy_in_loop ops p n (rxcptoh st);
       let st = st\<lparr>rxcptoh := cp\<rparr>;
       (reply, st) \<leftarrow> count_pkt ops st;
       if reply then do {
         p \<leftarrow> swap_hdrs p;
         Some (XDP_TX, p, st)
       }
       else if length p < pay_off + 2 * 8 then Some (XDP_PASS, p, st)
       else do {
         p \<leftarrow> stamp_times p time time';
         p \<leftarrow> refresh_csum p;
         Some (XDP_PASS, p, st)
       }
     }))"

definition copy_to_host_no_t :: "('m, u32) map_ops \<Rightarrow> bytes \<Rightarrow> 'm copy_maps \<Rightarrow> 'm copy_maps xdp_result" where
  "copy_to_host_no_t ops p st =
     with_udp p (XDP_PASS, p, st) (with_payload p (XDP_PASS, p, st) (\<lambda>n. do {
       cp \<leftarrow> copy_in_loop ops p n (rxcptoh st);
       let st = st\<lparr>rxcptoh := cp\<rparr>;
       (reply, st) \<leftarrow> count_pkt ops st;
       if reply then do {
         p \<leftarrow> swap_hdrs p;
         Some (XDP_TX, p, st)
       }
       else Some (XDP_PASS, p, st)
     }))"

section \<open>Copy from the host\<close>

definition copy_out_loop :: "('m, u32) map_ops \<Rightarrow> 'm \<Rightarrow> nat \<Rightarrow> bytes \<Rightarrow> bytes option" where
  "copy_out_loop ops cp n p =
     for_each (\<lambda>i p. case lookup_elem ops cp (of_nat i) of
         None \<Rightarrow> Some p
       | Some v \<Rightarrow> wr32 p (pay_off + 4 * i) v) [0..<n] p"

definition copy_from_host :: "('m, u32) map_ops \<Rightarrow> u64 \<Rightarrow> u64 \<Rightarrow> bytes \<Rightarrow> 'm copy_maps \<Rightarrow> 'm copy_maps xdp_result" where
  "copy_from_host ops time time' p st =
     with_udp p (XDP_PASS, p, st) (with_payload p (XDP_PASS, p, st) (\<lambda>n. do {
       p \<leftarrow> copy_out_loop ops (rxcptoh st) n p;
       (reply, st) \<leftarrow> count_pkt ops st;
       if reply then do {
         p \<leftarrow> swap_hdrs p;
         p \<leftarrow> refresh_csum p;
         Some (XDP_TX, p, st)
       }
       else if length p < pay_off + 2 * 8 then Some (XDP_PASS, p, st)
       else do {
         p \<leftarrow> stamp_times p time time';
         p \<leftarrow> refresh_csum p;
         Some (XDP_PASS, p, st)
       }
     }))"

definition copy_from_host_no_t :: "('m, u32) map_ops \<Rightarrow> bytes \<Rightarrow> 'm copy_maps \<Rightarrow> 'm copy_maps xdp_result" where
  "copy_from_host_no_t ops p st =
     with_udp p (XDP_PASS, p, st) (with_payload p (XDP_PASS, p, st) (\<lambda>n. do {
       p \<leftarrow> copy_out_loop ops (rxcptoh st) n p;
       (reply, st) \<leftarrow> count_pkt ops st;
       if reply then do {
         p \<leftarrow> swap_hdrs p;
         p \<leftarrow> refresh_csum p;
         Some (XDP_TX, p, st)
       }
       else Some (XDP_PASS, p, st)
     }))"

section \<open>The copied words\<close>

definition host_word :: "('m, u32) map_ops \<Rightarrow> 'm copy_maps \<Rightarrow> nat \<Rightarrow> u32" where
  "host_word ops st j = elem ops (rxcptoh st) j"

definition copy_wf :: "('m \<Rightarrow> nat) \<Rightarrow> 'm copy_maps \<Rightarrow> bool" where
  "copy_wf me st \<longleftrightarrow> me (rxcptoh st) = DATA_NR \<and> me (rxpkt st) = 1"

text \<open>The frame with its first \<open>n\<close> payload words replaced.\<close>

definition filled :: "(nat \<Rightarrow> u32) \<Rightarrow> nat \<Rightarrow> bytes \<Rightarrow> bytes" where
  "filled f n p = fold (\<lambda>i p. put32 p (42 + 4 * i) (f i)) [0..<n] p"

lemma filled_Suc: "filled f (Suc n) p = put32 (filled f n p) (42 + 4 * n) (f n)"
  by (simp add: filled_def)

lemma length_filled [mem_simps]: "42 + 4 * n \<le> length p \<Longrightarrow> length (filled f n p) = length p"
  by (induction n) (simp_all add: filled_Suc mem_simps filled_def)

lemma payload_word_filled:
  "j < n \<Longrightarrow> 42 + 4 * n \<le> length p \<Longrightarrow> payload_word (filled f n p) j = f j"
proof (induction n)
  case 0
  then show ?case by simp
next
  case (Suc n)
  then show ?case
    by (cases "j = n") (auto simp: filled_Suc payload_word_def mem_simps)
qed

lemma get_bytes_filled [mem_simps]:
  "42 + 4 * n \<le> length p \<Longrightarrow> off + k \<le> 42 \<Longrightarrow> get_bytes (filled f n p) off k = get_bytes p off k"
  by (induction n) (simp_all add: filled_Suc mem_simps, simp add: filled_def)

lemma copy_out_loop_eq:
  assumes "\<And>i. i < n \<Longrightarrow> lookup_elem ops cp (of_nat i) = Some (f i)" "42 + 4 * n \<le> length p"
  shows "copy_out_loop ops cp n p = Some (filled f n p)"
  using assms
proof (induction n)
  case 0
  then show ?case by (simp add: copy_out_loop_def filled_def)
next
  case (Suc n)
  then have "copy_out_loop ops cp n p = Some (filled f n p)"
    by simp
  then show ?case
    using Suc.prems by (simp add: copy_out_loop_def for_each_append filled_Suc mem_simps)
qed

context bpf_array
begin

lemma copy_in_loop_in:
  assumes "1066 \<le> length p" "max_entries cp = DATA_NR"
  shows "\<exists>cp'. copy_in_loop ops p 256 cp = Some cp' \<and> max_entries cp' = DATA_NR \<and>
    (\<forall>j<256. elem ops cp' j = payload_word p j)"
proof -
  define g where "g k = payload_word p (unat k)" for k :: u32
  let ?m = "fold (\<lambda>i m. update_elem ops m (of_nat i) (payload_word p i)) [0..<256] cp"
  have keys: "?m = fold (\<lambda>k m. update_elem ops m k (g k)) (map of_nat [0..<256]) cp"
    unfolding fold_map comp_def by (rule fold_cong) (auto simp: g_def unat_of_nat)
  have "lookup_elem ops ?m (of_nat j) = Some (payload_word p j)" if "j < 256" for j
  proof -
    have "set (map of_nat [0..<256]) \<subseteq> dom (lookup_elem ops cp)"
      using assms(2) by (auto simp: dom_lookup const_defs unat_of_nat)
    moreover have "distinct (map of_nat [0..<256] :: u32 list)"
      by (auto simp: distinct_map intro!: inj_onI simp: word_of_nat_eq_iff take_bit_nat_eq_self)
    moreover have "(of_nat j :: u32) \<in> of_nat ` {0..<256}" "unat (of_nat j :: u32) = j"
      using that by (auto simp: unat_of_nat)
    ultimately show ?thesis
      unfolding keys by (subst upd.get_fold_put) (simp_all add: g_def)
  qed
  moreover have "copy_in_loop ops p 256 cp = Some ?m"
    unfolding copy_in_loop_def using assms(1) by (intro for_each_fold) (simp add: rd32_payload)
  ultimately show ?thesis
    using assms(2) by (simp add: elem_def max_fold_update)
qed

lemma copy_to_job:
  assumes "copy_wf max_entries st" "job_frame p"
  shows "\<exists>st'. copy_wf max_entries st' \<and> (\<forall>j<256. host_word ops st' j = payload_word p j) \<and>
    pkt_count ops st' = pkt_count ops st + 1 \<and>
    copy_to_host ops t0 t1 p st = Some
      (if notifies (pkt_count ops st') then (XDP_TX, swapped p, st')
       else (XDP_PASS, refreshed (stamped p t0 t1), st')) \<and>
    copy_to_host_no_t ops p st = Some
      (if notifies (pkt_count ops st') then (XDP_TX, swapped p, st') else (XDP_PASS, p, st'))"
proof -
  have len: "1066 \<le> length p"
    using assms(2) by (rule job_frame_length)
  obtain cp' where cp: "copy_in_loop ops p 256 (rxcptoh st) = Some cp'" "max_entries cp' = DATA_NR"
      "\<forall>j<256. elem ops cp' j = payload_word p j"
    using copy_in_loop_in [OF len, of "rxcptoh st"] assms(1) by (auto simp: copy_wf_def)
  define st1 where "st1 = st\<lparr>rxcptoh := cp'\<rparr>"
  have st1: "max_entries (rxpkt st1) = 1" "pkt_count ops st1 = pkt_count ops st" "rxcptoh st1 = cp'"
    using assms(1) by (simp_all add: st1_def copy_wf_def pkt_count_def)
  obtain m where m: "count_pkt ops st1 = Some (notifies (pkt_count ops st1 + 1), st1\<lparr>rxpkt := m\<rparr>)"
      "max_entries m = max_entries (rxpkt st1)" "elem ops m 0 = pkt_count ops st1 + 1"
    using count_pkt_eq [of st1] st1(1) by auto
  show ?thesis
    using assms(2) len m st1 cp
    by (intro exI [of _ "st1\<lparr>rxpkt := m\<rparr>"])
       (simp add: copy_to_host_def copy_to_host_no_t_def with_job_eq mem_simps
         copy_wf_def host_word_def pkt_count_def flip: st1_def)
qed

lemma copy_from_job:
  assumes "copy_wf max_entries st" "job_frame p"
  shows "\<exists>st'. copy_wf max_entries st' \<and> rxcptoh st' = rxcptoh st \<and>
    pkt_count ops st' = pkt_count ops st + 1 \<and>
    (let q = filled (host_word ops st) 256 p in
    copy_from_host ops t0 t1 p st = Some
      (if notifies (pkt_count ops st') then (XDP_TX, refreshed (swapped q), st')
       else (XDP_PASS, refreshed (stamped q t0 t1), st')) \<and>
    copy_from_host_no_t ops p st = Some
      (if notifies (pkt_count ops st') then (XDP_TX, refreshed (swapped q), st') else (XDP_PASS, q, st')))"
proof -
  have len: "1066 \<le> length p"
    using assms(2) by (rule job_frame_length)
  have out: "copy_out_loop ops (rxcptoh st) 256 p = Some (filled (host_word ops st) 256 p)"
    using assms(1) len
    by (intro copy_out_loop_eq) (simp_all add: host_word_def copy_wf_def const_defs lookup_elem_of_nat)
  obtain m where m: "count_pkt ops st = Some (notifies (pkt_count ops st + 1), st\<lparr>rxpkt := m\<rparr>)"
      "max_entries m = max_entries (rxpkt st)" "elem ops m 0 = pkt_count ops st + 1"
    using count_pkt_eq [of st] assms(1) by (auto simp: copy_wf_def)
  have lens: "58 \<le> length (filled (host_word ops st) 256 p)"
    using len by (simp add: mem_simps)
  show ?thesis
    using assms len m lens
    by (intro exI [of _ "st\<lparr>rxpkt := m\<rparr>"])
       (simp add: copy_from_host_def copy_from_host_no_t_def with_job_eq mem_simps out
         copy_wf_def pkt_count_def Let_def)
qed

lemma copy_other:
  assumes "\<not> job_frame p"
  shows "copy_to_host ops t0 t1 p st = Some (XDP_PASS, p, st)" "copy_to_host_no_t ops p st = Some (XDP_PASS, p, st)"
    "copy_from_host ops t0 t1 p st = Some (XDP_PASS, p, st)" "copy_from_host_no_t ops p st = Some (XDP_PASS, p, st)"
  using assms
  by (simp_all add: copy_to_host_def copy_to_host_no_t_def copy_from_host_def copy_from_host_no_t_def with_job_eq)

end

sublocale bpf_array \<subseteq> copy_to: counted_job
  "\<lambda>(t0, t1, p). copy_to_host ops t0 t1 p" "copy_wf max_entries" "pkt_count ops" "\<lambda>(t0, t1, p). job_frame p"
proof (unfold_locales, goal_cases)
  case (1 st e)
  obtain t0 t1 p where e: "e = (t0, t1, p)" by (metis prod_cases3)
  show ?case
    using copy_to_job [OF 1, of p t0 t1] copy_other [of p] 1 by (cases "job_frame p") (auto simp: e)
qed

sublocale bpf_array \<subseteq> copy_from: accumulating_job
  "\<lambda>(t0, t1, p). copy_from_host ops t0 t1 p" "copy_wf max_entries" "pkt_count ops" "\<lambda>(t0, t1, p). job_frame p"
  "host_word ops" "\<lambda>_ _. 0" UNIV
proof (unfold_locales, goal_cases)
  case (1 st e)
  obtain t0 t1 p where e: "e = (t0, t1, p)" by (metis prod_cases3)
  show ?case
    using copy_from_job [OF 1, of p t0 t1] copy_other [of p] 1
    by (cases "job_frame p") (auto simp: e Let_def)
next
  case (2 st e a q st' i)
  obtain t0 t1 p where e: "e = (t0, t1, p)" by (metis prod_cases3)
  show ?case
    using copy_from_job [OF 2(1), of p t0 t1] copy_other [of p] 2(2)
    by (cases "job_frame p") (auto simp: e Let_def host_word_def split: if_splits)
qed

context bpf_array
begin

lemmas copy_to_runs = copy_to.replies
lemmas copy_from_runs = copy_from.run

text \<open>Frames that are not jobs leave the map alone, so the last job decides what the host sees.\<close>

lemma copy_to_last:
  assumes "copy_wf max_entries st" "run_xdp (\<lambda>(t0, t1, p). copy_to_host ops t0 t1 p) es st = Some (out, st')"
  shows "\<forall>j<256. host_word ops st' j = (if jobs es = [] then host_word ops st j else payload_word (last (jobs es)) j)"
  using assms
proof (induction es arbitrary: st out)
  case Nil
  then show ?case by (simp add: jobs_def)
next
  case (Cons e es)
  obtain t0 t1 p where e: "e = (t0, t1, p)" by (metis prod_cases3)
  obtain a q st1 where h: "copy_to_host ops t0 t1 p st = Some (a, q, st1)" "copy_wf max_entries st1"
      "\<forall>j<256. host_word ops st1 j = (if job_frame p then payload_word p j else host_word ops st j)"
    using copy_to_job [OF Cons.prems(1), of p t0 t1] copy_other [of p] Cons.prems(1)
    by (cases "job_frame p"; cases "notifies (pkt_count ops st + 1)") auto
  from h(1) Cons.prems(2) obtain out' where
      "run_xdp (\<lambda>(t0, t1, p). copy_to_host ops t0 t1 p) es st1 = Some (out', st')"
    by (auto simp: e split: Option.bind_splits)
  from Cons.IH [OF h(2) this] h(3) show ?case
    by (auto simp: jobs_def e)
qed

end

section \<open>Properties\<close>

text \<open>
  After any run of packets the host finds in \<open>rxcptoh\<close> the 256 integers of the last accepted frame (its own
  values if there was none), and one packet per 1024 accepted ones was sent back.
\<close>

theorem copy_to_host_run:
  assumes "bpf_array ops me" "me (rxcptoh st) = DATA_NR" "me (rxpkt st) = 1"
  shows "\<exists>out st'. run_xdp (\<lambda>(t0, t1, p). copy_to_host ops t0 t1 p) es st = Some (out, st') \<and>
    (\<forall>j<256. host_word ops st' j = (if jobs es = [] then host_word ops st j else payload_word (last (jobs es)) j)) \<and>
    length (filter (\<lambda>r. fst r = XDP_TX) out) =
      (unat (pkt_count ops st) + length (jobs es)) div 1024 - unat (pkt_count ops st) div 1024"
proof -
  have wf: "copy_wf me st"
    using assms by (simp add: copy_wf_def)
  obtain out st' where r: "run_xdp (\<lambda>(t0, t1, p). copy_to_host ops t0 t1 p) es st = Some (out, st')"
      "length (filter (\<lambda>r. fst r = XDP_TX) out) =
        (unat (pkt_count ops st) + length (jobs es)) div 1024 - unat (pkt_count ops st) div 1024"
    using bpf_array.copy_to_runs [OF assms(1) wf, of es] unfolding accepted_timed by blast
  with bpf_array.copy_to_last [OF assms(1) wf r(1)] show ?thesis by blast
qed

theorem copy_to_host_run_witness:
  "\<exists>out st'. run_xdp (\<lambda>(t0, t1, p). copy_to_host array_map t0 t1 p)
      [(5, 9, job_of (replicate 256 3)), (6, 8, job_of (replicate 256 4)), (7, 7, [])]
      \<lparr>rxpkt = [0], rxcptoh = replicate 256 1\<rparr> = Some (out, st') \<and> host_word array_map st' 100 = 4"
proof -
  let ?es = "[(5, 9, job_of (replicate 256 3)), (6, 8, job_of (replicate 256 4)), (7, 7, [])] :: timed list"
  have "jobs ?es = [job_of (replicate 256 3), job_of (replicate 256 4)]"
    by (simp add: jobs_def job_frame_job) (simp add: job_frame_def)
  then show ?thesis
    using copy_to_host_run [OF arr.bpf_array_axioms, of "\<lparr>rxpkt = [0], rxcptoh = replicate 256 1\<rparr>" ?es]
    by (auto simp: payload_word_job_of const_defs simp del: run_xdp.simps)
qed

text \<open>
  C35: what \<open>copy_to_host\<close> stored comes back through \<open>copy_from_host\<close>: on the map left by a first frame, the
  second program fills the payload of any accepted frame with the first frame's integers; sent
  back it carries all 256 of them, passed on all but the first four, which hold the two times.
\<close>

theorem copy_roundtrip:
  assumes "bpf_array ops me" "me (rxcptoh st) = DATA_NR" "me (rxpkt st) = 1" "job_frame p" "job_frame q"
  shows "\<exists>a p' st1 b q' st2. copy_to_host ops t0 t1 p st = Some (a, p', st1) \<and>
    copy_from_host ops u0 u1 q st1 = Some (b, q', st2) \<and> length q' = length q \<and>
    (\<forall>j<256. b = XDP_TX \<or> 4 \<le> j \<longrightarrow> payload_word q' j = payload_word p j) \<and>
    (b = XDP_PASS \<longrightarrow> le64 q' 42 = u0 \<and> le64 q' 50 = u1)"
proof -
  have wf: "copy_wf me st"
    using assms by (simp add: copy_wf_def)
  obtain a p' st1 where 1: "copy_to_host ops t0 t1 p st = Some (a, p', st1)" "copy_wf me st1"
      "\<forall>j<256. host_word ops st1 j = payload_word p j"
    using bpf_array.copy_to_job [OF assms(1) wf assms(4), of t0 t1]
    by (cases "notifies (pkt_count ops st + 1)") auto
  let ?f = "filled (host_word ops st1) 256 q"
  have len: "1066 \<le> length q" "length ?f = length q"
    using assms(5) job_frame_length [of q] by (simp_all add: mem_simps)
  have words: "j < 256 \<Longrightarrow> payload_word ?f j = payload_word p j" for j
    using len(1) 1(3) by (simp add: payload_word_filled)
  obtain b q' st2 where 2: "copy_from_host ops u0 u1 q st1 = Some (b, q', st2)"
      "b = XDP_TX \<and> q' = refreshed (swapped ?f) \<or> b = XDP_PASS \<and> q' = refreshed (stamped ?f u0 u1)"
    using bpf_array.copy_from_job [OF assms(1) 1(2) assms(5), of u0 u1]
    by (auto simp: Let_def split: if_splits)
  have "j < 256 \<Longrightarrow> b = XDP_TX \<or> 4 \<le> j \<Longrightarrow> payload_word q' j = payload_word ?f j" for j
    using 2(2) len by (auto simp: payload_word_def mem_simps)
  moreover have "b = XDP_PASS \<Longrightarrow> le64 q' 42 = u0 \<and> le64 q' 50 = u1"
    using 2(2) len by (auto simp: mem_simps stamped_times)
  moreover have "length q' = length q"
    using 2(2) len by (auto simp: mem_simps)
  ultimately show ?thesis
    using 1(1) 2(1) words by auto
qed

theorem copy_roundtrip_witness:
  "\<exists>a p' st1 b q' st2.
     copy_to_host array_map 1 2 (job_of (replicate 256 3)) \<lparr>rxpkt = [0], rxcptoh = replicate 256 1\<rparr> = Some (a, p', st1) \<and>
     copy_from_host array_map 5 6 (job_of (replicate 256 4)) st1 = Some (b, q', st2) \<and> payload_word q' 200 = 3"
  using copy_roundtrip [OF arr.bpf_array_axioms, of "\<lparr>rxpkt = [0], rxcptoh = replicate 256 1\<rparr>"
      "job_of (replicate 256 3)" "job_of (replicate 256 4)" 1 2 5 6]
  by (fastforce simp: job_frame_job const_defs payload_word_job_of)

end
