(* ===== verification/Xdp_Filter.thy ===== *)
theory Xdp_Filter
  imports Xdp_Steps
begin

text \<open>
  \<open>src/ebpf-xdp/filter\<close>: the XDP program with and without timestamps, and the functions of
  \<open>filter_loader.c\<close> that fill its hash map.  The lookup key is \<open>ntohs(ip->daddr)\<close>: \<open>ntohs\<close> takes a 16-bit argument,
  so only the first two octets of the address are used.  On a match the loop looks into \<open>rxfilter\<close> but updates
  \<open>hmfilter\<close>, whose values are 16 bits wide; the element of \<open>rxfilter\<close> is only tested for null.
\<close>

definition HASH_ENTRIES :: nat where "HASH_ENTRIES = 65536"

record ('m, 'h) filter_maps = "'m counted" +
  rxfilter :: 'm
  hmfilter :: 'h

section \<open>The handlers\<close>

definition filter_key :: "u32 \<Rightarrow> u32" where
  "filter_key daddr = ucast (ntohs (ucast daddr))"

definition filter_loop :: "('m, u32) map_ops \<Rightarrow> ('h, u16) map_ops \<Rightarrow> bytes \<Rightarrow> nat \<Rightarrow> 'm \<Rightarrow> 'h \<Rightarrow> 'h option" where
  "filter_loop ops hops p n rxf hm =
     for_each (\<lambda>i hm. let key = of_nat i in
       case lookup_elem ops rxf key of
         None \<Rightarrow> Some hm
       | Some _ \<Rightarrow> do { v \<leftarrow> rd16 p (pay_off + 4 * i); Some (update_elem hops hm key v) }) [0..<n] hm"

text \<open>The timed variant does not recompute the checksum after it writes the times.\<close>

definition filter_xdp :: "('m, u32) map_ops \<Rightarrow> ('h, u16) map_ops \<Rightarrow> u64 \<Rightarrow> u64 \<Rightarrow> bytes \<Rightarrow>
    ('m, 'h) filter_maps \<Rightarrow> ('m, 'h) filter_maps xdp_result" where
  "filter_xdp ops hops time time' p st =
     with_udp p (XDP_PASS, p, st) (with_payload p (XDP_PASS, p, st) (\<lambda>n. do {
       daddr \<leftarrow> rd32 p (ip_off + 16);
       hm \<leftarrow> (case lookup_elem hops (hmfilter st) (filter_key daddr) of
           None \<Rightarrow> Some (hmfilter st)
         | Some _ \<Rightarrow> filter_loop ops hops p n (rxfilter st) (hmfilter st));
       let st = st\<lparr>hmfilter := hm\<rparr>;
       (reply, st) \<leftarrow> count_pkt ops st;
       if reply then do {
         p \<leftarrow> swap_hdrs p;
         Some (XDP_TX, p, st)
       }
       else if length p < pay_off + 2 * 8 then Some (XDP_PASS, p, st)
       else do {
         p \<leftarrow> stamp_times p time time';
         Some (XDP_PASS, p, st)
       }
     }))"

definition filter_no_t :: "('m, u32) map_ops \<Rightarrow> ('h, u16) map_ops \<Rightarrow> bytes \<Rightarrow>
    ('m, 'h) filter_maps \<Rightarrow> ('m, 'h) filter_maps xdp_result" where
  "filter_no_t ops hops p st =
     with_udp p (XDP_PASS, p, st) (with_payload p (XDP_PASS, p, st) (\<lambda>n. do {
       daddr \<leftarrow> rd32 p (ip_off + 16);
       hm \<leftarrow> (case lookup_elem hops (hmfilter st) (filter_key daddr) of
           None \<Rightarrow> Some (hmfilter st)
         | Some _ \<Rightarrow> filter_loop ops hops p n (rxfilter st) (hmfilter st));
       let st = st\<lparr>hmfilter := hm\<rparr>;
       (reply, st) \<leftarrow> count_pkt ops st;
       if reply then do {
         p \<leftarrow> swap_hdrs p;
         Some (XDP_TX, p, st)
       }
       else Some (XDP_PASS, p, st)
     }))"

section \<open>The loader\<close>

text \<open>\<open>hashmult\<close>: the loop over the two bytes of the key, least significant first.\<close>

definition hashmult :: "u16 \<Rightarrow> u16" where
  "hashmult key = fold (\<lambda>b hash. hash * 31 + ucast b) (le_of_word 2 key) 0"

text \<open>\<open>bpf_map_update_elem(hash_fd, &key, &i, BPF_ANY)\<close> copies the first two bytes of \<open>i\<close>.\<close>

definition fill_htable :: "('h, u16) map_ops \<Rightarrow> nat \<Rightarrow> 'h \<Rightarrow> 'h" where
  "fill_htable hops n hm =
     fold (\<lambda>i hm. update_elem hops hm (ucast (hashmult (of_nat i))) (of_nat i)) [0..<n] hm"

section \<open>The keys of the filter\<close>

lemma u16_bytes:
  "(ucast (ucast key :: u8) :: u16) = of_nat (unat key mod 256)"
  "(ucast (ucast (drop_bit 8 key) :: u8) :: u16) = of_nat (unat (key :: u16) div 256)"
proof -
  have "unat key div 256 < 256"
    using unat_u16_le [of key] by (simp add: less_mult_imp_div_less)
  then show "(ucast (ucast (drop_bit 8 key) :: u8) :: u16) = of_nat (unat key div 256)"
    unfolding word_unat_eq_iff unsigned_ucast_eq unsigned_drop_bit_eq unat_of_nat
    by (simp add: unsigned_take_bit_eq unsigned_drop_bit_eq take_bit_nat_eq_self drop_bit_nat_def)
  show "(ucast (ucast key :: u8) :: u16) = of_nat (unat key mod 256)"
    unfolding word_unat_eq_iff unsigned_ucast_eq unat_of_nat
    by (simp add: unsigned_take_bit_eq take_bit_nat_eq_self take_bit_eq_mod unat_mod)
qed

lemma hashmult_bytes: "unat (hashmult key) = 31 * (unat key mod 256) + unat key div 256"
proof -
  have "le_of_word 2 key = [ucast key, ucast (drop_bit 8 key)]"
    unfolding numeral_2_eq_2 by simp
  then have "hashmult key = of_nat (31 * (unat key mod 256) + unat key div 256)"
    by (simp add: hashmult_def u16_bytes [of key] mult.commute)
  moreover have "unat key div 256 < 256"
    using unat_u16_le [of key] by (simp add: less_mult_imp_div_less)
  moreover have "unat key mod 256 < 256"
    by simp
  ultimately show ?thesis
    by (simp only: unat_of_nat) simp
qed

lemma hashmult_range: "unat (hashmult key) \<le> 8160"
proof -
  have "unat key div 256 < 256"
    using unsigned_less [where ?'a = nat and w = key] by (simp add: less_mult_imp_div_less)
  moreover have "unat key mod 256 < 256" by simp
  ultimately show ?thesis
    unfolding hashmult_bytes by linarith
qed

lemma hashmult_onto:
  assumes "n \<le> 8160"
  shows "\<exists>i<65536. unat (hashmult (of_nat i)) = n"
proof -
  define lo where "lo = min 255 (n div 31)"
  define hi where "hi = n - 31 * lo"
  have "n div 31 * 31 \<le> n" "n - n div 31 * 31 < 31"
    by (simp, simp add: minus_div_mult_eq_mod)
  then have lo: "lo < 256" "31 * lo \<le> n" "hi < 256"
    using assms by (auto simp: lo_def hi_def min_def split: if_splits)
  have "256 * hi + lo < 65536"
    using lo by simp
  moreover have "unat (hashmult (of_nat (256 * hi + lo))) = n"
    using lo \<open>256 * hi + lo < 65536\<close>
    unfolding hashmult_bytes unat_of_nat by (simp add: hi_def)
  ultimately show ?thesis by blast
qed

lemma hashmult_keys: "(\<lambda>i. ucast (hashmult (of_nat i)) :: u32) ` {0..<65536} = {k. unat k \<le> 8160}"
proof (intro equalityI subsetI)
  fix k :: u32
  assume "k \<in> (\<lambda>i. ucast (hashmult (of_nat i))) ` {0..<65536}"
  then show "k \<in> {k. unat k \<le> 8160}"
    using hashmult_range by (auto simp only: unat_ucast_u16 mem_Collect_eq)
next
  fix k :: u32
  assume "k \<in> {k. unat k \<le> 8160}"
  then obtain i where i: "i < 65536" "unat (hashmult (of_nat i)) = unat k"
    using hashmult_onto by auto
  then have "k = ucast (hashmult (of_nat i))"
    by (simp only: word_unat_eq_iff unat_ucast_u16)
  with i(1) show "k \<in> (\<lambda>i. ucast (hashmult (of_nat i))) ` {0..<65536}"
    by auto
qed

text \<open>The loader leaves exactly the keys up to 8160 in an empty hash map of 65536 entries.\<close>

context bpf_hash
begin

lemma dom_fill_htable:
  assumes "lookup_elem ops m = Map.empty" "HASH_ENTRIES \<le> max_entries"
  shows "dom (lookup_elem ops (fold (\<lambda>i hm. update_elem ops hm (ucast (hashmult (of_nat i))) (v i)) [0..<HASH_ENTRIES] m)) =
    {k. unat k \<le> 8160}"
proof -
  have "card (dom (lookup_elem ops m)) + length [0..<HASH_ENTRIES] \<le> max_entries"
    using assms by simp
  then show ?thesis
    by (subst dom_fold_update) (simp_all add: assms(1) HASH_ENTRIES_def hashmult_keys)
qed

end

lemma fill_htable_dom:
  assumes "bpf_hash hops HASH_ENTRIES" "lookup_elem hops hm = Map.empty"
  shows "dom (lookup_elem hops (fill_htable hops HASH_ENTRIES hm)) = {k. unat k \<le> 8160}"
  unfolding fill_htable_def using bpf_hash.dom_fill_htable [OF assms] by simp

section \<open>One packet\<close>

definition match_key :: "bytes \<Rightarrow> u32" where
  "match_key p = filter_key (le32 p 30)"

definition filter_wf :: "('m \<Rightarrow> nat) \<Rightarrow> ('m, 'h) filter_maps \<Rightarrow> bool" where
  "filter_wf me st \<longleftrightarrow> me (rxfilter st) = TOT_SIZE_B \<and> me (rxpkt st) = 1"

text \<open>The hash map after a match: the 256 updates of the loop.\<close>

definition overwritten :: "('h, u16) map_ops \<Rightarrow> bytes \<Rightarrow> 'h \<Rightarrow> 'h" where
  "overwritten hops p hm = fold (\<lambda>i hm. update_elem hops hm (of_nat i) (le16 p (42 + 4 * i))) [0..<256] hm"

lemma match_key_octets:
  assumes "34 \<le> length p"
  shows "unat (match_key p) = 256 * unat (p ! 30) + unat (p ! 31)"
proof -
  have "ucast (le32 p 30) = le16 p 30"
    using assms by (intro halves_le32) simp
  moreover have "get_bytes p 30 2 = [p ! 30, p ! 31]"
    using assms by (intro nth_equalityI) (auto simp: nth_get_bytes mem_simps less_2_cases_iff)
  ultimately have "match_key p = ucast (ntohs (ucast (p ! 30) OR push_bit 8 (ucast (p ! 31))))"
    by (simp add: match_key_def filter_key_def)
  moreover have "ntohs (ucast (p ! 30) OR push_bit 8 (ucast (p ! 31))) = push_bit 8 (ucast (p ! 30)) OR ucast (p ! 31)"
    by (rule bit_word_eqI) (auto simp: ntohs_def bit_simps dest: bit_imp_le_length)
  moreover have "push_bit 8 (ucast (p ! 30)) OR ucast (p ! 31) = (push_bit 8 (ucast (p ! 30)) + ucast (p ! 31) :: u16)"
    by (rule disjunctive_add [symmetric]) (auto simp: bit_simps dest: bit_imp_le_length)
  ultimately show ?thesis
    using unat_u8_le [of "p ! 30"] unat_u8_le [of "p ! 31"]
    by (simp only: unat_ucast_u16)
       (simp add: push_bit_eq_mult unat_word_ariths unsigned_ucast_eq take_bit_nat_eq_self)
qed

context bpf_array
begin

lemma filter_loop_in:
  assumes "1066 \<le> length p" "max_entries rxf = TOT_SIZE_B"
  shows "filter_loop ops hops p 256 rxf hm = Some (overwritten hops p hm)"
  unfolding filter_loop_def overwritten_def
proof (rule for_each_fold)
  fix i u
  assume "i \<in> set [0..<256]"
  then have "lookup_elem ops rxf (of_nat i) = Some (elem ops rxf i)" "42 + 4 * i + 2 \<le> length p"
    using assms by (auto simp: const_defs intro!: lookup_elem_of_nat)
  then show "(let key = of_nat i in case lookup_elem ops rxf key of None \<Rightarrow> Some u
       | Some _ \<Rightarrow> do { v \<leftarrow> rd16 p (42 + 4 * i); Some (update_elem hops u key v) }) =
      Some (update_elem hops u (of_nat i) (le16 p (42 + 4 * i)))"
    by (simp add: load_in)
qed

lemma filter_job:
  assumes "filter_wf max_entries st" "job_frame p"
  shows "\<exists>st'. filter_wf max_entries st' \<and> rxfilter st' = rxfilter st \<and>
    hmfilter st' = (if lookup_elem hops (hmfilter st) (match_key p) = None then hmfilter st
      else overwritten hops p (hmfilter st)) \<and>
    pkt_count ops st' = pkt_count ops st + 1 \<and>
    filter_xdp ops hops t0 t1 p st = Some
      (if notifies (pkt_count ops st') then (XDP_TX, swapped p, st') else (XDP_PASS, stamped p t0 t1, st')) \<and>
    filter_no_t ops hops p st = Some
      (if notifies (pkt_count ops st') then (XDP_TX, swapped p, st') else (XDP_PASS, p, st'))"
proof -
  let ?hm = "if lookup_elem hops (hmfilter st) (match_key p) = None then hmfilter st
      else overwritten hops p (hmfilter st)"
  have len: "1066 \<le> length p"
    using assms(2) by (rule job_frame_length)
  define st1 where "st1 = st\<lparr>hmfilter := ?hm\<rparr>"
  have st1: "max_entries (rxpkt st1) = 1" "pkt_count ops st1 = pkt_count ops st" "rxfilter st1 = rxfilter st"
      "hmfilter st1 = ?hm"
    using assms(1) by (simp_all add: st1_def filter_wf_def pkt_count_def)
  obtain m where m: "count_pkt ops st1 = Some (notifies (pkt_count ops st1 + 1), st1\<lparr>rxpkt := m\<rparr>)"
      "max_entries m = max_entries (rxpkt st1)" "elem ops m 0 = pkt_count ops st1 + 1"
    using count_pkt_eq [of st1] st1(1) by auto
  have rd: "rd32 p 30 = Some (le32 p 30)" "filter_key (le32 p 30) = match_key p"
    using len by (simp_all add: load_in match_key_def)
  have look: "(case lookup_elem hops (hmfilter st) (match_key p) of None \<Rightarrow> Some (hmfilter st)
      | Some _ \<Rightarrow> filter_loop ops hops p 256 (rxfilter st) (hmfilter st)) = Some ?hm"
    using assms(1) filter_loop_in [OF len] by (auto simp: filter_wf_def split: option.split)
  show ?thesis
    using assms len m st1
    by (intro exI [of _ "st1\<lparr>rxpkt := m\<rparr>"])
       (simp add: filter_xdp_def filter_no_t_def with_job_eq mem_simps rd look
         filter_wf_def pkt_count_def flip: st1_def)
qed

lemma filter_other:
  assumes "\<not> job_frame p"
  shows "filter_xdp ops hops t0 t1 p st = Some (XDP_PASS, p, st)" "filter_no_t ops hops p st = Some (XDP_PASS, p, st)"
  using assms by (simp_all add: filter_xdp_def filter_no_t_def with_job_eq)

end

sublocale bpf_array \<subseteq> filt: counted_job
  "\<lambda>(t0, t1, p). filter_xdp ops hops t0 t1 p" "filter_wf max_entries" "pkt_count ops" "\<lambda>(t0, t1, p). job_frame p"
  for hops
proof (unfold_locales, goal_cases)
  case (1 st e)
  obtain t0 t1 p where e: "e = (t0, t1, p)" by (metis prod_cases3)
  show ?case
    using filter_job [OF 1, of p hops t0 t1] filter_other(1) [of p hops t0 t1 st] 1
    by (cases "job_frame p") (auto simp: e)
qed

context bpf_array
begin

lemmas filter_runs = filt.replies

end

section \<open>Properties\<close>

text \<open>
  C36: the filter that the loader sets up passes by address range: after \<open>fill_htable\<close> on the empty
  hash map an accepted frame matches exactly when its destination's first two octets \<open>a.b\<close> satisfy
  \<open>256 a + b \<le> 8160\<close>, whatever the other two octets are; of the 65536 entries only 8161 are in use.
\<close>

theorem filter_matches:
  assumes "bpf_hash hops HASH_ENTRIES" "lookup_elem hops hm = Map.empty" "34 \<le> length p"
  shows "lookup_elem hops (fill_htable hops HASH_ENTRIES hm) (match_key p) \<noteq> None \<longleftrightarrow>
    256 * unat (p ! 30) + unat (p ! 31) \<le> 8160"
proof -
  have "lookup_elem hops (fill_htable hops HASH_ENTRIES hm) (match_key p) \<noteq> None \<longleftrightarrow>
      match_key p \<in> dom (lookup_elem hops (fill_htable hops HASH_ENTRIES hm))"
    by (simp add: domIff)
  then show ?thesis
    by (simp only: fill_htable_dom [OF assms(1,2)] match_key_octets [OF assms(3)] mem_Collect_eq)
qed

definition to_host :: "u8 \<Rightarrow> u8 \<Rightarrow> bytes" where
  "to_host a b = (job_of (replicate 256 5))[30 := a, 31 := b]"

theorem filter_matches_witness:
  "lookup_elem (hash_map HASH_ENTRIES) (fill_htable (hash_map HASH_ENTRIES) HASH_ENTRIES [])
     (match_key (to_host 10 0)) \<noteq> None \<and>
   lookup_elem (hash_map HASH_ENTRIES) (fill_htable (hash_map HASH_ENTRIES) HASH_ENTRIES [])
     (match_key (to_host 192 168)) = None"
proof -
  have "34 \<le> length (to_host a b)" "to_host a b ! 30 = a" "to_host a b ! 31 = b" for a b
    by (simp_all add: to_host_def)
  then show ?thesis
    using filter_matches [OF hash.bpf_hash_axioms, where hm = "[]" and p = "to_host 10 0"]
      filter_matches [OF hash.bpf_hash_axioms, where hm = "[]" and p = "to_host 192 168"]
    by (auto simp: HASH_ENTRIES_def fun_eq_iff hash_map_def)
qed

text \<open>
  One invocation of the filter: a matching frame leaves \<open>rxfilter\<close> as it was and instead replaces the
  entries 0 to 255 of the match table \<open>hmfilter\<close> by the low halves of its payload integers (while there is room
  in the table); a frame that does not match changes neither; both count the packet.
\<close>

theorem filter_packet:
  assumes "bpf_array ops me" "me (rxfilter st) = TOT_SIZE_B" "me (rxpkt st) = 1" "job_frame p"
    and "bpf_hash hops n" "card (dom (lookup_elem hops (hmfilter st))) + 256 \<le> n"
  shows "\<exists>a q st'. filter_xdp ops hops t0 t1 p st = Some (a, q, st') \<and> rxfilter st' = rxfilter st \<and>
    pkt_count ops st' = pkt_count ops st + 1 \<and>
    lookup_elem hops (hmfilter st') =
      (if lookup_elem hops (hmfilter st) (match_key p) = None then lookup_elem hops (hmfilter st)
       else (\<lambda>k. if unat k < 256 then Some (le16 p (42 + 4 * unat k)) else lookup_elem hops (hmfilter st) k))"
proof -
  have wf: "filter_wf me st"
    using assms by (simp add: filter_wf_def)
  define g where "g k = le16 p (42 + 4 * unat k)" for k :: u32
  have "overwritten hops p (hmfilter st) = fold (\<lambda>k m. update_elem hops m k (g k)) (map of_nat [0..<256]) (hmfilter st)"
    unfolding overwritten_def fold_map comp_def by (rule fold_cong) (auto simp: g_def unat_of_nat)
  moreover have "(k :: u32) \<in> of_nat ` {0..<256} \<longleftrightarrow> unat k < 256" for k
    by (auto simp: unat_of_nat intro!: image_eqI [of _ _ "unat k"])
  moreover have "card (dom (lookup_elem hops (hmfilter st))) + length (map of_nat [0..<256] :: u32 list) \<le> n"
    using assms(6) by simp
  ultimately have ow: "lookup_elem hops (overwritten hops p (hmfilter st)) =
      (\<lambda>k. if unat k < 256 then Some (g k) else lookup_elem hops (hmfilter st) k)"
    by (simp add: bpf_hash.lookup_fold_update [OF assms(5)])
  show ?thesis
    using bpf_array.filter_job [OF assms(1) wf assms(4), of hops t0 t1]
    by (cases "notifies (pkt_count ops st + 1)") (auto simp: ow [unfolded g_def])
qed

theorem filter_packet_witness:
  "\<exists>a q st'. filter_xdp array_map (hash_map 65536) 1 2 (to_host 10 0)
     \<lparr>rxpkt = [0], rxfilter = replicate 1024 0, hmfilter = [(2560, 0)]\<rparr> = Some (a, q, st') \<and>
     rxfilter st' = replicate 1024 0"
proof -
  have "udp_frame (to_host 10 0)" "payload_len (to_host 10 0) = 1024"
    using job_frame_job [of "replicate 256 5"]
    by (simp_all add: to_host_def job_frame_def udp_frame_def payload_len_def get_bytes_def)
  then have "job_frame (to_host 10 0)"
    by (simp add: job_frame_def to_host_def)
  then show ?thesis
    using filter_packet [OF arr.bpf_array_axioms, where hops = "hash_map 65536" and n = 65536 and ?t0.0 = 1 and ?t1.0 = 2
        and p = "to_host 10 0" and st = "\<lparr>rxpkt = [0], rxfilter = replicate 1024 0, hmfilter = [(2560, 0)]\<rparr>",
        OF _ _ _ hash.bpf_hash_axioms]
    by (fastforce simp: const_defs dom_map_of_conv_image_fst hash_map_def)
qed

text \<open>
  Over any run of packets the filter never fails and sends back one packet per 1024 accepted
  ones, whether they match or not.
\<close>

theorem filter_run:
  assumes "bpf_array ops me" "me (rxfilter st) = TOT_SIZE_B" "me (rxpkt st) = 1"
  shows "\<exists>out st'. run_xdp (\<lambda>(t0, t1, p). filter_xdp ops hops t0 t1 p) es st = Some (out, st') \<and>
    pkt_count ops st' = pkt_count ops st + of_nat (length (jobs es)) \<and>
    length (filter (\<lambda>r. fst r = XDP_TX) out) =
      (unat (pkt_count ops st) + length (jobs es)) div 1024 - unat (pkt_count ops st) div 1024"
proof -
  have wf: "filter_wf me st"
    using assms by (simp add: filter_wf_def)
  show ?thesis
    using bpf_array.filter_runs [OF assms(1) wf, of hops es] unfolding accepted_timed by blast
qed

theorem filter_run_witness:
  "\<exists>out st'. run_xdp (\<lambda>(t0, t1, p). filter_xdp array_map (hash_map 65536) t0 t1 p) [(1, 2, [])]
     \<lparr>rxpkt = [3], rxfilter = replicate 1024 0, hmfilter = []\<rparr> = Some (out, st') \<and> pkt_count array_map st' = 3"
proof -
  have "jobs [(1, 2, [])] = []"
    by (simp add: jobs_def job_frame_def)
  moreover have "pkt_count array_map \<lparr>rxpkt = [3], rxfilter = replicate 1024 0, hmfilter = []\<rparr> = 3"
    by (simp add: pkt_count_array)
  ultimately show ?thesis
    using filter_run [OF arr.bpf_array_axioms, of "\<lparr>rxpkt = [3], rxfilter = replicate 1024 0, hmfilter = []\<rparr>"
        "hash_map 65536" "[(1, 2, [])]"]
    by (auto simp: const_defs simp del: run_xdp.simps)
qed

end
