(* ===== verification/Xdp_Kvstore.thy ===== *)
theory Xdp_Kvstore
  imports Xdp_Steps
begin

text \<open>
  \<open>src/ebpf-xdp/kvstore\<close>: a cache of 32-bit values in LRU hash maps, one request per packet.  The first payload
  word is the operation (0 reads, anything else writes), the second the key, the third the value.
\<close>

section \<open>The sets\<close>

record 'm kv_maps =
  rxblk1 :: 'm
  rxblk2 :: 'm
  rxblk3 :: 'm
  rxblk4 :: 'm

text \<open>A pointer to one of the four maps, as \<open>get_set\<close> returns it.\<close>

datatype kv_ref = Rxblk1 | Rxblk2 | Rxblk3 | Rxblk4

primrec kv_map :: "kv_ref \<Rightarrow> 'm kv_maps \<Rightarrow> 'm" where
  "kv_map Rxblk1 st = rxblk1 st"
| "kv_map Rxblk2 st = rxblk2 st"
| "kv_map Rxblk3 st = rxblk3 st"
| "kv_map Rxblk4 st = rxblk4 st"

primrec kv_set_map :: "kv_ref \<Rightarrow> 'm \<Rightarrow> 'm kv_maps \<Rightarrow> 'm kv_maps" where
  "kv_set_map Rxblk1 m st = st\<lparr>rxblk1 := m\<rparr>"
| "kv_set_map Rxblk2 m st = st\<lparr>rxblk2 := m\<rparr>"
| "kv_set_map Rxblk3 m st = st\<lparr>rxblk3 := m\<rparr>"
| "kv_set_map Rxblk4 m st = st\<lparr>rxblk4 := m\<rparr>"

definition SETS_NR :: nat where "SETS_NR = 4"

definition BUCK :: "u32 \<Rightarrow> u32" where "BUCK v = v mod of_nat SETS_NR"

definition get_set :: "int \<Rightarrow> kv_ref" where
  "get_set v = (if v = 1 then Rxblk1 else if v = 2 then Rxblk2 else if v = 3 then Rxblk3
     else if v = 4 then Rxblk4 else Rxblk1)"

section \<open>The handlers\<close>

definition DATA_READ_B :: nat where "DATA_READ_B = TOT_SIZE_B"
definition DATA_WRITE_B :: nat where "DATA_WRITE_B = TOT_SIZE_B"

text \<open>The access to the cache; \<^term>\<open>Inl ()\<close> stands for the two early \<open>return XDP_PASS\<close>.\<close>

definition kv_access :: "('m, u32) lru_ops \<Rightarrow> u32 \<Rightarrow> bytes \<Rightarrow> 'm kv_maps \<Rightarrow> (unit + bytes \<times> 'm kv_maps) option" where
  "kv_access ops payload_size p st = do {
     flag \<leftarrow> rd32 p pay_off;
     if flag \<noteq> 0 then
       if payload_size \<noteq> of_nat DATA_WRITE_B then Some (Inl ())
       else do {
         key \<leftarrow> rd32 p (pay_off + 4);
         val \<leftarrow> rd32 p (pay_off + 8);
         let ref = get_set (sint (BUCK key));
         Some (Inr (p, kv_set_map ref (lru_update ops (kv_map ref st) key val) st))
       }
     else
       if payload_size \<noteq> of_nat DATA_READ_B then Some (Inl ())
       else do {
         key \<leftarrow> rd32 p (pay_off + 4);
         let ref = get_set (sint (BUCK key));
         let (cont, m) = lru_lookup ops (kv_map ref st) key;
         let st = kv_set_map ref m st;
         case cont of
           None \<Rightarrow> Some (Inr (p, st))
         | Some v \<Rightarrow> do {
             p \<leftarrow> wr32 p (pay_off + 8) v;
             p \<leftarrow> refresh_csum p;
             Some (Inr (p, st))
           }
       }
   }"

definition kvstore :: "('m, u32) lru_ops \<Rightarrow> u64 \<Rightarrow> u64 \<Rightarrow> bytes \<Rightarrow> 'm kv_maps \<Rightarrow> 'm kv_maps xdp_result" where
  "kvstore ops time time' p st =
     with_udp p (XDP_PASS, p, st) (do {
       payload_size \<leftarrow> udp_payload_size p;
       if payload_size \<noteq> of_nat DATA_READ_B \<or> payload_size \<noteq> of_nat DATA_WRITE_B then Some (XDP_PASS, p, st)
       else if length p < pay_off + DATA_SIZE_B * (unat payload_size div DATA_SIZE_B) then Some (XDP_PASS, p, st)
       else do {
         r \<leftarrow> kv_access ops payload_size p st;
         case r of
           Inl _ \<Rightarrow> Some (XDP_PASS, p, st)
         | Inr (p, st) \<Rightarrow>
             if length p < pay_off + 2 * 8 then Some (XDP_PASS, p, st)
             else do {
               p \<leftarrow> stamp_times p time time';
               p \<leftarrow> swap_hdrs p;
               p \<leftarrow> refresh_csum p;
               Some (XDP_TX, p, st)
             }
       }
     })"

definition kvstore_no_t :: "('m, u32) lru_ops \<Rightarrow> bytes \<Rightarrow> 'm kv_maps \<Rightarrow> 'm kv_maps xdp_result" where
  "kvstore_no_t ops p st =
     with_udp p (XDP_PASS, p, st) (do {
       payload_size \<leftarrow> udp_payload_size p;
       if payload_size \<noteq> of_nat DATA_READ_B \<or> payload_size \<noteq> of_nat DATA_WRITE_B then Some (XDP_PASS, p, st)
       else if length p < pay_off + DATA_SIZE_B * (unat payload_size div DATA_SIZE_B) then Some (XDP_PASS, p, st)
       else do {
         r \<leftarrow> kv_access ops payload_size p st;
         case r of
           Inl _ \<Rightarrow> Some (XDP_PASS, p, st)
         | Inr (p, st) \<Rightarrow> do {
             p \<leftarrow> swap_hdrs p;
             Some (XDP_TX, p, st)
           }
       }
     })"

section \<open>The cache the maps implement\<close>

definition kv_ref_of :: "u32 \<Rightarrow> kv_ref" where
  "kv_ref_of key = get_set (sint (BUCK key))"

definition kv_lookup :: "('m, u32) lru_ops \<Rightarrow> 'm kv_maps \<Rightarrow> u32 \<Rightarrow> u32 option" where
  "kv_lookup ops st k = lru_get ops (kv_map (kv_ref_of k) st) k"

lemma sint_BUCK: "sint (BUCK key) = int (unat key mod 4)"
proof -
  have m: "unat (BUCK key) = unat key mod 4"
    by (simp add: BUCK_def SETS_NR_def unat_mod)
  then have "uint (BUCK key) = int (unat key mod 4)"
    by (metis of_nat_unat uint_nat)
  then show ?thesis
    using m by (simp add: sint_uint signed_take_bit_int_eq_self)
qed

lemma kv_ref_of_eq:
  "kv_ref_of key = (if unat key mod 4 = 2 then Rxblk2 else if unat key mod 4 = 3 then Rxblk3 else Rxblk1)"
proof -
  have "unat key mod 4 < 4" by simp
  then show ?thesis
    unfolding kv_ref_of_def sint_BUCK get_set_def by auto
qed

lemma kv_map_set: "kv_map r (kv_set_map r' m st) = (if r = r' then m else kv_map r st)"
  by (cases r; cases r') auto

lemma kv_set_map_same: "kv_set_map r (kv_map r st) st = st"
  by (cases r) auto

text \<open>The packet a request asks for.\<close>

definition req_flag :: "bytes \<Rightarrow> u32" where "req_flag p = payload_word p 0"
definition req_key :: "bytes \<Rightarrow> u32" where "req_key p = payload_word p 1"
definition req_val :: "bytes \<Rightarrow> u32" where "req_val p = payload_word p 2"

definition answer :: "bytes \<Rightarrow> u32 option \<Rightarrow> bytes" where
  "answer p r = (case r of None \<Rightarrow> p | Some v \<Rightarrow> refreshed (put32 p 50 v))"

lemma length_answer [mem_simps]: "1066 \<le> length p \<Longrightarrow> length (answer p r) = length p"
  by (simp add: answer_def mem_simps split: option.split)

lemma answer_word:
  assumes "1066 \<le> length p" "j < 256"
  shows "payload_word (answer p r) j = (case r of Some v \<Rightarrow> if j = 2 then v else payload_word p j | None \<Rightarrow> payload_word p j)"
proof (cases "j = 2")
  case True
  then show ?thesis
    using assms by (auto simp: answer_def payload_word_def mem_simps split: option.split)
next
  case False
  then have "42 + 4 * j + 4 \<le> 50 \<or> 54 \<le> 42 + 4 * j"
    by auto
  then show ?thesis
    using assms False by (auto simp: answer_def payload_word_def mem_simps split: option.split)
qed

definition kv_after :: "('m, u32) lru_ops \<Rightarrow> bytes \<Rightarrow> 'm kv_maps \<Rightarrow> 'm kv_maps" where
  "kv_after ops p st = (let r = kv_ref_of (req_key p) in
     if req_flag p \<noteq> 0 then kv_set_map r (lru_update ops (kv_map r st) (req_key p) (req_val p)) st
     else kv_set_map r (snd (lru_lookup ops (kv_map r st) (req_key p))) st)"

definition kv_reply :: "('m, u32) lru_ops \<Rightarrow> bytes \<Rightarrow> 'm kv_maps \<Rightarrow> bytes" where
  "kv_reply ops p st = answer p (if req_flag p \<noteq> 0 then None else kv_lookup ops st (req_key p))"

lemma kv_access_job:
  assumes "1066 \<le> length p"
  shows "kv_access ops 1024 p st = Some (Inr (kv_reply ops p st, kv_after ops p st))"
proof -
  have rd: "rd32 p 42 = Some (req_flag p)" "rd32 p 46 = Some (req_key p)" "rd32 p 50 = Some (req_val p)"
    using assms rd32_payload [of 0 p] rd32_payload [of 1 p] rd32_payload [of 2 p]
    by (auto simp: req_flag_def req_key_def req_val_def)
  have wr: "wr32 p 50 v = Some (put32 p 50 v)" "refresh_csum (put32 p 50 v) = Some (refreshed (put32 p 50 v))" for v
    using assms by (simp_all add: mem_simps)
  show ?thesis
    by (auto simp: kv_access_def rd wr DATA_WRITE_B_def DATA_READ_B_def const_defs kv_after_def kv_reply_def
        answer_def Let_def kv_lookup_def lru_get_def kv_ref_of_def split: prod.split option.split)
qed

lemma kvstore_no_t_job:
  assumes "job_frame p"
  shows "kvstore_no_t ops p st = Some (XDP_TX, swapped (kv_reply ops p st), kv_after ops p st)"
proof -
  have len: "1066 \<le> length p"
    using assms by (rule job_frame_length)
  then have "42 \<le> length (kv_reply ops p st)"
    by (simp add: kv_reply_def mem_simps)
  then show ?thesis
    using assms len
    by (simp add: kvstore_no_t_def with_udp_eq job_frame_def udp_payload_size_in DATA_WRITE_B_def DATA_READ_B_def
        const_defs kv_access_job swap_hdrs_in)
qed

lemma kvstore_job:
  assumes "job_frame p"
  shows "kvstore ops t0 t1 p st =
    Some (XDP_TX, refreshed (swapped (stamped (kv_reply ops p st) t0 t1)), kv_after ops p st)"
proof -
  have len: "1066 \<le> length p"
    using assms by (rule job_frame_length)
  then have "1066 \<le> length (kv_reply ops p st)"
    by (simp add: kv_reply_def mem_simps)
  then show ?thesis
    using assms len
    by (simp add: kvstore_def with_udp_eq job_frame_def udp_payload_size_in DATA_WRITE_B_def DATA_READ_B_def
        const_defs kv_access_job mem_simps)
qed

lemma kvstore_other:
  assumes "\<not> job_frame p"
  shows "kvstore_no_t ops p st = Some (XDP_PASS, p, st)" "kvstore ops t0 t1 p st = Some (XDP_PASS, p, st)"
  using assms
  by (auto simp: kvstore_no_t_def kvstore_def with_udp_eq job_frame_def udp_frame_def udp_payload_size_in
      DATA_WRITE_B_def DATA_READ_B_def const_defs)

section \<open>The promise of a cache\<close>

text \<open>What was last written under each key, by the write requests of a list of packets.\<close>

definition written :: "(u32 \<Rightarrow> u32 option) \<Rightarrow> bytes list \<Rightarrow> u32 \<Rightarrow> u32 option" where
  "written m ps = fold (\<lambda>p m. if job_frame p \<and> req_flag p \<noteq> 0 then m(req_key p \<mapsto> req_val p) else m) ps m"

lemma written_simps [simp]:
  "written m [] = m"
  "written m (p # ps) =
     written (if job_frame p \<and> req_flag p \<noteq> 0 then m(req_key p \<mapsto> req_val p) else m) ps"
  by (simp_all add: written_def)

text \<open>
  The answer to \<open>p\<close> when \<open>m\<close> is what was written before: a request comes back with its payload, except that a
  read may have its third word replaced by the value last written under its key.
\<close>

definition reply_ok :: "(u32 \<Rightarrow> u32 option) \<Rightarrow> bytes \<Rightarrow> xdp_action \<times> bytes \<Rightarrow> bool" where
  "reply_ok m p r \<longleftrightarrow>
     (if job_frame p then fst r = XDP_TX \<and> length (snd r) = length p \<and>
        (\<forall>j<256. payload_word (snd r) j = payload_word p j \<or>
           j = 2 \<and> req_flag p = 0 \<and> m (req_key p) = Some (payload_word (snd r) 2))
      else r = (XDP_PASS, p))"

context bpf_lru_hash
begin

lemma kv_lookup_read:
  "req_flag p = 0 \<Longrightarrow> kv_lookup ops (kv_after ops p st) = kv_lookup ops st"
  by (auto simp: fun_eq_iff kv_lookup_def kv_after_def Let_def kv_map_set get_after_lookup)

lemma kv_lookup_write: "req_flag p \<noteq> 0 \<Longrightarrow> kv_lookup ops (kv_after ops p st) (req_key p) = Some (req_val p)"
  by (simp add: kv_lookup_def kv_after_def Let_def kv_map_set get_update)

lemma kv_lookup_write_other:
  "req_flag p \<noteq> 0 \<Longrightarrow> k \<noteq> req_key p \<Longrightarrow>
     kv_lookup ops (kv_after ops p st) k = kv_lookup ops st k \<or> kv_lookup ops (kv_after ops p st) k = None"
  using get_update_other by (auto simp: kv_lookup_def kv_after_def Let_def kv_map_set)

lemma kv_after_sound:
  assumes "kv_lookup ops st \<subseteq>\<^sub>m m"
  shows "kv_lookup ops (kv_after ops p st) \<subseteq>\<^sub>m (if req_flag p \<noteq> 0 then m(req_key p \<mapsto> req_val p) else m)"
proof (cases "req_flag p = 0")
  case True
  then show ?thesis
    using assms by (simp add: kv_lookup_read)
next
  case False
  show ?thesis
    unfolding map_le_def
  proof
    fix k
    assume k: "k \<in> dom (kv_lookup ops (kv_after ops p st))"
    show "kv_lookup ops (kv_after ops p st) k = (if req_flag p \<noteq> 0 then m(req_key p \<mapsto> req_val p) else m) k"
    proof (cases "k = req_key p")
      case True
      then show ?thesis
        using False by (simp add: kv_lookup_write)
    next
      case other: False
      then have "kv_lookup ops (kv_after ops p st) k = kv_lookup ops st k" "k \<in> dom (kv_lookup ops st)"
        using kv_lookup_write_other [OF False other, of st] k by (auto simp: domIff)
      then show ?thesis
        using assms False other by (simp add: map_le_def)
    qed
  qed
qed

lemma kv_reply_ok:
  assumes "kv_lookup ops st \<subseteq>\<^sub>m m" "job_frame p"
  shows "reply_ok m p (XDP_TX, swapped (kv_reply ops p st))"
proof -
  have len: "1066 \<le> length p"
    using assms(2) by (rule job_frame_length)
  have hit: "m (req_key p) = Some v" if "kv_lookup ops st (req_key p) = Some v" for v
    using assms(1) that by (auto simp: map_le_def dom_def)
  have word: "payload_word (swapped (kv_reply ops p st)) j = payload_word (kv_reply ops p st) j" if "j < 256" for j
    using that len by (simp add: kv_reply_def mem_simps)
  show ?thesis
    using assms(2) len hit
    by (auto simp: reply_ok_def word kv_reply_def answer_word mem_simps split: option.split)
qed

lemma kv_run:
  assumes "kv_lookup ops st \<subseteq>\<^sub>m m"
  shows "\<exists>out st'. run_xdp (kvstore_no_t ops) ps st = Some (out, st') \<and> length out = length ps \<and>
    kv_lookup ops st' \<subseteq>\<^sub>m written m ps \<and> (\<forall>i<length ps. reply_ok (written m (take i ps)) (ps ! i) (out ! i))"
  using assms
proof (induction ps arbitrary: st m)
  case Nil
  then show ?case by simp
next
  case (Cons p ps)
  let ?m = "if job_frame p \<and> req_flag p \<noteq> 0 then m(req_key p \<mapsto> req_val p) else m"
  obtain a q st1 where h: "kvstore_no_t ops p st = Some (a, q, st1)" "kv_lookup ops st1 \<subseteq>\<^sub>m ?m" "reply_ok m p (a, q)"
  proof (cases "job_frame p")
    case True
    then show ?thesis
      using that [of XDP_TX "swapped (kv_reply ops p st)" "kv_after ops p st"] kvstore_no_t_job [OF True, of ops st]
        kv_after_sound [OF Cons.prems, of p] kv_reply_ok [OF Cons.prems True] by auto
  next
    case False
    then show ?thesis
      using that [of XDP_PASS p st] kvstore_other(1) [OF False, of ops st] Cons.prems by (simp add: reply_ok_def)
  qed
  obtain out st' where r: "run_xdp (kvstore_no_t ops) ps st1 = Some (out, st')" "length out = length ps"
      "kv_lookup ops st' \<subseteq>\<^sub>m written ?m ps" "\<forall>i<length ps. reply_ok (written ?m (take i ps)) (ps ! i) (out ! i)"
    using Cons.IH [OF h(2)] by blast
  have "reply_ok (written m (take i (p # ps))) ((p # ps) ! i) (((a, q) # out) ! i)" if "i < length (p # ps)" for i
    using that h(3) r(4) by (cases i) auto
  then show ?case
    using h(1) r by (intro exI [of _ "(a, q) # out"] exI [of _ st']) auto
qed

end

section \<open>Properties\<close>


definition kv_empty :: "'a list kv_maps" where
  "kv_empty = \<lparr>rxblk1 = [], rxblk2 = [], rxblk3 = [], rxblk4 = []\<rparr>"

definition request :: "u32 \<Rightarrow> u32 \<Rightarrow> u32 \<Rightarrow> bytes" where
  "request flag key val = job_of (flag # key # val # replicate 253 0)"

lemma request_words:
  "job_frame (request f k v)" "req_flag (request f k v) = f" "req_key (request f k v) = k" "req_val (request f k v) = v"
  by (simp_all add: request_def job_frame_job payload_word_job_of req_flag_def req_key_def req_val_def)

lemma kv_lookup_empty: "kv_lookup (lru_map n) kv_empty = Map.empty"
proof
  show "kv_lookup (lru_map n) kv_empty k = None" for k
    unfolding kv_lookup_def lru_map_get by (cases "kv_ref_of k") (simp_all add: kv_empty_def)
qed


text \<open>
  A value is found again: when a write is followed by reads and other packets only, a read of its key is
  answered with the value written, in the third word of the payload.
\<close>

theorem kv_read_after_write:
  assumes "bpf_lru_hash ops" "job_frame w" "req_flag w \<noteq> 0" "\<forall>p\<in>set ps. job_frame p \<longrightarrow> req_flag p = 0"
    and "job_frame r" "req_flag r = 0" "req_key r = req_key w"
  shows "\<exists>out st'. run_xdp (kvstore_no_t ops) (w # ps @ [r]) st = Some (out, st') \<and>
    payload_word (snd (last out)) 2 = req_val w"
proof -
  have run: "\<exists>out st'. run_xdp (kvstore_no_t ops) (ps @ [r]) st = Some (out, st') \<and> out \<noteq> [] \<and>
      payload_word (snd (last out)) 2 = req_val w"
    if "kv_lookup ops st (req_key w) = Some (req_val w)" "\<forall>p\<in>set ps. job_frame p \<longrightarrow> req_flag p = 0" for st
    using that
  proof (induction ps arbitrary: st)
    case Nil
    have "1066 \<le> length r"
      using assms(5) by (rule job_frame_length)
    then show ?case
      using Nil assms(5-7)
      by (simp add: kvstore_no_t_job kv_reply_def answer_word mem_simps)
  next
    case (Cons p ps)
    obtain a q st1 where "kvstore_no_t ops p st = Some (a, q, st1)" "kv_lookup ops st1 = kv_lookup ops st"
      using Cons.prems(2) bpf_lru_hash.kv_lookup_read [OF assms(1), of p st]
      by (cases "job_frame p") (auto simp: kvstore_no_t_job kvstore_other)
    then show ?case
      using Cons.IH [of st1] Cons.prems by auto
  qed
  have "kv_lookup ops (kv_after ops w st) (req_key w) = Some (req_val w)"
    using bpf_lru_hash.kv_lookup_write [OF assms(1,3)] by simp
  then obtain out st' where "run_xdp (kvstore_no_t ops) (ps @ [r]) (kv_after ops w st) = Some (out, st')"
      "out \<noteq> []" "payload_word (snd (last out)) 2 = req_val w"
    using run assms(4) by blast
  then show ?thesis
    by (simp add: kvstore_no_t_job [OF assms(2)])
qed

theorem kv_read_after_write_witness:
  "\<exists>out st'. run_xdp (kvstore_no_t (lru_map 500)) [request 1 7 42, request 0 9 0, request 0 7 0] kv_empty = Some (out, st') \<and>
     payload_word (snd (last out)) 2 = 42"
  using kv_read_after_write [OF lru.bpf_lru_hash_axioms, of "request 1 7 42" "[request 0 9 0]" "request 0 7 0" 500 kv_empty]
  by (simp add: request_words del: run_xdp.simps)

lemma stamped_answer:
  assumes "1066 \<le> length p"
  shows "refreshed (swapped (stamped (answer p r) t0 t1)) = refreshed (swapped (stamped p t0 t1))"
proof (cases r)
  case None
  then show ?thesis by (simp add: answer_def)
next
  case (Some v)
  obtain c where "answer p r = put16 (put32 p 50 v) 40 c"
    using Some by (auto simp: answer_def refreshed_def)
  moreover have "stamped (put16 (put32 p 50 v) 40 c) t0 t1 = put16 (stamped p t0 t1) 40 c"
    using assms by (intro bytes_eqI) (auto simp: stamped_def nth_put_bytes mem_simps)
  ultimately show ?thesis
    using assms by (simp add: swapped_put_check refreshed_put_check mem_simps)
qed

text \<open>
  C38: the reply of the timed \<open>kvstore\<close> does not depend on the store: whatever the maps hold, the same request at
  the same times is answered with the same packet.  The second timestamp overwrites the word that a
  read writes its value to.
\<close>

theorem kvstore_reply_blind:
  "map_option (\<lambda>(a, q, _). (a, q)) (kvstore ops t0 t1 p st) =
   map_option (\<lambda>(a, q, _). (a, q)) (kvstore ops t0 t1 p st2)"
proof (cases "job_frame p")
  case True
  then show ?thesis
    using job_frame_length [OF True] by (simp add: kvstore_job kv_reply_def stamped_answer)
qed (simp add: kvstore_other)

text \<open>
  \<open>get_set(BUCK(key))\<close> uses three of the four maps: keys congruent to 0 and to 1 modulo 4 share \<open>rxblk1\<close>, and
  no run of packets changes \<open>rxblk4\<close>.
\<close>

theorem kv_sets_used:
  "(get_set (sint (BUCK key)) = Rxblk1 \<longleftrightarrow> unat key mod 4 \<in> {0, 1}) \<and>
   (case run_xdp (kvstore_no_t ops) ps st of None \<Rightarrow> False | Some (out, st') \<Rightarrow> rxblk4 st' = rxblk4 st)"
proof -
  have "rxblk4 (kv_after ops p st) = rxblk4 st" for p st
    by (simp add: kv_after_def Let_def kv_ref_of_eq)
  then have step: "\<exists>a q st1. kvstore_no_t ops p st = Some (a, q, st1) \<and> rxblk4 st1 = rxblk4 st" for p st
    by (cases "job_frame p") (auto simp: kvstore_no_t_job kvstore_other)
  have run: "\<exists>out st'. run_xdp (kvstore_no_t ops) ps st = Some (out, st') \<and> rxblk4 st' = rxblk4 st" for st
  proof (induction ps arbitrary: st)
    case Nil
    then show ?case by simp
  next
    case (Cons p ps)
    obtain a q st1 where "kvstore_no_t ops p st = Some (a, q, st1)" "rxblk4 st1 = rxblk4 st"
      using step by blast
    then show ?case
      using Cons.IH [of st1] by auto
  qed
  have "kv_ref_of key = Rxblk1 \<longleftrightarrow> unat key mod 4 \<in> {0, 1}"
  proof -
    have "unat key mod 4 < 4" by simp
    then have "unat key mod 4 \<in> {0, 1} \<longleftrightarrow> unat key mod 4 \<noteq> 2 \<and> unat key mod 4 \<noteq> 3"
      by auto
    then show ?thesis
      by (simp only: kv_ref_of_eq) simp
  qed
  then show ?thesis
    using run [of st] by (auto simp: kv_ref_of_def)
qed

end
