(* ===== verification/Xdp_Forward.thy ===== *)
theory Xdp_Forward
  imports Xdp_Steps
begin

text \<open>
  The XDP programs that keep no map: ping-pong and its variants (\<open>ping_pong\<close>, \<open>benchmarks_utilities/fw_back\<close>,
  \<open>fw_back_ov\<close>), \<open>baseline\<close>, \<open>ktime_call\<close>, \<open>xdp_pass\<close>, \<open>xdp_drop\<close>, and \<open>loadbalancing\<close> with its hash.
\<close>

section \<open>Ping-pong\<close>

text \<open>The swap comes before the check that the two times fit.\<close>

definition ping_pong :: "u64 \<Rightarrow> u64 \<Rightarrow> bytes \<Rightarrow> (xdp_action \<times> bytes) option" where
  "ping_pong time time' p =
     with_udp p (XDP_PASS, p) (do {
       p \<leftarrow> swap_hdrs p;
       if length p < pay_off + 2 * 8 then Some (XDP_PASS, p)
       else do {
         p \<leftarrow> stamp_times p time time';
         p \<leftarrow> refresh_csum p;
         Some (XDP_TX, p)
       }
     })"

definition ping_pong_no_t :: "bytes \<Rightarrow> (xdp_action \<times> bytes) option" where
  "ping_pong_no_t p = with_udp p (XDP_PASS, p) (do { p \<leftarrow> swap_hdrs p; Some (XDP_TX, p) })"

definition fw_back :: "bytes \<Rightarrow> (xdp_action \<times> bytes) option" where
  "fw_back p = with_udp p (XDP_PASS, p) (do { p \<leftarrow> swap_hdrs p; Some (XDP_TX, p) })"

text \<open>\<open>fw_back_ov\<close> also reads the clock, and does nothing with it.\<close>

definition fw_back_ov :: "u64 \<Rightarrow> bytes \<Rightarrow> (xdp_action \<times> bytes) option" where
  "fw_back_ov time p =
     with_udp p (XDP_PASS, p) (do { p \<leftarrow> swap_hdrs p; let _ = time; Some (XDP_TX, p) })"

section \<open>Time measurement\<close>

definition baseline :: "u64 \<Rightarrow> u64 \<Rightarrow> bytes \<Rightarrow> (xdp_action \<times> bytes) option" where
  "baseline time time' p =
     with_udp p (XDP_PASS, p) (do {
       payload_size \<leftarrow> udp_payload_size p;
       if length p < pay_off + 2 * 8 then Some (XDP_PASS, p)
       else do {
         p \<leftarrow> stamp_times p time time';
         p \<leftarrow> refresh_csum p;
         Some (XDP_PASS, p)
       }
     })"

definition ktime_call :: "u64 \<Rightarrow> u64 \<Rightarrow> bytes \<Rightarrow> (xdp_action \<times> bytes) option" where
  "ktime_call time1 time2 p =
     with_udp p (XDP_PASS, p) (do {
       payload_size \<leftarrow> udp_payload_size p;
       if length p < pay_off + 2 * 8 then Some (XDP_PASS, p)
       else do {
         p \<leftarrow> stamp_times p time1 time2;
         p \<leftarrow> refresh_csum p;
         Some (XDP_PASS, p)
       }
     })"

definition xdp_pass :: "bytes \<Rightarrow> xdp_action \<times> bytes" where
  "xdp_pass p = (XDP_PASS, p)"

definition xdp_drop_prog :: "bytes \<Rightarrow> xdp_action \<times> bytes" where
  "xdp_drop_prog p = (XDP_DROP, p)"

section \<open>Load balancing\<close>

text \<open>\<open>sdbm\<close> on the bytes of a word; \<open>char\<close> is signed on the eBPF target.\<close>

definition sdbm :: "bytes \<Rightarrow> u32" where
  "sdbm word = fold (\<lambda>b hashAddress.
     scast b + push_bit 6 hashAddress + push_bit 16 hashAddress - hashAddress) word 0"

definition NR_RX :: int where "NR_RX = 1"

text \<open>The state is \<open>ctx->rx_queue_index\<close>.\<close>

definition loadbalancing :: "u64 \<Rightarrow> u64 \<Rightarrow> bytes \<Rightarrow> u32 \<Rightarrow> u32 xdp_result" where
  "loadbalancing time time' p rx_queue_index =
     with_udp p (XDP_PASS, p, rx_queue_index) (
       if length p < pay_off + 2 * 8 then Some (XDP_PASS, p, rx_queue_index)
       else do {
         p \<leftarrow> stamp_times p time time';
         saddr \<leftarrow> rd_bytes p (ip_off + 12) 4;
         Some (XDP_PASS, p, of_int (c_rem (sdbm saddr) NR_RX))
       })"

section \<open>Properties\<close>

lemma fw_back_eq: "fw_back = ping_pong_no_t" "fw_back_ov t = ping_pong_no_t"
  by (simp_all add: fw_back_def ping_pong_no_t_def fw_back_ov_def fun_eq_iff)

lemma ktime_call_eq: "ktime_call = baseline"
  by (simp add: ktime_call_def baseline_def fun_eq_iff)

text \<open>
  Ping-pong on every frame: a UDP frame with room for the two times goes back to its sender, parties swapped,
  the times in the first 16 payload bytes, the rest of the payload untouched and the checksum
  recomputed; a shorter UDP frame is passed up the stack with its parties already swapped; anything
  else is passed unchanged.
\<close>

theorem ping_pong_reply:
  "\<exists>a q. ping_pong t0 t1 p = Some (a, q) \<and> length q = length p \<and>
    (if \<not> udp_frame p then a = XDP_PASS \<and> q = p
     else if length p < 58 then a = XDP_PASS \<and> q = swapped p
     else a = XDP_TX \<and> q = refreshed (stamped (swapped p) t0 t1) \<and>
       get_bytes q 0 6 = get_bytes p 6 6 \<and> get_bytes q 6 6 = get_bytes p 0 6 \<and>
       get_bytes q 26 4 = get_bytes p 30 4 \<and> get_bytes q 30 4 = get_bytes p 26 4 \<and>
       get_bytes q 34 2 = get_bytes p 36 2 \<and> get_bytes q 36 2 = get_bytes p 34 2 \<and>
       le64 q 42 = t0 \<and> le64 q 50 = t1 \<and>
       (\<forall>off n. 58 \<le> off \<and> off + n \<le> length p \<longrightarrow> get_bytes q off n = get_bytes p off n))"
proof (cases "udp_frame p")
  case True
  then have len: "42 \<le> length p"
    by (simp add: udp_frame_def)
  show ?thesis
  proof (cases "length p < 58")
    case True
    then show ?thesis
      using \<open>udp_frame p\<close> len by (simp add: ping_pong_def with_udp_eq mem_simps)
  next
    case False
    let ?q = "refreshed (stamped (swapped p) t0 t1)"
    have "ping_pong t0 t1 p = Some (XDP_TX, ?q)"
      using \<open>udp_frame p\<close> False by (simp add: ping_pong_def with_udp_eq mem_simps)
    moreover have "le64 ?q 42 = t0" "le64 ?q 50 = t1" "length ?q = length p"
      using False by (simp_all add: mem_simps stamped_times)
    moreover have "get_bytes ?q off n = get_bytes p off n" if "58 \<le> off" "off + n \<le> length p" for off n
      using False that by (simp add: mem_simps)
    ultimately show ?thesis
      using \<open>udp_frame p\<close> False len
      by (intro exI [of _ XDP_TX] exI [of _ ?q]) (auto simp: mem_simps swapped_fields)
  qed
qed (simp add: ping_pong_def with_udp_eq)

theorem ping_pong_reply_witness:
  "\<exists>q. ping_pong 5 9 (job_of (replicate 256 3)) = Some (XDP_TX, q) \<and> le64 q 42 = 5"
proof -
  have "udp_frame (job_of (replicate 256 3))"
    using job_frame_job [of "replicate 256 3"] by (simp add: job_frame_def)
  then show ?thesis
    using ping_pong_reply [of 5 9 "job_of (replicate 256 3)"] by auto
qed

text \<open>
  The untimed ping-pong (and \<open>fw_back\<close>, \<open>fw_back_ov\<close>, which do the same) is an involution on every
  frame: what two hosts running it send each other is the original packet again, with its checksum still valid
  if it was.
\<close>

theorem ping_pong_no_t_involution:
  "\<exists>a q. ping_pong_no_t p = Some (a, q) \<and> ping_pong_no_t q = Some (a, p) \<and> fw_back p = Some (a, q) \<and>
    fw_back_ov t p = Some (a, q) \<and> (a = XDP_TX \<longleftrightarrow> udp_frame p) \<and>
    (udp_frame p \<longrightarrow> csum_valid q 14 34 = csum_valid p 14 34)"
proof (cases "udp_frame p")
  case True
  then have "42 \<le> length p"
    by (simp add: udp_frame_def)
  then show ?thesis
    using True
    by (simp add: fw_back_eq ping_pong_no_t_def with_udp_eq mem_simps swapped_swapped csum_valid_def csum_total_swapped)
qed (simp add: fw_back_eq ping_pong_no_t_def with_udp_eq)

theorem ping_pong_no_t_involution_witness:
  "\<exists>q. ping_pong_no_t carry_frame = Some (XDP_TX, q) \<and> ping_pong_no_t q = Some (XDP_TX, carry_frame)"
proof -
  have "udp_frame carry_frame"
    by (simp add: udp_frame_def carry_frame_list)
  then show ?thesis
    using ping_pong_no_t_involution [of carry_frame 0] by auto
qed

lemma sdbm_append: "sdbm (bs @ [b]) = scast b + 65599 * sdbm bs"
  by (simp add: sdbm_def push_bit_eq_mult algebra_simps)

text \<open>
  \<open>sdbm\<close> is the polynomial hash of base 65599 over the bytes (as signed numbers), modulo \<open>2^32\<close>:
  the two shifts and the subtraction multiply by \<open>2^6 + 2^16 - 1\<close>.
\<close>

theorem sdbm_polynomial:
  "sdbm bs = (\<Sum>i<length bs. scast (bs ! i) * 65599 ^ (length bs - 1 - i))"
proof (induction bs rule: rev_induct)
  case Nil
  then show ?case by (simp add: sdbm_def)
next
  case (snoc b bs)
  have "(\<Sum>i<length bs. scast ((bs @ [b]) ! i) * 65599 ^ (length bs - i)) =
      65599 * (\<Sum>i<length bs. scast (bs ! i) * 65599 ^ (length bs - 1 - i) :: u32)"
    unfolding sum_distrib_left
  proof (rule sum.cong)
    fix i assume "i \<in> {..<length bs}"
    then have "length bs - i = Suc (length bs - 1 - i)" "(bs @ [b]) ! i = bs ! i"
      by (auto simp: nth_append)
    then show "scast ((bs @ [b]) ! i) * 65599 ^ (length bs - i) =
        65599 * (scast (bs ! i) * 65599 ^ (length bs - 1 - i) :: u32)"
      by (simp add: algebra_simps)
  qed simp
  then show ?case
    by (simp add: sdbm_append snoc.IH add.commute)
qed

text \<open>
  With the configured \<open>NR_RX = 1\<close> the load balancer puts every packet on queue 0, whatever its source address
  hashes to, and writes the two times without a new checksum.
\<close>

theorem loadbalancing_queue_0:
  "loadbalancing t0 t1 p q = Some
     (if udp_frame p \<and> 58 \<le> length p then (XDP_PASS, stamped p t0 t1, 0) else (XDP_PASS, p, q))"
proof -
  have "c_rem v 1 = 0" for v
    by (simp add: c_rem_dvd)
  then show ?thesis
    by (simp add: loadbalancing_def with_udp_eq NR_RX_def mem_simps udp_frame_def)
qed

text \<open>
  \<open>baseline\<close> and \<open>ktime_call\<close> pass every frame up the stack; a UDP frame with room for them carries the two
  times given, keeps all other bytes but the checksum, and its checksum is the right one unless the fold of the
  sum carries.
\<close>

theorem baseline_packet:
  "\<exists>q. baseline t0 t1 p = Some (XDP_PASS, q) \<and> ktime_call t0 t1 p = Some (XDP_PASS, q) \<and>
    (if udp_frame p \<and> 58 \<le> length p
     then le64 q 42 = t0 \<and> le64 q 50 = t1 \<and> get_bytes q 0 40 = get_bytes p 0 40 \<and>
       get_bytes q 58 (length p - 58) = get_bytes p 58 (length p - 58) \<and>
       (csum_valid q 14 34 \<longleftrightarrow> (let s = csum_base (stamped p t0 t1) in s mod 65536 + s div 65536 < 65536))
     else q = p)"
proof (cases "udp_frame p \<and> 58 \<le> length p")
  case True
  let ?q = "refreshed (stamped p t0 t1)"
  have b: "baseline t0 t1 p = Some (XDP_PASS, ?q)"
    using True by (simp add: baseline_def with_udp_eq mem_simps)
  have s: "42 \<le> length (stamped p t0 t1)"
    using True by (simp add: mem_simps)
  have c: "csum_valid ?q 14 34 \<longleftrightarrow>
      csum_base (stamped p t0 t1) mod 65536 + csum_base (stamped p t0 t1) div 65536 < 65536"
    using refresh_csum_correct [OF s] by (simp add: refresh_csum_in [OF s])
  show ?thesis
    using True b c by (intro exI [of _ ?q]) (simp add: ktime_call_eq mem_simps stamped_times Let_def)
next
  case False
  then show ?thesis
    by (auto simp: ktime_call_eq baseline_def with_udp_eq mem_simps udp_frame_def)
qed

theorem baseline_packet_witness:
  "\<exists>q. baseline 5 9 (job_of (replicate 256 3)) = Some (XDP_PASS, q) \<and> le64 q 50 = 9"
proof -
  have "udp_frame (job_of (replicate 256 3))"
    using job_frame_job [of "replicate 256 3"] by (simp add: job_frame_def)
  then show ?thesis
    using baseline_packet [of 5 9 "job_of (replicate 256 3)"] by auto
qed

end
