(* ===== verification/Xdp_Race.thy ===== *)
theory Xdp_Race
  imports Xdp_Steps
begin

text \<open>
  The packet count when several cores run a batch program at the same time (one receive queue per
  core, one shared \<open>rxpkt\<close>).  \<open>__sync_fetch_and_add(nr_pkt, 1)\<close> is atomic, but the test \<open>*nr_pkt % 1024 == 0\<close>
  reads the value again, after other cores may have added to it.  A step relation interleaves these two
  accesses of the packets in flight.
\<close>

section \<open>The step relation\<close>

datatype pc = Arrived | Added | Finished bool

record race =
  cnt :: u32
  cores :: "pc list"

text \<open>\<open>Finished b\<close>: the packet left the program, sent back if \<open>b\<close>.\<close>

inductive race_step :: "race \<Rightarrow> race \<Rightarrow> bool" where
  race_add: "i < length (cores s) \<Longrightarrow> cores s ! i = Arrived \<Longrightarrow>
    race_step s \<lparr>cnt = cnt s + 1, cores = (cores s)[i := Added]\<rparr>"
| race_reread: "i < length (cores s) \<Longrightarrow> cores s ! i = Added \<Longrightarrow>
    race_step s \<lparr>cnt = cnt s, cores = (cores s)[i := Finished (c_rem (cnt s) (int (MiB div TOT_SIZE_B)) = 0)]\<rparr>"

code_pred race_step .

inductive_cases race_stepE: "race_step s t"

definition race_start :: "u32 \<Rightarrow> nat \<Rightarrow> race" where
  "race_start n0 k = \<lparr>cnt = n0, cores = replicate k Arrived\<rparr>"

abbreviation race_reaches :: "race \<Rightarrow> race \<Rightarrow> bool" where
  "race_reaches \<equiv> race_step\<^sup>*\<^sup>*"

definition race_final :: "race \<Rightarrow> bool" where
  "race_final s \<longleftrightarrow> Arrived \<notin> set (cores s) \<and> Added \<notin> set (cores s)"

lemma reread_notifies: "c_rem n (int (MiB div TOT_SIZE_B)) = 0 \<longleftrightarrow> notifies n"
  by (simp add: const_defs c_rem_1024)

section \<open>Invariants\<close>

definition counted_cores :: "race \<Rightarrow> nat" where
  "counted_cores s = length (filter (\<lambda>p. p \<noteq> Arrived) (cores s))"

lemma filter_update_length:
  assumes "i < length xs"
  shows "length (filter P (xs[i := y])) + (if P (xs ! i) then 1 else 0) = length (filter P xs) + (if P y then 1 else 0)"
  using assms
proof (induction xs arbitrary: i)
  case Nil
  then show ?case by simp
next
  case (Cons x xs)
  then show ?case by (cases i) auto
qed

text \<open>No addition is lost: the count is the start plus the packets that have added.\<close>

lemma race_count:
  assumes "race_reaches (race_start n0 k) s"
  shows "cnt s = n0 + of_nat (counted_cores s) \<and> length (cores s) = k"
  using assms
proof (induction rule: rtranclp_induct)
  case base
  then show ?case by (simp add: race_start_def counted_cores_def)
next
  case (step s t)
  from step.hyps(2) show ?case
  proof (cases rule: race_step.cases)
    case (race_add i)
    then have "counted_cores t = counted_cores s + 1"
      using filter_update_length [of i "cores s" "\<lambda>p. p \<noteq> Arrived" Added] by (simp add: counted_cores_def)
    then show ?thesis
      using step.IH race_add by (simp add: add.assoc)
  next
    case (race_reread i)
    then have "counted_cores t = counted_cores s"
      using filter_update_length [of i "cores s" "\<lambda>p. p \<noteq> Arrived"
          "Finished (c_rem (cnt s) (int (MiB div TOT_SIZE_B)) = 0)"]
      by (simp add: counted_cores_def)
    then show ?thesis
      using step.IH race_reread by simp
  qed
qed

text \<open>Once all have added, the last one still has to look or has seen the final count.\<close>

lemma race_last:
  assumes "race_reaches (race_start n0 k) s" "Arrived \<notin> set (cores s)"
  shows "cores s = [] \<or> Added \<in> set (cores s) \<or> Finished (notifies (cnt s)) \<in> set (cores s)"
  using assms
proof (induction rule: rtranclp_induct)
  case base
  then show ?case by (auto simp: race_start_def)
next
  case (step s t)
  from step.hyps(2) show ?case
  proof (cases rule: race_step.cases)
    case (race_add i)
    then show ?thesis
      by (auto simp: set_update_memI)
  next
    case (race_reread i)
    then show ?thesis
      by (auto simp: reread_notifies set_update_memI)
  qed
qed

section \<open>Properties\<close>

text \<open>
  Under every interleaving of the cores' additions and tests the count is exact: when all \<open>k\<close> packets have left
  the program it is the start plus \<open>k\<close>; and if that total is a multiple of 1024 at least one packet was sent back.
\<close>

theorem race_exact:
  assumes "race_reaches (race_start n0 k) s" "race_final s"
  shows "cnt s = n0 + of_nat k \<and> (0 < k \<and> notifies (cnt s) \<longrightarrow> Finished True \<in> set (cores s))"
proof -
  have "filter (\<lambda>p. p \<noteq> Arrived) (cores s) = cores s"
    using assms(2) by (auto simp: race_final_def filter_id_conv)
  then have "cnt s = n0 + of_nat k" "length (cores s) = k"
    using race_count [OF assms(1)] by (auto simp: counted_cores_def)
  moreover have "cores s = [] \<or> Finished (notifies (cnt s)) \<in> set (cores s)"
    using race_last [OF assms(1)] assms(2) by (auto simp: race_final_def)
  ultimately show ?thesis by auto
qed

lemma race_two_steps:
  "race_reaches (race_start n 2) \<lparr>cnt = n + 2, cores = [Finished (notifies (n + 2)), Finished (notifies (n + 2))]\<rparr>"
proof -
  have a: "race_step (race_start n 2) \<lparr>cnt = n + 1, cores = [Added, Arrived]\<rparr>"
    using race_add [of 0 "race_start n 2"] by (simp add: race_start_def numeral_2_eq_2)
  have b: "race_step \<lparr>cnt = n + 1, cores = [Added, Arrived]\<rparr> \<lparr>cnt = n + 2, cores = [Added, Added]\<rparr>"
    using race_add [of 1 "\<lparr>cnt = n + 1, cores = [Added, Arrived]\<rparr>"] by (simp add: add.assoc)
  have c: "race_step \<lparr>cnt = n + 2, cores = [Added, Added]\<rparr> \<lparr>cnt = n + 2, cores = [Finished (notifies (n + 2)), Added]\<rparr>"
    using race_reread [of 0 "\<lparr>cnt = n + 2, cores = [Added, Added]\<rparr>"] by (simp add: reread_notifies)
  have d: "race_step \<lparr>cnt = n + 2, cores = [Finished (notifies (n + 2)), Added]\<rparr>
      \<lparr>cnt = n + 2, cores = [Finished (notifies (n + 2)), Finished (notifies (n + 2))]\<rparr>"
    using race_reread [of 1 "\<lparr>cnt = n + 2, cores = [Finished (notifies (n + 2)), Added]\<rparr>"]
    by (simp add: reread_notifies)
  from a b c d show ?thesis
    by (meson converse_rtranclp_into_rtranclp rtranclp.rtrancl_refl)
qed

theorem race_exact_witness:
  "\<exists>s. race_reaches (race_start 1022 2) s \<and> race_final s \<and> cnt s = 1024 \<and> Finished True \<in> set (cores s)"
proof -
  let ?s = "\<lparr>cnt = 1024, cores = [Finished (notifies 1024), Finished (notifies 1024)]\<rparr> :: race"
  have r: "race_reaches (race_start 1022 2) ?s"
    using race_two_steps [of 1022] by simp
  moreover have f: "race_final ?s"
    by (simp add: race_final_def)
  ultimately show ?thesis
    using race_exact [OF r f] by (intro exI [of _ ?s]) (simp add: notifies_def)
qed

text \<open>
  C8: the notification itself is not exact: with two packets in flight the answer for the 1024th packet can be
  sent by nobody (start 1023: both cores test the count 1025) or twice (start 1022: both test 1024).
\<close>

theorem race_lost_and_doubled:
  "(\<exists>s. race_reaches (race_start 1023 2) s \<and> race_final s \<and> cores s = [Finished False, Finished False]) \<and>
   (\<exists>s. race_reaches (race_start 1022 2) s \<and> race_final s \<and> cores s = [Finished True, Finished True])"
  using race_two_steps [of 1023] race_two_steps [of 1022]
  by (auto simp: notifies_def race_final_def)

end
