(* ===== verification/Dpdk_Env.thy ===== *)
theory Dpdk_Env
  imports Xdp_Steps
begin

text \<open>
  What the DPDK programs of \<open>src/dpdk\<close> share: packet buffers, the atomics, the header checks and the swap, the
  latency log, and the two shapes of a poll in \<open>lcore_main\<close>: \<open>batch_poll\<close> (aggregate, reduce, histogram,
  copy, filter: count the packets, now and then send the first buffer back, free all) and
  \<open>forward_poll\<close> (ping-pong, kvstore, zuc: answer in place, send, free what was not sent).

  The DPDK libraries are not code of the repository: what their calls return is input of the model.
  A \<open>poll_env\<close> holds what one poll of a port gets from them; the polls until \<open>force_quit\<close> is seen are a list.
\<close>

section \<open>Buffers and environment\<close>

text \<open>
  A packet buffer: its identity, and its data room from the start of the packet
  (\<open>rte_pktmbuf_mtod\<close>).  The programs never look at the packet's length.
\<close>

record mbuf =
  mid :: nat
  room :: bytes

record poll_env =
  rx :: "mbuf list"
  rx_time :: u64
  now :: u64
  file_ok :: bool
  taken :: nat

text \<open>
  \<open>Tx_burst ms k\<close>: the buffers \<open>ms\<close> were offered to the driver, which took the first \<open>k\<close>.  \<open>Log l\<close>: a
  line of the benchmark file.
\<close>

datatype dpdk_event = Tx_burst "mbuf list" nat | Pktmbuf_free nat | Log u64

text \<open>\<open>rte_exit\<close> and \<open>exit(1)\<close> end the process.\<close>

datatype exit_reason = Wrong_key | No_file | Cannot_add

record 'a dpdk =
  app :: 'a
  pkt_rec :: u32
  per_lcore_cycles :: u64
  events :: "dpdk_event list"

definition emit :: "dpdk_event list \<Rightarrow> 'a dpdk \<Rightarrow> 'a dpdk" where
  "emit es st = st\<lparr>events := events st @ es\<rparr>"

section \<open>Atomics\<close>

text \<open>An array of \<open>rte_atomic32_t\<close> (or of pointers to them); an index past its end is undefined.\<close>

definition atomic32_read :: "u32 list \<Rightarrow> nat \<Rightarrow> u32 option" where
  "atomic32_read xs i = (if i < length xs then Some (xs ! i) else None)"

definition atomic32_set :: "u32 list \<Rightarrow> nat \<Rightarrow> u32 \<Rightarrow> u32 list option" where
  "atomic32_set xs i v = (if i < length xs then Some (xs[i := v]) else None)"

definition atomic32_add :: "u32 list \<Rightarrow> nat \<Rightarrow> u32 \<Rightarrow> u32 list option" where
  "atomic32_add xs i d = (if i < length xs then Some (xs[i := xs ! i + d]) else None)"

definition atomic32_put :: "u32 list \<Rightarrow> nat \<Rightarrow> u32 \<Rightarrow> u32 list" where
  "atomic32_put xs i v = xs[i := v]"

text \<open>Such an array is a \<^const>\<open>cell_array\<close>, like the array maps of the XDP programs.\<close>

interpretation atomics: cell_array atomic32_read atomic32_put
  by unfold_locales (auto simp: atomic32_read_def atomic32_put_def fun_eq_iff split: if_splits)

lemma atomic32_add_eq:
  "i < length xs \<Longrightarrow> atomic32_add xs i d = Some (cell_add atomic32_read atomic32_put i d xs)"
  by (simp add: atomic32_add_def cell_add_def atomic32_read_def atomic32_put_def)

lemma length_cell_add [simp]: "length (cell_add atomic32_read atomic32_put i d xs) = length xs"
  by (simp add: cell_add_def atomic32_put_def split: option.split)

lemma length_fold_cell_add [simp]:
  "length (fold (\<lambda>x. cell_add atomic32_read atomic32_put (i x) (d x)) ys xs) = length xs"
  by (induction ys arbitrary: xs) auto

lemma nth_fold_cell_add:
  assumes "j < length xs"
  shows "fold (\<lambda>x. cell_add atomic32_read atomic32_put (i x) (d x)) ys xs ! j =
    xs ! j + (\<Sum>x\<leftarrow>filter (\<lambda>x. i x = j) ys. d x)"
  using atomics.get_fold_add [of i d ys xs j] assms by (simp add: atomic32_read_def)

section \<open>Headers\<close>

text \<open>
  \<open>rte_cpu_to_be_16(eth_h->ether_type) != RTE_ETHER_TYPE_IPV4\<close> skips the packet (\<^const>\<open>None\<close>); otherwise the payload
  size as \<open>uint16_t\<close>.  Nothing checks that the packet is UDP.
\<close>

definition ipv4_payload_size :: "bytes \<Rightarrow> u16 option option" where
  "ipv4_payload_size d = do {
     ether_type \<leftarrow> rd16 d 12;
     if ntohs ether_type \<noteq> 0x0800 then Some None
     else do { dgram_len \<leftarrow> rd16 d (udp_off + 4); Some (Some (ntohs dgram_len - 8)) }
   }"

text \<open>Swap Ethernet, then IP addresses, then ports.\<close>

definition dpdk_swap :: "bytes \<Rightarrow> bytes option" where
  "dpdk_swap d = do {
     eth_mem \<leftarrow> rd_bytes d 0 6;
     src_addr \<leftarrow> rd_bytes d 6 6;
     d \<leftarrow> wr_bytes d 0 src_addr;
     d \<leftarrow> wr_bytes d 6 eth_mem;
     ip_mem \<leftarrow> rd32 d (ip_off + 16);
     saddr \<leftarrow> rd32 d (ip_off + 12);
     d \<leftarrow> wr32 d (ip_off + 16) saddr;
     d \<leftarrow> wr32 d (ip_off + 12) ip_mem;
     udp_mem \<leftarrow> rd16 d (udp_off + 2);
     src_port \<leftarrow> rd16 d udp_off;
     d \<leftarrow> wr16 d (udp_off + 2) src_port;
     wr16 d udp_off udp_mem
   }"

lemma dpdk_swap_in:
  assumes "42 \<le> length d"
  shows "dpdk_swap d = Some (swapped d)"
proof -
  have "dpdk_swap d = Some (put_bytes (put_bytes (put_bytes (put_bytes (put_bytes (put_bytes d
      0 (get_bytes d 6 6)) 6 (get_bytes d 0 6)) 30 (get_bytes d 26 4)) 26 (get_bytes d 30 4))
      36 (get_bytes d 34 2)) 34 (get_bytes d 36 2))"
    using assms by (simp add: dpdk_swap_def mem_simps)
  also have "\<dots> = Some (swapped d)"
    using assms
    by (intro arg_cong [where f = Some] bytes_eqI)
       (auto simp: nth_put_bytes nth_get_bytes mem_simps nth_swapped swap_perm_def add.commute numeral_2_eq_2)
  finally show ?thesis .
qed

text \<open>A frame the programs work on.\<close>

definition dpdk_frame :: "bytes \<Rightarrow> bool" where
  "dpdk_frame d \<longleftrightarrow> le16 d 12 = 8 \<and> ntohs (le16 d 38) - 8 = 1024"

lemma ether_type_ipv4: "ntohs w = 0x0800 \<longleftrightarrow> w = 8"
proof -
  have "ntohs 0x0800 = 8"
    by (simp add: ntohs_def)
  then show ?thesis
    using ntohs_eq_iff [of w "0x0800"] by simp
qed

lemma ipv4_payload_size_in:
  assumes "42 \<le> length d"
  shows "\<exists>r. ipv4_payload_size d = Some r \<and> (r = Some 1024 \<longleftrightarrow> dpdk_frame d)"
  using assms by (simp add: ipv4_payload_size_def dpdk_frame_def mem_simps ether_type_ipv4)

section \<open>The latency log\<close>

text \<open>
  \<open>rx_latency\<close>, called when a burst is received, remembers the cycle counter of the lcore; \<open>calc_latency\<close> writes
  the time since then, divided by the number of packets, once for every packet.  \<open>scale\<close> is the conversion to
  nanoseconds in floating point.
\<close>

definition rx_latency :: "u64 \<Rightarrow> 'a dpdk \<Rightarrow> 'a dpdk" where
  "rx_latency t st = st\<lparr>per_lcore_cycles := t\<rparr>"

definition calc_latency :: "(u64 \<Rightarrow> u64) \<Rightarrow> poll_env \<Rightarrow> u16 \<Rightarrow> 'a dpdk \<Rightarrow> exit_reason + 'a dpdk" where
  "calc_latency scale env nb_pkts st =
     (let latency = scale (now env - per_lcore_cycles st) in
      if \<not> file_ok env then Inl No_file
      else Inr (emit (replicate (unat nb_pkts) (Log (latency div ucast nb_pkts))) st))"

section \<open>Processing a burst\<close>

type_synonym 'a packet_work = "bytes \<Rightarrow> 'a \<Rightarrow> (exit_reason + bytes \<times> 'a) option"

text \<open>
  The \<open>for\<close> loop over the received packets: those that pass the checks are worked on, in place, and
  counted in a \<open>uint16_t\<close>.
\<close>

definition burst_loop :: "'a packet_work \<Rightarrow> mbuf list \<Rightarrow> 'a \<Rightarrow> (exit_reason + mbuf list \<times> 'a \<times> u16) option" where
  "burst_loop work ms a =
     for_each_ret (\<lambda>m (done_bufs, a, nb). do {
       size \<leftarrow> ipv4_payload_size (room m);
       if size \<noteq> Some (of_nat TOT_SIZE_B) then Some (Inr (done_bufs @ [m], a, nb))
       else do {
         r \<leftarrow> work (room m) a;
         case r of
           Inl x \<Rightarrow> Some (Inl x)
         | Inr (d, a) \<Rightarrow> Some (Inr (done_bufs @ [m\<lparr>room := d\<rparr>], a, nb + 1))
       }
     }) ms ([], a, 0)"

text \<open>
  The reply of a batch program, when the number of packets is a multiple of \<open>MiB/TOT_SIZE_B\<close>: \<open>bufs[0]\<close> is
  turned around in place and offered to the driver.
\<close>

definition send_first :: "(bytes \<Rightarrow> bytes option) \<Rightarrow> nat \<Rightarrow> mbuf list \<Rightarrow> 'a dpdk \<Rightarrow> (mbuf list \<times> 'a dpdk) option" where
  "send_first fixup k bufs st =
     (if c_rem (pkt_rec st) (int (MiB div TOT_SIZE_B)) = 0 then do {
        d \<leftarrow> dpdk_swap (room (hd bufs));
        d \<leftarrow> fixup d;
        let bufs = bufs[0 := (hd bufs)\<lparr>room := d\<rparr>];
        Some (bufs, emit [Tx_burst (take 1 bufs) k] st)
      }
      else Some (bufs, st))"

text \<open>
  One poll of a batch program.  \<open>timed\<close>: the variant that logs latencies.  \<open>fixup\<close>: what is done to the reply after
  the swap (copy from host recomputes its checksum).
\<close>

definition batch_poll :: "bool \<Rightarrow> 'a packet_work \<Rightarrow> (bytes \<Rightarrow> bytes option) \<Rightarrow> (u64 \<Rightarrow> u64) \<Rightarrow> poll_env \<Rightarrow> 'a dpdk \<Rightarrow>
    (exit_reason + 'a dpdk) option" where
  "batch_poll timed work fixup scale env st = (
     let st = (if timed then rx_latency (rx_time env) st else st) in
     if rx env = [] then Some (Inr st)
     else do {
       r \<leftarrow> burst_loop work (rx env) (app st);
       case r of
         Inl x \<Rightarrow> Some (Inl x)
       | Inr (bufs, a, nb_mng_rx) \<Rightarrow> (
           let st = st\<lparr>app := a, pkt_rec := pkt_rec st + ucast nb_mng_rx\<rparr> in
           case (if timed \<and> nb_mng_rx \<noteq> 0 then calc_latency scale env nb_mng_rx st else Inr st) of
             Inl x \<Rightarrow> Some (Inl x)
           | Inr st \<Rightarrow> do {
               (bufs, st) \<leftarrow> send_first fixup (taken env) bufs st;
               Some (Inr (emit (map (\<lambda>m. Pktmbuf_free (mid m)) bufs) st))
             })
     })"

text \<open>
  One poll of a forwarding program: \<open>rte_eth_tx_burst(port, q, bufs, nb_tx)\<close> takes the first \<open>taken\<close> of the first
  \<open>nb_tx\<close> buffers (and, in the timed variants, calls \<open>calc_latency\<close> first); the rest is freed.
\<close>

definition forward_poll :: "bool \<Rightarrow> 'a packet_work \<Rightarrow> (u64 \<Rightarrow> u64) \<Rightarrow> poll_env \<Rightarrow> 'a dpdk \<Rightarrow> (exit_reason + 'a dpdk) option" where
  "forward_poll timed work scale env st = (
     let st = (if timed then rx_latency (rx_time env) st else st) in
     if rx env = [] then Some (Inr st)
     else do {
       r \<leftarrow> burst_loop work (rx env) (app st);
       case r of
         Inl x \<Rightarrow> Some (Inl x)
       | Inr (bufs, a, nb_tx) \<Rightarrow> (
           let st = st\<lparr>app := a\<rparr> in
           case (if timed then calc_latency scale env nb_tx st else Inr st) of
             Inl x \<Rightarrow> Some (Inl x)
           | Inr st \<Rightarrow>
               let st = emit [Tx_burst (take (unat nb_tx) bufs) (taken env)] st;
                   st = (if taken env < length (rx env)
                     then emit (map (\<lambda>m. Pktmbuf_free (mid m)) (drop (taken env) bufs)) st else st)
               in Some (Inr st))
     })"

text \<open>\<open>while(!force_quit) RTE_ETH_FOREACH_DEV(port)\<close>: all polls, in order, until one ends the process.\<close>

definition lcore_loop :: "(poll_env \<Rightarrow> 'a dpdk \<Rightarrow> (exit_reason + 'a dpdk) option) \<Rightarrow> poll_env list \<Rightarrow> 'a dpdk \<Rightarrow>
    (exit_reason + 'a dpdk) option" where
  "lcore_loop poll envs st = for_each_ret poll envs st"

text \<open>\<open>signal_handler\<close>: \<open>SIGINT\<close> and \<open>SIGTERM\<close> set \<open>force_quit\<close>.\<close>

definition signal_handler :: "int \<Rightarrow> bool \<Rightarrow> bool" where
  "signal_handler signum force_quit = (if signum = 2 \<or> signum = 15 then True else force_quit)"

end
