(* ===== verification/Dpdk_Poll.thy ===== *)
theory Dpdk_Poll
  imports Dpdk_Env
begin

text \<open>
  What the polls of \<^theory_text>\<open>Dpdk_Env\<close> do whatever the work on a packet is: which buffers are given back to the
  driver or freed, and, for a work that meets the contract \<open>lcore_job\<close>, the state after a poll and after a run of
  \<open>lcore_main\<close>.
\<close>

section \<open>Bursts\<close>

text \<open>One packet of a burst, when the check of its headers stays inside the buffer.\<close>

definition burst_step :: "'a packet_work \<Rightarrow> mbuf \<Rightarrow> mbuf list \<times> 'a \<times> u16 \<Rightarrow> (exit_reason + mbuf list \<times> 'a \<times> u16) option" where
  "burst_step work m = (\<lambda>(done_bufs, a, nb). do {
     size \<leftarrow> ipv4_payload_size (room m);
     if size \<noteq> Some (of_nat TOT_SIZE_B) then Some (Inr (done_bufs @ [m], a, nb))
     else do {
       r \<leftarrow> work (room m) a;
       case r of
         Inl x \<Rightarrow> Some (Inl x)
       | Inr (d, a) \<Rightarrow> Some (Inr (done_bufs @ [m\<lparr>room := d\<rparr>], a, nb + 1))
     }
   })"

lemma burst_loop_step: "burst_loop work ms a = for_each_ret (burst_step work) ms ([], a, 0)"
  by (simp add: burst_loop_def burst_step_def [abs_def])

text \<open>The loop returns the buffers it was given, in order, and counts at most one packet for each.\<close>

lemma burst_step_mids:
  "burst_step work m (done_bufs, a, nb) = Some (Inr (bufs, b, nb')) \<Longrightarrow>
     map mid bufs = map mid done_bufs @ [mid m] \<and> (nb' = nb \<or> nb' = nb + 1)"
  by (cases "ipv4_payload_size (room m)") (auto simp: burst_step_def bind_Inr_iff split: if_splits)

lemma unat_plus_one_le: "unat (nb + 1 :: u16) \<le> unat nb + 1"
  using unat_plus_simple [of nb 1] by (cases "nb = - 1") (auto simp: unat_word_ariths)

lemma burst_loop_mids:
  assumes "burst_loop work ms a = Some (Inr (bufs, b, nb))"
  shows "map mid bufs = map mid ms" and "unat nb \<le> length ms"
proof -
  have "\<lbrakk>for_each_ret (burst_step work) ms (done_bufs, a, n) = Some (Inr (bufs, b, nb))\<rbrakk> \<Longrightarrow>
      map mid bufs = map mid done_bufs @ map mid ms \<and> unat nb \<le> unat n + length ms" for done_bufs n
  proof (induction ms arbitrary: done_bufs a n)
    case Nil
    then show ?case by simp
  next
    case (Cons m ms)
    then obtain u where u: "burst_step work m (done_bufs, a, n) = Some (Inr u)"
        "for_each_ret (burst_step work) ms u = Some (Inr (bufs, b, nb))"
      unfolding for_each_ret_cases by blast
    obtain done1 a1 n1 where u_eq: "u = (done1, a1, n1)"
      by (cases u)
    have "map mid done1 = map mid done_bufs @ [mid m] \<and> (n1 = n \<or> n1 = n + 1)"
      using burst_step_mids u(1) u_eq by metis
    moreover have "map mid bufs = map mid done1 @ map mid ms \<and> unat nb \<le> unat n1 + length ms"
      using Cons.IH u(2) u_eq by simp
    ultimately show ?case
      using unat_plus_one_le [of n] by auto
  qed
  from this [of "[]" 0] assms show "map mid bufs = map mid ms" "unat nb \<le> length ms"
    by (auto simp: burst_loop_step)
qed

section \<open>Who owns the buffers\<close>

text \<open>The buffers that leave the program by an event: taken by the driver, or freed.\<close>

primrec released1 :: "dpdk_event \<Rightarrow> nat list" where
  "released1 (Tx_burst ms k) = map mid (take k ms)"
| "released1 (Pktmbuf_free i) = [i]"
| "released1 (Log l) = []"

definition released :: "dpdk_event list \<Rightarrow> nat list" where
  "released es = concat (map released1 es)"

lemma released_simps [simp]:
  "released [] = []"
  "released (es @ fs) = released es @ released fs"
  "released (e # es) = released1 e @ released es"
  "released (map (\<lambda>m. Pktmbuf_free (mid m)) ms) = map mid ms"
  "released (replicate n (Log l)) = []"
  by (auto simp: released_def comp_def concat_map_singleton [of "mid", symmetric] simp del: concat_map_singleton)

lemma emit_sel [simp]:
  "events (emit es st) = events st @ es" "app (emit es st) = app st" "pkt_rec (emit es st) = pkt_rec st"
  "per_lcore_cycles (emit es st) = per_lcore_cycles st"
  by (simp_all add: emit_def)

text \<open>\<open>calc_latency\<close> only adds lines to the log.\<close>

lemma calc_latency_cases:
  assumes "(if c then calc_latency scale env n st else Inr st) = Inr st'"
  shows "app st' = app st \<and> pkt_rec st' = pkt_rec st \<and> per_lcore_cycles st' = per_lcore_cycles st \<and>
    (\<exists>k l. events st' = events st @ replicate k (Log l))"
  using assms
  by (cases c) (auto simp: calc_latency_def Let_def split: if_splits intro: exI [where x = 0])

lemma calc_latency_ok:
  assumes "file_ok env"
  shows "\<exists>st'. (if c then calc_latency scale env n st else Inr st) = Inr st'"
  using assms by (simp add: calc_latency_def Let_def)

text \<open>The buffer that a batch poll gives to the driver on top of freeing it.\<close>

definition batch_reply :: "poll_env \<Rightarrow> 'a dpdk \<Rightarrow> nat list" where
  "batch_reply env st = (if 1024 dvd unat (pkt_rec st) then take (taken env) [mid (hd (rx env))] else [])"

lemma reply_due: "c_rem v (int (MiB div TOT_SIZE_B)) = 0 \<longleftrightarrow> 1024 dvd unat v"
  using c_rem_power2 [of 10 v] by (simp add: const_defs)

lemma send_first_released:
  assumes "send_first fixup k bufs st = Some (bufs', st')" "bufs \<noteq> []"
  shows "map mid bufs' = map mid bufs" "app st' = app st" "pkt_rec st' = pkt_rec st"
    and "\<exists>es. events st' = events st @ es \<and>
      released es = (if 1024 dvd unat (pkt_rec st) then take k [mid (hd bufs)] else [])"
  using assms
  by (cases bufs; auto simp: send_first_def bind_Some_iff reply_due Let_def take_Cons' split: if_splits)+

lemma burst_loop_Nil:
  "burst_loop work ms a = Some (Inr (bufs, b, nb)) \<Longrightarrow> ms \<noteq> [] \<Longrightarrow> bufs \<noteq> [] \<and> mid (hd bufs) = mid (hd ms)"
  by (drule burst_loop_mids(1)) (cases bufs; cases ms; auto)

text \<open>
  C5: a poll of a batch program frees every buffer it received exactly once, in order; when its packet count is then a
  multiple of 1024 it has offered the first of them to the driver as well, so that a buffer the driver took is
  released twice.
\<close>

theorem batch_poll_buffers:
  assumes "batch_poll timed work fixup scale env st = Some (Inr st')" "rx env \<noteq> []"
  shows "\<exists>es. events st' = events st @ es \<and>
    released es = batch_reply env st' @ map mid (rx env)"
proof -
  define st0 where "st0 = (if timed then rx_latency (rx_time env) st else st)"
  have events0: "events st0 = events st"
    by (simp add: st0_def rx_latency_def)
  obtain bufs b nb st1 bufs' st2 where
      loop: "burst_loop work (rx env) (app st0) = Some (Inr (bufs, b, nb))"
    and log: "(if timed \<and> nb \<noteq> 0 then calc_latency scale env nb
        (st0\<lparr>app := b, pkt_rec := pkt_rec st0 + ucast nb\<rparr>)
      else Inr (st0\<lparr>app := b, pkt_rec := pkt_rec st0 + ucast nb\<rparr>)) = Inr st1"
    and reply: "send_first fixup (taken env) bufs st1 = Some (bufs', st2)"
    and st': "st' = emit (map (\<lambda>m. Pktmbuf_free (mid m)) bufs') st2"
    using assms(1) [unfolded batch_poll_def, folded st0_def] assms(2)
    by (auto simp: bind_Inr_iff case_Inr_iff Let_def bind_Some_iff st0_def [symmetric])
  show ?thesis
    using calc_latency_cases [OF log] send_first_released [OF reply] burst_loop_mids(1) [OF loop]
      burst_loop_Nil [OF loop assms(2)] events0 st'
    by (auto simp: batch_reply_def)
qed

definition idle_burst :: "nat \<Rightarrow> poll_env" where
  "idle_burst k = \<lparr>rx = [\<lparr>mid = 7, room = replicate 42 0\<rparr>], rx_time = 5, now = 9, file_ok = True, taken = k\<rparr>"

definition skip_work :: "unit packet_work" where
  "skip_work d a = Some (Inr (d, a))"

lemma idle_burst_sel: "rx (idle_burst k) \<noteq> []" "file_ok (idle_burst k)"
  by (simp_all add: idle_burst_def)

lemma burst_loop_idle: "burst_loop work (rx (idle_burst k)) a = Some (Inr (rx (idle_burst k), a, 0))"
proof -
  have "\<not> dpdk_frame (replicate 42 0)"
    by code_simp
  then show ?thesis
    using ipv4_payload_size_in [of "replicate 42 0"]
    by (auto simp: burst_loop_step burst_step_def idle_burst_def const_defs)
qed

theorem batch_poll_buffers_witness:
  "\<exists>st'. batch_poll True skip_work Some id (idle_burst 1) \<lparr>app = (), pkt_rec = 0, per_lcore_cycles = 0, events = []\<rparr> = Some (Inr st') \<and>
     released (events st') = [7, 7]"
proof -
  let ?st = "\<lparr>app = (), pkt_rec = 0, per_lcore_cycles = 0, events = []\<rparr>"
  have room: "length (room (hd (rx (idle_burst 1)))) = 42" and rx: "rx (idle_burst 1) \<noteq> []"
    by (simp_all add: idle_burst_def)
  obtain st' where st': "batch_poll True skip_work Some id (idle_burst 1) ?st = Some (Inr st')" "pkt_rec st' = 0"
    using room rx
    by (auto simp: batch_poll_def burst_loop_idle rx_latency_def send_first_def dpdk_swap_in Let_def const_defs)
  then have "\<exists>es. events st' = events ?st @ es \<and> released es = batch_reply (idle_burst 1) st' @ map mid (rx (idle_burst 1))"
    using batch_poll_buffers [OF st'(1) rx] by simp
  with st' show ?thesis
    by (auto simp: batch_reply_def idle_burst_def)
qed

text \<open>
  C31: a poll of a forwarding program gives every buffer it received back exactly once, in order: to the driver or to
  the pool, when the driver takes at most what it was offered (the contract of \<open>rte_eth_tx_burst\<close>).
\<close>

theorem forward_poll_buffers:
  assumes "forward_poll timed work scale env st = Some (Inr st')"
    and "\<And>bufs b nb. burst_loop work (rx env) (app st) = Some (Inr (bufs, b, nb)) \<Longrightarrow> taken env \<le> unat nb"
  shows "\<exists>es. events st' = events st @ es \<and> released es = map mid (rx env)"
proof (cases "rx env = []")
  case True
  with assms(1) show ?thesis
    by (auto simp: forward_poll_def rx_latency_def intro: exI [where x = "[]"])
next
  case False
  define st0 where "st0 = (if timed then rx_latency (rx_time env) st else st)"
  have st0: "events st0 = events st" "app st0 = app st"
    by (simp_all add: st0_def rx_latency_def)
  obtain bufs b nb st1 where
      loop: "burst_loop work (rx env) (app st0) = Some (Inr (bufs, b, nb))"
    and log: "(if timed then calc_latency scale env nb (st0\<lparr>app := b\<rparr>) else Inr (st0\<lparr>app := b\<rparr>)) = Inr st1"
    and st': "st' = (let st = emit [Tx_burst (take (unat nb) bufs) (taken env)] st1 in
        if taken env < length (rx env) then emit (map (\<lambda>m. Pktmbuf_free (mid m)) (drop (taken env) bufs)) st else st)"
    using assms(1) [unfolded forward_poll_def, folded st0_def] False
    by (auto simp: bind_Inr_iff case_Inr_iff Let_def bind_Some_iff st0_def [symmetric])
  have "taken env \<le> unat nb"
    using assms(2) loop st0 by simp
  then have "map mid (take (min (taken env) (unat nb)) bufs) = take (taken env) (map mid (rx env))"
    using burst_loop_mids(1) [OF loop] by (simp add: min_absorb1 take_map [symmetric] del: take_take)
  moreover have "map mid (drop (taken env) bufs) = drop (taken env) (map mid (rx env))"
    using burst_loop_mids(1) [OF loop] by (simp add: drop_map [symmetric])
  ultimately show ?thesis
    using calc_latency_cases [OF log] burst_loop_mids(1) [OF loop] st0 st'
    by (auto simp: Let_def)
qed

theorem forward_poll_buffers_witness:
  "\<exists>st'. forward_poll True skip_work id (idle_burst 0) \<lparr>app = (), pkt_rec = 0, per_lcore_cycles = 0, events = []\<rparr> = Some (Inr st') \<and>
     released (events st') = [7]"
proof -
  let ?st = "\<lparr>app = (), pkt_rec = 0, per_lcore_cycles = 0, events = []\<rparr>"
  obtain st' where st': "forward_poll True skip_work id (idle_burst 0) ?st = Some (Inr st')"
    using idle_burst_sel [of 0]
    by (auto simp: forward_poll_def burst_loop_idle rx_latency_def calc_latency_def Let_def)
  have "\<exists>es. events st' = events ?st @ es \<and> released es = map mid (rx (idle_burst 0))"
    by (rule forward_poll_buffers [OF st']) (simp add: idle_burst_def)
  with st' show ?thesis
    by (simp add: idle_burst_def)
qed

section \<open>The contract of a packet work\<close>

text \<open>
  A work that never fails on a frame that is in bounds and acceptable (\<open>okay\<close>), while an invariant of the shared
  state (\<open>wf\<close>) holds: it has an \<open>effect\<close> on that state, and leaves \<open>out\<close> in the packet.
\<close>

definition in_bounds :: "poll_env \<Rightarrow> bool" where
  "in_bounds env \<longleftrightarrow> length (rx env) \<le> 64 \<and> (\<forall>m \<in> set (rx env). 1066 \<le> length (room m))"

definition frames :: "poll_env \<Rightarrow> bytes list" where
  "frames env = filter dpdk_frame (map room (rx env))"

definition accepts :: "(bytes \<Rightarrow> bool) \<Rightarrow> poll_env \<Rightarrow> bool" where
  "accepts okay env \<longleftrightarrow> in_bounds env \<and> (\<forall>d \<in> set (frames env). okay d)"

definition burst_answer :: "(bytes \<Rightarrow> 'a \<Rightarrow> bytes) \<Rightarrow> (bytes \<Rightarrow> 'a \<Rightarrow> 'a) \<Rightarrow> mbuf \<Rightarrow> mbuf list \<times> 'a \<times> u16 \<Rightarrow> mbuf list \<times> 'a \<times> u16" where
  "burst_answer out effect m = (\<lambda>(done_bufs, a, nb).
     if dpdk_frame (room m) then (done_bufs @ [m\<lparr>room := out (room m) a\<rparr>], effect (room m) a, nb + 1)
     else (done_bufs @ [m], a, nb))"

locale lcore_job =
  fixes work :: "'a packet_work"
    and wf :: "'a \<Rightarrow> bool"
    and okay :: "bytes \<Rightarrow> bool"
    and out :: "bytes \<Rightarrow> 'a \<Rightarrow> bytes"
    and effect :: "bytes \<Rightarrow> 'a \<Rightarrow> 'a"
  assumes work_ok: "1066 \<le> length d \<Longrightarrow> dpdk_frame d \<Longrightarrow> okay d \<Longrightarrow> wf a \<Longrightarrow>
      work d a = Some (Inr (out d a, effect d a))"
    and effect_wf: "okay d \<Longrightarrow> 1066 \<le> length d \<Longrightarrow> wf a \<Longrightarrow> wf (effect d a)"
    and out_length: "1066 \<le> length d \<Longrightarrow> length (out d a) = length d"
begin

lemma burst_step_ok:
  assumes "1066 \<le> length (room m)" "dpdk_frame (room m) \<Longrightarrow> okay (room m)" "wf (fst (snd u))"
  shows "burst_step work m u = Some (Inr (burst_answer out effect m u))"
proof -
  obtain r where "ipv4_payload_size (room m) = Some r" "r = Some 1024 \<longleftrightarrow> dpdk_frame (room m)"
    using ipv4_payload_size_in [of "room m"] assms(1) by auto
  then show ?thesis
    using assms work_ok by (cases u) (auto simp: burst_step_def burst_answer_def const_defs)
qed

lemma answer_fold:
  "fold (burst_answer out effect) ms (done_bufs, a, nb) = (bufs, b, nb') \<Longrightarrow>
     b = fold effect (filter dpdk_frame (map room ms)) a \<and>
     nb' = nb + of_nat (length (filter dpdk_frame (map room ms)))"
  by (induction ms arbitrary: done_bufs a nb) (fastforce simp: burst_answer_def add.assoc split: if_splits)+

lemma burst_loop_ok:
  assumes "\<forall>m \<in> set ms. 1066 \<le> length (room m) \<and> (dpdk_frame (room m) \<longrightarrow> okay (room m))" "wf a"
  shows "burst_loop work ms a = Some (Inr (fold (burst_answer out effect) ms ([], a, 0)))"
proof -
  have "wf (fst (snd u)) \<Longrightarrow> for_each_ret (burst_step work) ms u = Some (Inr (fold (burst_answer out effect) ms u))" for u
    using assms(1)
  proof (induction ms arbitrary: u)
    case Nil
    then show ?case by simp
  next
    case (Cons m ms)
    have "wf (fst (snd (burst_answer out effect m u)))"
      using Cons.prems effect_wf by (cases u) (auto simp: burst_answer_def)
    then show ?case
      using Cons burst_step_ok [of m u] by simp
  qed
  from this [of "([], a, 0)"] assms(2) show ?thesis
    by (simp add: burst_loop_step)
qed

lemma fold_wf:
  "\<forall>d \<in> set ds. 1066 \<le> length d \<and> okay d \<Longrightarrow> wf a \<Longrightarrow> wf (fold effect ds a)"
  by (induction ds arbitrary: a) (auto simp: effect_wf)

lemma answer_rooms:
  assumes "fold (burst_answer out effect) ms (done_bufs, a, nb) = (bufs, b, nb')"
    "\<forall>m \<in> set ms \<union> set done_bufs. 1066 \<le> length (room m)"
  shows "\<forall>m \<in> set bufs. 1066 \<le> length (room m)"
  using assms
proof (induction ms arbitrary: done_bufs a nb)
  case Nil
  then show ?case by simp
next
  case (Cons m ms)
  obtain done1 a1 n1 where u: "burst_answer out effect m (done_bufs, a, nb) = (done1, a1, n1)"
    by (cases "burst_answer out effect m (done_bufs, a, nb)")
  then have "\<forall>m \<in> set ms \<union> set done1. 1066 \<le> length (room m)"
    using Cons.prems(2) by (auto simp: burst_answer_def out_length split: if_splits)
  then show ?case
    using Cons.IH [of done1 a1 n1] Cons.prems(1) u by simp
qed

lemma burst_ok:
  assumes "accepts okay env" "wf a"
  shows "\<exists>bufs nb. burst_loop work (rx env) a = Some (Inr (bufs, fold effect (frames env) a, nb)) \<and>
    (\<forall>m \<in> set bufs. 1066 \<le> length (room m)) \<and> nb = of_nat (length (frames env)) \<and> length (frames env) \<le> 64"
proof -
  obtain bufs b nb where u: "fold (burst_answer out effect) (rx env) ([], a, 0) = (bufs, b, nb)"
    by (cases "fold (burst_answer out effect) (rx env) ([], a, 0)")
  have "length (frames env) \<le> 64"
    using assms(1) length_filter_le [of dpdk_frame "map room (rx env)"]
    by (simp add: accepts_def in_bounds_def frames_def del: length_filter_le)
  moreover have "b = fold effect (frames env) a" "nb = of_nat (length (frames env))"
    using answer_fold [OF u] by (simp_all add: frames_def)
  moreover have "\<forall>m \<in> set bufs. 1066 \<le> length (room m)"
    using answer_rooms [OF u] assms(1) by (simp add: accepts_def in_bounds_def)
  moreover have "burst_loop work (rx env) a = Some (Inr (bufs, b, nb))"
    using burst_loop_ok [of "rx env" a] assms u by (auto simp: accepts_def in_bounds_def frames_def)
  ultimately show ?thesis
    by auto
qed

text \<open>A poll of a batch program on a burst it accepts: every frame takes effect and is counted.\<close>

lemma batch_poll_ok:
  assumes "accepts okay env" "wf (app st)" "file_ok env"
    and fixup: "\<And>d. 42 \<le> length d \<Longrightarrow> \<exists>d'. fixup d = Some d'"
  shows "\<exists>st'. batch_poll timed work fixup scale env st = Some (Inr st') \<and>
    app st' = fold effect (frames env) (app st) \<and> pkt_rec st' = pkt_rec st + of_nat (length (frames env))"
proof (cases "rx env = []")
  case True
  then show ?thesis
    by (simp add: batch_poll_def rx_latency_def frames_def)
next
  case False
  define st0 where "st0 = (if timed then rx_latency (rx_time env) st else st)"
  have st0: "app st0 = app st" "pkt_rec st0 = pkt_rec st"
    by (simp_all add: st0_def rx_latency_def)
  obtain bufs nb where loop: "burst_loop work (rx env) (app st0) = Some (Inr (bufs, fold effect (frames env) (app st), nb))"
    and rooms: "\<forall>m \<in> set bufs. 1066 \<le> length (room m)" and nb: "nb = of_nat (length (frames env))"
    and small: "length (frames env) \<le> 64"
    using burst_ok [OF assms(1,2)] st0 by auto
  have "bufs \<noteq> []"
    using burst_loop_Nil [OF loop False] by simp
  then have hd: "42 \<le> length (room (hd bufs))"
    using rooms by (cases bufs) auto
  define st1 where "st1 = st0\<lparr>app := fold effect (frames env) (app st), pkt_rec := pkt_rec st0 + ucast nb\<rparr>"
  obtain st2 where log: "(if timed \<and> nb \<noteq> 0 then calc_latency scale env nb st1 else Inr st1) = Inr st2"
    using calc_latency_ok [OF assms(3)] by metis
  obtain d where "fixup (swapped (room (hd bufs))) = Some d"
    using fixup hd by fastforce
  then have "send_first fixup (taken env) bufs st2 \<noteq> None"
    using dpdk_swap_in [OF hd] by (simp add: send_first_def Let_def)
  then obtain bufs' st3 where reply: "send_first fixup (taken env) bufs st2 = Some (bufs', st3)"
    by auto
  have "batch_poll timed work fixup scale env st = Some (Inr (emit (map (\<lambda>m. Pktmbuf_free (mid m)) bufs') st3))"
    using False loop log reply
    by (simp add: batch_poll_def st0_def [symmetric] st1_def [symmetric])
  moreover have "ucast nb = (of_nat (length (frames env)) :: u32)"
    using nb small by (simp add: word_unat_eq_iff unat_ucast_u16 unat_of_nat take_bit_nat_eq_self)
  ultimately show ?thesis
    using calc_latency_cases [OF log] send_first_released(2,3) [OF reply \<open>bufs \<noteq> []\<close>] st0
    by (simp add: st1_def)
qed

text \<open>A run of a batch program: its packet count and its effect are those of the frames of all bursts, in order.\<close>

lemma batch_run:
  assumes "\<forall>env \<in> set envs. accepts okay env \<and> file_ok env" "wf (app st)"
    and fixup: "\<And>d. 42 \<le> length d \<Longrightarrow> \<exists>d'. fixup d = Some d'"
  shows "\<exists>st'. lcore_loop (batch_poll timed work fixup scale) envs st = Some (Inr st') \<and>
    app st' = fold effect (concat (map frames envs)) (app st) \<and>
    pkt_rec st' = pkt_rec st + of_nat (length (concat (map frames envs)))"
  using assms(1,2)
proof (induction envs arbitrary: st)
  case Nil
  then show ?case by (simp add: lcore_loop_def)
next
  case (Cons env envs)
  obtain st1 where st1: "batch_poll timed work fixup scale env st = Some (Inr st1)"
      "app st1 = fold effect (frames env) (app st)" "pkt_rec st1 = pkt_rec st + of_nat (length (frames env))"
    using batch_poll_ok [of env st fixup timed scale] Cons.prems fixup by auto
  have "\<forall>d \<in> set (frames env). 1066 \<le> length d \<and> okay d"
    using Cons.prems(1) by (auto simp: accepts_def in_bounds_def frames_def)
  then have "wf (app st1)"
    using fold_wf Cons.prems(2) st1(2) by simp
  then show ?case
    using Cons.IH [of st1] Cons.prems(1) st1 by (auto simp: lcore_loop_def add.assoc)
qed

end

section \<open>The timed and the untimed variants\<close>

text \<open>The state without what only the measurement uses: the log and the cycle counter.\<close>

primrec is_log :: "dpdk_event \<Rightarrow> bool" where
  "is_log (Log l) = True"
| "is_log (Tx_burst ms k) = False"
| "is_log (Pktmbuf_free i) = False"

definition unlogged :: "'a dpdk \<Rightarrow> 'a dpdk" where
  "unlogged st = st\<lparr>per_lcore_cycles := 0, events := filter (\<lambda>e. \<not> is_log e) (events st)\<rparr>"

abbreviation untimed :: "(exit_reason + 'a dpdk) option \<Rightarrow> (exit_reason + 'a dpdk) option" where
  "untimed r \<equiv> map_option (map_sum id unlogged) r"

lemma unlogged_simps [simp]:
  "unlogged (rx_latency t st) = unlogged st"
  "app (unlogged st) = app st"
  "pkt_rec (unlogged st) = pkt_rec st"
  "unlogged (st\<lparr>app := a\<rparr>) = (unlogged st)\<lparr>app := a\<rparr>"
  "unlogged (st\<lparr>pkt_rec := n\<rparr>) = (unlogged st)\<lparr>pkt_rec := n\<rparr>"
  by (simp_all add: unlogged_def rx_latency_def)

lemma unlogged_emit: "unlogged (emit es st) = emit (filter (\<lambda>e. \<not> is_log e) es) (unlogged st)"
  by (simp add: unlogged_def emit_def)

lemma unlogged_frees [simp]:
  "unlogged (emit (map (\<lambda>m. Pktmbuf_free (mid m)) ms) st) = emit (map (\<lambda>m. Pktmbuf_free (mid m)) ms) (unlogged st)"
  "unlogged (emit [Tx_burst ms k] st) = emit [Tx_burst ms k] (unlogged st)"
  by (simp_all add: unlogged_emit filter_map comp_def)

lemma calc_latency_unlogged:
  assumes "file_ok env"
  shows "\<exists>st'. calc_latency scale env n st = Inr st' \<and> unlogged st' = unlogged st"
  using assms by (simp add: calc_latency_def Let_def) (simp add: emit_def unlogged_def)

lemma send_first_unlogged:
  "send_first fixup k bufs (unlogged st) = map_option (map_prod id unlogged) (send_first fixup k bufs st)"
  by (auto simp: send_first_def Let_def option.map_comp comp_def split: Option.bind_split)

lemma batch_poll_untimed:
  assumes "file_ok env"
  shows "untimed (batch_poll timed work fixup scale env st) = batch_poll False work fixup scale env (unlogged st)"
proof (cases "rx env = []")
  case True
  then show ?thesis
    by (simp add: batch_poll_def)
next
  case False
  have logged: "\<exists>st'. (if c then calc_latency scale env n s else Inr s) = Inr st' \<and> unlogged st' = unlogged s" for c n s
    using calc_latency_unlogged [OF assms, of scale n s] by (cases c) auto
  show ?thesis
  proof (cases "burst_loop work (rx env) (app st)")
    case None
    then show ?thesis using False by (simp add: batch_poll_def rx_latency_def)
  next
    case (Some r)
    show ?thesis
    proof (cases r)
      case (Inl x)
      then show ?thesis using Some False by (simp add: batch_poll_def rx_latency_def)
    next
      case (Inr u)
      obtain bufs a nb where u: "u = (bufs, a, nb)" by (cases u)
      define st0 where "st0 = (if timed then rx_latency (rx_time env) st else st)"
      define st1 where "st1 = st0\<lparr>app := a, pkt_rec := pkt_rec st0 + ucast nb\<rparr>"
      obtain st2 where st2: "(if timed \<and> nb \<noteq> 0 then calc_latency scale env nb st1 else Inr st1) = Inr st2"
          "unlogged st2 = unlogged st1"
        using logged by blast
      have l: "burst_loop work (rx env) (app st0) = Some (Inr (bufs, a, nb))"
          "unlogged st1 = (unlogged st)\<lparr>app := a, pkt_rec := pkt_rec st + ucast nb\<rparr>"
        using Some Inr u by (simp_all add: rx_latency_def st0_def st1_def) (simp_all add: unlogged_def)
      have "batch_poll timed work fixup scale env st = send_first fixup (taken env) bufs st2 \<bind>
          (\<lambda>(bufs, st). Some (Inr (emit (map (\<lambda>m. Pktmbuf_free (mid m)) bufs) st)))"
        using False l st2(1) by (simp add: batch_poll_def st0_def [symmetric] st1_def [symmetric])
      then have "untimed (batch_poll timed work fixup scale env st) = send_first fixup (taken env) bufs (unlogged st2) \<bind>
          (\<lambda>(bufs, st). Some (Inr (emit (map (\<lambda>m. Pktmbuf_free (mid m)) bufs) st)))"
        by (simp add: send_first_unlogged comp_def case_prod_unfold map_conv_bind_option)
      also have "\<dots> = batch_poll False work fixup scale env (unlogged st)"
        using False Some Inr u st2(2) l(2) by (simp add: batch_poll_def)
      finally show ?thesis .
    qed
  qed
qed

text \<open>
  C33: unless the benchmark file cannot be opened, measuring changes nothing: a run of the timed variant of a batch program ends
  with the same shared state, packet count, sends and frees as the untimed variant on the same bursts (or both fail alike).
\<close>

theorem timing_transparent:
  assumes "\<forall>env \<in> set envs. file_ok env"
  shows "untimed (lcore_loop (batch_poll timed work fixup scale) envs st) =
    lcore_loop (batch_poll False work fixup scale) envs (unlogged st)"
  using assms
proof (induction envs arbitrary: st)
  case Nil
  then show ?case by (simp add: lcore_loop_def)
next
  case (Cons env envs)
  have step: "batch_poll False work fixup scale env (unlogged st) = untimed (batch_poll timed work fixup scale env st)"
    by (rule batch_poll_untimed [symmetric]) (use Cons.prems in simp)
  show ?case
  proof (cases "batch_poll timed work fixup scale env st")
    case None
    then show ?thesis using step by (simp add: lcore_loop_def)
  next
    case (Some r)
    then show ?thesis
      using step Cons by (cases r) (auto simp: lcore_loop_def)
  qed
qed

theorem timing_transparent_witness:
  "lcore_loop (batch_poll False skip_work Some id) [idle_burst 1, idle_burst 0]
      \<lparr>app = (), pkt_rec = 3, per_lcore_cycles = 0, events = []\<rparr> =
    untimed (lcore_loop (batch_poll True skip_work Some id) [idle_burst 1, idle_burst 0]
      \<lparr>app = (), pkt_rec = 3, per_lcore_cycles = 8, events = [Log 4]\<rparr>)"
  using timing_transparent [of "[idle_burst 1, idle_burst 0]" True skip_work Some id
      "\<lparr>app = (), pkt_rec = 3, per_lcore_cycles = 8, events = [Log 4]\<rparr>"]
  by (simp add: idle_burst_def unlogged_def)

end
