(* ===== verification/Dpdk_Batch.thy ===== *)
theory Dpdk_Batch
  imports Dpdk_Poll Xdp_Aggregate Xdp_Reduce Xdp_Histogram Xdp_Copy
begin

text \<open>
  \<open>src/dpdk\<close>: aggregate, reduce, histogram, copy to host and copy from host, each with its \<open>_no_t\<close> variant.  A
  program is its work on one packet; \<open>lcore_main\<close> is \<^const>\<open>batch_poll\<close> on that work until \<open>force_quit\<close>.  Its
  shared state is an array of \<open>rte_atomic32_t\<close>.
\<close>

section \<open>The programs\<close>

definition dpdk_aggregate_work :: "u32 list packet_work" where
  "dpdk_aggregate_work d a = do {
     res \<leftarrow> for_each (\<lambda>i res. do { w \<leftarrow> rd32 d (pay_off + 4 * i); Some (res + w) }) [0..<TOT_SIZE_B div DATA_SIZE_B] 0;
     a \<leftarrow> atomic32_add a 0 res;
     Some (Inr (d, a))
   }"

definition dpdk_reduce_work :: "u32 list packet_work" where
  "dpdk_reduce_work d a = do {
     a \<leftarrow> for_each (\<lambda>i a. do { w \<leftarrow> rd32 d (pay_off + 4 * i); atomic32_add a i w }) [0..<TOT_SIZE_B div DATA_SIZE_B] a;
     Some (Inr (d, a))
   }"

text \<open>A key above \<open>HISTOG_NR\<close> or below 0 ends the process with \<open>rte_exit\<close>.\<close>

definition dpdk_histogram_work :: "u32 list packet_work" where
  "dpdk_histogram_work d a = do {
     r \<leftarrow> for_each_ret (\<lambda>i a. do {
       key \<leftarrow> rd32 d (pay_off + 4 * i);
       if sint key > int HISTOG_NR \<or> sint key < 0 then Some (Inl Wrong_key)
       else do { a \<leftarrow> atomic32_add a (unat key) 1; Some (Inr a) }
     }) [0..<TOT_SIZE_B div DATA_SIZE_B] a;
     case r of
       Inl x \<Rightarrow> Some (Inl x)
     | Inr a \<Rightarrow> Some (Inr (d, a))
   }"

definition dpdk_copy_to_work :: "u32 list packet_work" where
  "dpdk_copy_to_work d a = do {
     a \<leftarrow> for_each (\<lambda>i a. do { w \<leftarrow> rd32 d (pay_off + 4 * i); atomic32_set a i w }) [0..<TOT_SIZE_B div DATA_SIZE_B] a;
     Some (Inr (d, a))
   }"

definition dpdk_copy_from_work :: "u32 list packet_work" where
  "dpdk_copy_from_work d a = do {
     d \<leftarrow> for_each (\<lambda>i d. do { w \<leftarrow> atomic32_read a i; wr32 d (pay_off + 4 * i) w }) [0..<TOT_SIZE_B div DATA_SIZE_B] d;
     Some (Inr (d, a))
   }"

text \<open>
  The new checksum of a reply: the field is zeroed, then set to what \<open>rte_ipv4_udptcp_cksum\<close> (\<open>cksum\<close>) computes from the IP header
  on.
\<close>

definition dpdk_refresh :: "(bytes \<Rightarrow> u16) \<Rightarrow> bytes \<Rightarrow> bytes option" where
  "dpdk_refresh cksum d = do {
     d \<leftarrow> wr16 d (udp_off + 6) 0;
     wr16 d (udp_off + 6) (cksum (drop ip_off d))
   }"

text \<open>\<open>lcore_main\<close> of each program, on one lcore.\<close>

type_synonym 'a lcore = "(u64 \<Rightarrow> u64) \<Rightarrow> poll_env list \<Rightarrow> 'a dpdk \<Rightarrow> (exit_reason + 'a dpdk) option"

definition dpdk_aggregate :: "u32 list lcore" where
  "dpdk_aggregate scale = lcore_loop (batch_poll True dpdk_aggregate_work Some scale)"

definition dpdk_aggregate_no_t :: "u32 list lcore" where
  "dpdk_aggregate_no_t scale = lcore_loop (batch_poll False dpdk_aggregate_work Some scale)"

definition dpdk_reduce :: "u32 list lcore" where
  "dpdk_reduce scale = lcore_loop (batch_poll True dpdk_reduce_work Some scale)"

definition dpdk_reduce_no_t :: "u32 list lcore" where
  "dpdk_reduce_no_t scale = lcore_loop (batch_poll False dpdk_reduce_work Some scale)"

definition dpdk_histogram :: "u32 list lcore" where
  "dpdk_histogram scale = lcore_loop (batch_poll True dpdk_histogram_work Some scale)"

definition dpdk_histogram_no_t :: "u32 list lcore" where
  "dpdk_histogram_no_t scale = lcore_loop (batch_poll False dpdk_histogram_work Some scale)"

definition dpdk_copy_to_host :: "u32 list lcore" where
  "dpdk_copy_to_host scale = lcore_loop (batch_poll True dpdk_copy_to_work Some scale)"

definition dpdk_copy_to_host_no_t :: "u32 list lcore" where
  "dpdk_copy_to_host_no_t scale = lcore_loop (batch_poll False dpdk_copy_to_work Some scale)"

definition dpdk_copy_from_host :: "(bytes \<Rightarrow> u16) \<Rightarrow> u32 list lcore" where
  "dpdk_copy_from_host cksum scale = lcore_loop (batch_poll True dpdk_copy_from_work (dpdk_refresh cksum) scale)"

definition dpdk_copy_from_host_no_t :: "(bytes \<Rightarrow> u16) \<Rightarrow> u32 list lcore" where
  "dpdk_copy_from_host_no_t cksum scale = lcore_loop (batch_poll False dpdk_copy_from_work (dpdk_refresh cksum) scale)"

section \<open>The contracts\<close>

abbreviation cell_inc :: "nat \<Rightarrow> u32 \<Rightarrow> u32 list \<Rightarrow> u32 list" where
  "cell_inc \<equiv> cell_add atomic32_read atomic32_put"

lemma work_loops [simp]: "TOT_SIZE_B div DATA_SIZE_B = 256"
  by (simp add: const_defs)

definition sum_effect :: "bytes \<Rightarrow> u32 list \<Rightarrow> u32 list" where
  "sum_effect d a = cell_inc 0 (payload_sum d) a"

interpretation dpdk_aggr: lcore_job dpdk_aggregate_work "\<lambda>a. length a = 1" "\<lambda>_. True" "\<lambda>d a. d" sum_effect
proof
  fix d :: bytes and a :: "u32 list"
  assume "1066 \<le> length d" "length a = 1"
  then show "dpdk_aggregate_work d a = Some (Inr (d, sum_effect d a))"
    using payload_sum_loop_in [of d]
    by (simp add: dpdk_aggregate_work_def payload_sum_loop_def sum_effect_def atomic32_add_eq)
qed (simp_all add: sum_effect_def)

definition reduce_effect :: "bytes \<Rightarrow> u32 list \<Rightarrow> u32 list" where
  "reduce_effect d a = fold (\<lambda>i. cell_inc i (payload_word d i)) [0..<256] a"

lemma for_each_cells:
  assumes "\<And>i. i \<in> set is \<Longrightarrow> rd32 d (pay_off + 4 * i) = Some (w i) \<and> k i < length a"
  shows "for_each (\<lambda>i a. do { x \<leftarrow> rd32 d (pay_off + 4 * i); atomic32_add a (k i) (f i x) }) is a =
    Some (fold (\<lambda>i. cell_inc (k i) (f i (w i))) is a)"
  using for_each_fold_inv [where I = "\<lambda>b. length b = length a" and s = a and xs = "is"
      and f = "\<lambda>i a. do { x \<leftarrow> rd32 d (pay_off + 4 * i); atomic32_add a (k i) (f i x) }"
      and g = "\<lambda>i. cell_inc (k i) (f i (w i))"] assms
  by (simp add: atomic32_add_eq)

interpretation dpdk_red: lcore_job dpdk_reduce_work "\<lambda>a. length a = 256" "\<lambda>_. True" "\<lambda>d a. d" reduce_effect
proof
  fix d :: bytes and a :: "u32 list"
  assume "1066 \<le> length d" "length a = 256"
  then show "dpdk_reduce_work d a = Some (Inr (d, reduce_effect d a))"
    using for_each_cells [of "[0..<256]" d "payload_word d" "\<lambda>i. i" a "\<lambda>_ x. x"]
    by (simp add: dpdk_reduce_work_def reduce_effect_def rd32_payload)
qed (simp_all add: reduce_effect_def)

text \<open>The histogram: a key has a bin only below 1024, and 1024 itself passes the check.\<close>

definition has_bin :: "u32 \<Rightarrow> bool" where
  "has_bin w \<longleftrightarrow> unat w < 1024"

definition binned :: "u32 list \<Rightarrow> u32 list \<Rightarrow> u32 list" where
  "binned ws a = fold (\<lambda>w. cell_inc (unat w) 1) ws a"

lemma sint_cases: "sint (w :: u32) = int (unat w) \<and> unat w < 2 ^ 31 \<or> sint w < 0 \<and> 2 ^ 31 \<le> unat w"
proof -
  have "sint w = (int (unat w) + 2 ^ 31) mod 2 ^ 32 - 2 ^ 31"
    by (simp add: sint_uint signed_take_bit_eq_take_bit_shift take_bit_eq_mod)
  moreover have "unat w < 2 ^ 32"
    using unsigned_less [of w, where ?'a = nat] by simp
  then have "(int (unat w) + 2 ^ 31) mod 2 ^ 32 =
      (if unat w < 2 ^ 31 then int (unat w) + 2 ^ 31 else int (unat w) - 2 ^ 31)"
    using mod_pos_geq [of "2 ^ 32" "int (unat w) + 2 ^ 31"] mod_pos_pos_trivial [of "int (unat w) + 2 ^ 31" "2 ^ 32"]
      mod_pos_pos_trivial [of "int (unat w) + 2 ^ 31 - 2 ^ 32" "2 ^ 32"]
    by (auto simp del: of_nat_unat)
  ultimately show ?thesis
    using \<open>unat w < 2 ^ 32\<close> by (auto simp del: of_nat_unat)
qed

lemma key_check:
  "sint (w :: u32) > int HISTOG_NR \<or> sint w < 0 \<longleftrightarrow> \<not> has_bin w \<and> w \<noteq> 1024"
proof -
  have "unat w = 1024 \<longleftrightarrow> w = 1024"
    by (simp add: word_unat_eq_iff)
  then show ?thesis
    using sint_cases [of w] by (auto simp: HISTOG_NR_def has_bin_def simp del: of_nat_unat)
qed

definition bin_step :: "u32 \<Rightarrow> u32 list \<Rightarrow> (exit_reason + u32 list) option" where
  "bin_step key a =
     (if sint key > int HISTOG_NR \<or> sint key < 0 then Some (Inl Wrong_key)
      else do { a \<leftarrow> atomic32_add a (unat key) 1; Some (Inr a) })"

lemma bin_steps:
  assumes "length a = 1024"
  shows "for_each_ret bin_step ws a =
    (case dropWhile has_bin ws of
       [] \<Rightarrow> Some (Inr (binned ws a))
     | w # _ \<Rightarrow> if w = 1024 then None else Some (Inl Wrong_key))"
  using assms
proof (induction ws arbitrary: a)
  case Nil
  then show ?case by (simp add: binned_def)
next
  case (Cons w ws)
  show ?case
  proof (cases "has_bin w")
    case True
    then have "bin_step w a = Some (Inr (cell_inc (unat w) 1 a))"
      using Cons.prems key_check [of w] by (simp add: bin_step_def has_bin_def atomic32_add_eq)
    then show ?thesis
      using Cons True
      by (cases "dropWhile has_bin ws") (simp_all add: binned_def del: dropWhile_eq_Nil_conv)
  next
    case False
    then show ?thesis
      using Cons.prems key_check [of w] by (auto simp: bin_step_def atomic32_add_def)
  qed
qed

lemma for_each_ret_map: "for_each_ret (\<lambda>i. f (g i)) xs s = for_each_ret f (map g xs) s"
  by (induction xs arbitrary: s) (auto split: Option.bind_split sum.split)

lemma for_each_ret_cong:
  "(\<And>i u. i \<in> set xs \<Longrightarrow> f i u = g i u) \<Longrightarrow> for_each_ret f xs s = for_each_ret g xs s"
  by (induction xs arbitrary: s) (auto split: Option.bind_split sum.split)

lemma dpdk_histogram_work_eq:
  assumes "1066 \<le> length d" "length a = 1024"
  shows "dpdk_histogram_work d a =
    (case dropWhile has_bin (payload_words d) of
       [] \<Rightarrow> Some (Inr (d, binned (payload_words d) a))
     | w # _ \<Rightarrow> if w = 1024 then None else Some (Inl Wrong_key))"
proof -
  have "for_each_ret (\<lambda>i a. do {
       key \<leftarrow> rd32 d (pay_off + 4 * i);
       if sint key > int HISTOG_NR \<or> sint key < 0 then Some (Inl Wrong_key)
       else do { a \<leftarrow> atomic32_add a (unat key) 1; Some (Inr a) }
     }) [0..<256] a = for_each_ret (\<lambda>i. bin_step (payload_word d i)) [0..<256] a"
    using assms(1) by (intro for_each_ret_cong) (simp add: bin_step_def rd32_payload)
  also have "\<dots> = for_each_ret bin_step (payload_words d) a"
    by (simp only: for_each_ret_map payload_words_def)
  finally show ?thesis
    by (cases "dropWhile has_bin (payload_words d)")
       (simp_all add: dpdk_histogram_work_def bin_steps [OF assms(2)] del: dropWhile_eq_Nil_conv)
qed

lemma length_binned [simp]: "length (binned ws a) = length a"
  by (simp add: binned_def)

lemma nth_binned:
  assumes "j < length a" "length a = 1024"
  shows "binned ws a ! j = a ! j + of_nat (count_list ws (of_nat j))"
proof -
  have "filter (\<lambda>w. unat w = j) ws = filter (\<lambda>w. w = of_nat j) ws"
    using assms by (intro filter_cong) (auto simp: word_unat_eq_iff unat_of_nat take_bit_nat_eq_self)
  then show ?thesis
    using assms(1) count_list_sum [of "of_nat j" ws] by (simp add: binned_def nth_fold_cell_add)
qed

interpretation dpdk_hist: lcore_job dpdk_histogram_work "\<lambda>a. length a = 1024"
  "\<lambda>d. \<forall>w \<in> set (payload_words d). has_bin w" "\<lambda>d a. d" "\<lambda>d. binned (payload_words d)"
proof
  fix d :: bytes and a :: "u32 list"
  assume "1066 \<le> length d" "length a = 1024" "\<forall>w \<in> set (payload_words d). has_bin w"
  then show "dpdk_histogram_work d a = Some (Inr (d, binned (payload_words d) a))"
    by (simp add: dpdk_histogram_work_eq dropWhile_eq_Nil_conv [THEN iffD2])
qed simp_all

text \<open>The copies: all 256 cells are set from, or all 256 integers of the payload set to, the cells.\<close>

lemma for_each_set:
  assumes "\<And>i. i < n \<Longrightarrow> rd32 d (pay_off + 4 * i) = Some (w i)" "n \<le> length a"
  shows "for_each (\<lambda>i a. do { x \<leftarrow> rd32 d (pay_off + 4 * i); atomic32_set a i x }) [0..<n] a =
    Some (map w [0..<n] @ drop n a)"
  using assms
proof (induction n)
  case 0
  then show ?case by simp
next
  case (Suc n)
  then have "drop n a = (a ! n) # drop (Suc n) a"
    by (simp add: Cons_nth_drop_Suc)
  then show ?case
    using Suc by (simp add: for_each_append atomic32_set_def list_update_append)
qed

lemma copy_loop:
  assumes "1066 \<le> length d" "length a = 256"
  shows "for_each (\<lambda>i a. do { x \<leftarrow> rd32 d (pay_off + 4 * i); atomic32_set a i x }) [0..<256] a = Some (payload_words d)"
  using for_each_set [of 256 d "payload_word d" a] assms by (simp add: payload_words_def rd32_payload)

interpretation dpdk_copy_to: lcore_job dpdk_copy_to_work "\<lambda>a. length a = 256" "\<lambda>_. True" "\<lambda>d a. d"
  "\<lambda>d a. payload_words d"
  by unfold_locales (simp_all add: dpdk_copy_to_work_def copy_loop, simp add: payload_words_def)

lemma dpdk_copy_from_work_eq:
  assumes "1066 \<le> length d" "length a = 256"
  shows "dpdk_copy_from_work d a = Some (Inr (filled (\<lambda>i. a ! i) 256 d, a))"
proof -
  have "for_each (\<lambda>i d. do { w \<leftarrow> atomic32_read a i; wr32 d (pay_off + 4 * i) w }) [0..<n] d =
      Some (filled (\<lambda>i. a ! i) n d)" if "n \<le> 256" for n
    using that assms
    by (induction n)
       (simp_all add: for_each_append filled_Suc atomic32_read_def mem_simps, simp add: filled_def)
  then show ?thesis
    by (simp add: dpdk_copy_from_work_def)
qed

interpretation dpdk_copy_from: lcore_job dpdk_copy_from_work "\<lambda>a. length a = 256" "\<lambda>_. True"
  "\<lambda>d a. filled (\<lambda>i. a ! i) 256 d" "\<lambda>d a. a"
  by unfold_locales (simp_all add: dpdk_copy_from_work_eq mem_simps)

lemma dpdk_refresh_in:
  "42 \<le> length d \<Longrightarrow> dpdk_refresh cksum d = Some (put16 (put16 d 40 0) 40 (cksum (drop 14 (put16 d 40 0))))"
  by (simp add: dpdk_refresh_def mem_simps)

section \<open>Properties\<close>

text \<open>A burst that stays in bounds and on which the benchmark file can be written.\<close>

definition good_burst :: "poll_env \<Rightarrow> bool" where
  "good_burst env \<longleftrightarrow> in_bounds env \<and> file_ok env"

abbreviation all_frames :: "poll_env list \<Rightarrow> bytes list" where
  "all_frames envs \<equiv> concat (map frames envs)"

lemma good_accepts: "\<forall>env \<in> set envs. good_burst env \<Longrightarrow> \<forall>env \<in> set envs. accepts (\<lambda>_. True) env \<and> file_ok env"
  by (auto simp: good_burst_def accepts_def)

lemma dpdk_aggregate_sums:
  assumes "\<forall>env \<in> set envs. good_burst env" "length (app st) = 1"
  shows "\<exists>st'. dpdk_aggregate scale envs st = Some (Inr st') \<and>
    app st' ! 0 = app st ! 0 + (\<Sum>d\<leftarrow>all_frames envs. payload_sum d) \<and>
    pkt_rec st' = pkt_rec st + of_nat (length (all_frames envs))"
proof -
  have "fold sum_effect ds a ! 0 = a ! 0 + (\<Sum>d\<leftarrow>ds. payload_sum d)" if "length a = 1" for ds a
    using nth_fold_cell_add [of 0 a "\<lambda>_. 0" payload_sum ds] that by (simp add: sum_effect_def [abs_def])
  then show ?thesis
    unfolding dpdk_aggregate_def
    using dpdk_aggr.batch_run [OF good_accepts [OF assms(1)] assms(2), of Some True scale] assms(2) by auto
qed

text \<open>
  Over any bursts the DPDK \<open>aggregate\<close> never leaves a buffer, and its counter ends as its start plus the sum of
  all payload integers of the frames that pass the header checks; \<open>pkt_rec\<close> counts these frames.
\<close>

theorem dpdk_aggregate_run:
  assumes "\<forall>env \<in> set envs. good_burst env" "length (app st) = 1"
  shows "\<exists>st'. dpdk_aggregate scale envs st = Some (Inr st') \<and>
    app st' ! 0 = app st ! 0 + (\<Sum>d\<leftarrow>all_frames envs. payload_sum d) \<and>
    pkt_rec st' = pkt_rec st + of_nat (length (all_frames envs))"
  by (rule dpdk_aggregate_sums [OF assms])

definition burst_of :: "bytes list \<Rightarrow> poll_env" where
  "burst_of ds = \<lparr>rx = map (\<lambda>d. \<lparr>mid = 0, room = d\<rparr>) ds, rx_time = 5, now = 9, file_ok = True, taken = 1\<rparr>"

text \<open>A frame of IPv4 type around 256 integers.\<close>

definition dpdk_frame_of :: "u32 list \<Rightarrow> bytes" where
  "dpdk_frame_of ws = put16 (job_of ws) 12 8"

lemma dpdk_frame_of_facts:
  assumes "length ws = 256"
  shows "length (dpdk_frame_of ws) = 1066" "dpdk_frame (dpdk_frame_of ws)"
    "\<And>j. j < 256 \<Longrightarrow> payload_word (dpdk_frame_of ws) j = ws ! j"
proof -
  have len: "length (job_of ws) = 1066"
    using assms by (simp add: job_of_def)
  then show "length (dpdk_frame_of ws) = 1066"
    by (simp add: dpdk_frame_of_def mem_simps)
  have "le16 (job_of ws) 38 = 0x0804"
    by (simp add: job_of_def job_hdr_def mem_simps get_bytes_def)
  then show "dpdk_frame (dpdk_frame_of ws)"
    using len by (simp add: dpdk_frame_def dpdk_frame_of_def mem_simps ntohs_def)
  show "payload_word (dpdk_frame_of ws) j = ws ! j" if "j < 256" for j
    using that assms len payload_word_job_of [of j ws]
    by (simp add: dpdk_frame_of_def payload_word_def mem_simps)
qed

lemma burst_of_facts:
  assumes "\<forall>ws \<in> set wss. length ws = 256" "length wss \<le> 64"
  shows "good_burst (burst_of (map dpdk_frame_of wss))" "frames (burst_of (map dpdk_frame_of wss)) = map dpdk_frame_of wss"
  using assms
  by (auto simp: good_burst_def in_bounds_def burst_of_def frames_def dpdk_frame_of_facts filter_id_conv comp_def)

theorem dpdk_aggregate_run_witness:
  "\<exists>st'. dpdk_aggregate id [burst_of (map dpdk_frame_of [replicate 256 1, replicate 256 2])]
      \<lparr>app = [5], pkt_rec = 0, per_lcore_cycles = 0, events = []\<rparr> = Some (Inr st') \<and> app st' ! 0 = 773 \<and> pkt_rec st' = 2"
proof -
  let ?env = "burst_of (map dpdk_frame_of [replicate 256 1, replicate 256 2])"
  have env: "good_burst ?env" "frames ?env = map dpdk_frame_of [replicate 256 1, replicate 256 2]"
    using burst_of_facts [of "[replicate 256 1, replicate 256 2]"] by auto
  have "payload_sum (dpdk_frame_of (replicate 256 c)) = 256 * c" for c
  proof -
    have "map (payload_word (dpdk_frame_of (replicate 256 c))) [0..<256] = replicate 256 c"
      by (rule nth_equalityI) (simp_all add: dpdk_frame_of_facts)
    then show ?thesis
      by (simp add: payload_sum_def sum_list_replicate)
  qed
  then show ?thesis
    using dpdk_aggregate_run [of "[?env]" "\<lparr>app = [5], pkt_rec = 0, per_lcore_cycles = 0, events = []\<rparr>" id] env
    by auto
qed

lemma filter_eq_upt: "j < n \<Longrightarrow> filter (\<lambda>i. i = j) [0..<n] = [j]"
  by (induction n) (auto simp: less_Suc_eq)

text \<open>
  Over any bursts each of the 256 counters of the DPDK \<open>reduce\<close> ends as its start plus the sum of the integers
  at its position in the frames that pass the header checks.
\<close>

theorem dpdk_reduce_run:
  assumes "\<forall>env \<in> set envs. good_burst env" "length (app st) = 256"
  shows "\<exists>st'. dpdk_reduce scale envs st = Some (Inr st') \<and>
    (\<forall>j<256. app st' ! j = app st ! j + (\<Sum>d\<leftarrow>all_frames envs. payload_word d j)) \<and>
    pkt_rec st' = pkt_rec st + of_nat (length (all_frames envs))"
proof -
  have one: "reduce_effect d a ! j = a ! j + payload_word d j" if "j < 256" "length a = 256" for d a j
  proof -
    show ?thesis
      using filter_eq_upt [of j 256] nth_fold_cell_add [of j a "\<lambda>i. i" "payload_word d" "[0..<256]"] that by (simp add: reduce_effect_def)
  qed
  have "fold reduce_effect ds a ! j = a ! j + (\<Sum>d\<leftarrow>ds. payload_word d j)" if "j < 256" "length a = 256" for ds a j
    using that
  proof (induction ds arbitrary: a)
    case (Cons d ds)
    moreover have "length (reduce_effect d a) = 256"
      using Cons.prems by (simp add: reduce_effect_def)
    ultimately show ?case
      using one by (simp add: add.assoc)
  qed simp
  then show ?thesis
    unfolding dpdk_reduce_def
    using dpdk_red.batch_run [OF good_accepts [OF assms(1)] assms(2), of Some True scale] assms(2) by auto
qed

theorem dpdk_reduce_run_witness:
  "\<exists>st'. dpdk_reduce id [burst_of [dpdk_frame_of (map of_nat [0..<256])], burst_of []]
      \<lparr>app = replicate 256 7, pkt_rec = 0, per_lcore_cycles = 0, events = []\<rparr> = Some (Inr st') \<and>
    app st' ! 200 = 207 \<and> pkt_rec st' = 1"
proof -
  let ?ws = "map of_nat [0..<256] :: u32 list"
  let ?env = "burst_of (map dpdk_frame_of [?ws])"
  have env: "good_burst ?env" "frames ?env = [dpdk_frame_of ?ws]" "good_burst (burst_of [])" "frames (burst_of []) = []"
    using burst_of_facts [of "[?ws]"] burst_of_facts [of "[]"] by auto
  then show ?thesis
    using dpdk_reduce_run [of "[?env, burst_of []]" "\<lparr>app = replicate 256 7, pkt_rec = 0, per_lcore_cycles = 0, events = []\<rparr>" id]
    by (auto simp: dpdk_frame_of_facts)
qed

text \<open>
  C28: what the DPDK \<open>histogram\<close> does with a frame, by its first integer that has no bin: with none, every integer is
  counted in its bin; with 1024, the check lets it through to a cell past the end of \<open>final_histog\<close> (undefined
  behaviour); with any other, the process ends with the error.
\<close>

theorem dpdk_histogram_packet:
  assumes "1066 \<le> length d" "length a = 1024"
  shows "case dropWhile has_bin (payload_words d) of
       [] \<Rightarrow> \<exists>a'. dpdk_histogram_work d a = Some (Inr (d, a')) \<and>
         (\<forall>j<1024. a' ! j = a ! j + of_nat (count_list (payload_words d) (of_nat j)))
     | w # _ \<Rightarrow> dpdk_histogram_work d a = (if w = 1024 then None else Some (Inl Wrong_key))"
  using assms dpdk_histogram_work_eq [OF assms]
  by (cases "dropWhile has_bin (payload_words d)") (simp_all add: nth_binned del: dropWhile_eq_Nil_conv)

lemma payload_words_frame: "length ws = 256 \<Longrightarrow> payload_words (dpdk_frame_of ws) = ws"
  by (rule nth_equalityI) (simp_all add: payload_words_def dpdk_frame_of_facts)

theorem dpdk_histogram_packet_witness:
  "dpdk_histogram_work (dpdk_frame_of (replicate 255 3 @ [1024])) (replicate 1024 0) = None \<and>
   dpdk_histogram_work (dpdk_frame_of (replicate 255 3 @ [1025])) (replicate 1024 0) = Some (Inl Wrong_key)"
proof -
  have "dropWhile has_bin (replicate n 3 @ [w]) = [w]" if "\<not> has_bin w" for w n
    using that by (induction n) (auto simp: has_bin_def)
  then show ?thesis
    using dpdk_histogram_packet [of "dpdk_frame_of (replicate 255 3 @ [1024])" "replicate 1024 0"]
      dpdk_histogram_packet [of "dpdk_frame_of (replicate 255 3 @ [1025])" "replicate 1024 0"]
    by (simp add: dpdk_frame_of_facts payload_words_frame has_bin_def)
qed

text \<open>
  While all integers of the frames are below 1024, a run of the DPDK \<open>histogram\<close> adds to each bin the number of
  times its value occurs in them.
\<close>

theorem dpdk_histogram_run:
  assumes "\<forall>env \<in> set envs. good_burst env" "length (app st) = 1024"
    and "\<forall>d \<in> set (all_frames envs). \<forall>w \<in> set (payload_words d). has_bin w"
  shows "\<exists>st'. dpdk_histogram scale envs st = Some (Inr st') \<and>
    (\<forall>j<1024. app st' ! j = app st ! j + of_nat (count_list (concat (map payload_words (all_frames envs))) (of_nat j)))"
proof -
  have "\<forall>env \<in> set envs. accepts (\<lambda>d. \<forall>w \<in> set (payload_words d). has_bin w) env \<and> file_ok env"
    using assms(1,3) by (auto simp: good_burst_def accepts_def)
  moreover have "fold (\<lambda>d. binned (payload_words d)) ds a = binned (concat (map payload_words ds)) a" for ds a
    by (induction ds arbitrary: a) (simp_all add: binned_def)
  ultimately show ?thesis
    unfolding dpdk_histogram_def
    using dpdk_hist.batch_run [of envs st Some True scale] assms(2) by (auto simp: nth_binned)
qed

theorem dpdk_histogram_run_witness:
  "\<exists>st'. dpdk_histogram id [burst_of [dpdk_frame_of (replicate 256 1023)]]
      \<lparr>app = replicate 1024 0, pkt_rec = 0, per_lcore_cycles = 0, events = []\<rparr> = Some (Inr st') \<and> app st' ! 1023 = 256"
proof -
  let ?env = "burst_of (map dpdk_frame_of [replicate 256 1023])"
  have env: "good_burst ?env" "frames ?env = [dpdk_frame_of (replicate 256 1023)]"
    using burst_of_facts [of "[replicate 256 1023]"] by auto
  have "count_list (replicate n x) x = n" for n and x :: u32
    by (induction n) auto
  then show ?thesis
    using dpdk_histogram_run [of "[?env]" "\<lparr>app = replicate 1024 0, pkt_rec = 0, per_lcore_cycles = 0, events = []\<rparr>" id] env
    by (auto simp: payload_words_frame has_bin_def)
qed

text \<open>
  After a run of the DPDK \<open>copy_to_host\<close> the host cells hold the integers of the last frame, and
  \<open>copy_from_host\<close> on these cells puts exactly them into the payload of any later frame, leaving its headers as
  they were.
\<close>

theorem dpdk_copy_roundtrip:
  assumes "\<forall>env \<in> set envs. good_burst env" "length (app st) = 256" "all_frames envs \<noteq> []" "1066 \<le> length d"
  shows "\<exists>st' d'. dpdk_copy_to_host scale envs st = Some (Inr st') \<and>
    app st' = payload_words (last (all_frames envs)) \<and>
    dpdk_copy_from_work d (app st') = Some (Inr (d', app st')) \<and>
    payload_words d' = payload_words (last (all_frames envs)) \<and> take 42 d' = take 42 d"
proof -
  have last: "fold (\<lambda>d a. payload_words d) ds a = (if ds = [] then a else payload_words (last ds))" for ds a
    by (induction ds arbitrary: a) auto
  obtain st' where st': "dpdk_copy_to_host scale envs st = Some (Inr st')"
      "app st' = payload_words (last (all_frames envs))"
    unfolding dpdk_copy_to_host_def
    using dpdk_copy_to.batch_run [OF good_accepts [OF assms(1)] assms(2), of Some True scale] assms(3)
    by (auto simp only: last if_False)
  let ?d' = "filled (\<lambda>i. app st' ! i) 256 d"
  have len: "length (app st') = 256"
    using st' by (simp add: payload_words_def)
  have "payload_words ?d' = app st'"
    using assms(4) len by (intro nth_equalityI) (simp_all add: payload_words_def payload_word_filled)
  moreover have "take 42 ?d' = take 42 d"
    using get_bytes_filled [of 256 d 0 42] assms(4) by (simp add: get_bytes_def)
  ultimately show ?thesis
    using st' dpdk_copy_from_work_eq [OF assms(4) len] by auto
qed

theorem dpdk_copy_roundtrip_witness:
  "\<exists>st' d'. dpdk_copy_to_host id [burst_of [dpdk_frame_of (replicate 256 3)]]
      \<lparr>app = replicate 256 0, pkt_rec = 0, per_lcore_cycles = 0, events = []\<rparr> = Some (Inr st') \<and>
    dpdk_copy_from_work (dpdk_frame_of (replicate 256 9)) (app st') = Some (Inr (d', app st')) \<and>
    payload_words d' = replicate 256 3"
proof -
  let ?env = "burst_of (map dpdk_frame_of [replicate 256 3])"
  have env: "good_burst ?env" "frames ?env = [dpdk_frame_of (replicate 256 3)]"
    using burst_of_facts [of "[replicate 256 3]"] by auto
  then show ?thesis
    using dpdk_copy_roundtrip [of "[?env]" "\<lparr>app = replicate 256 0, pkt_rec = 0, per_lcore_cycles = 0, events = []\<rparr>"
        "dpdk_frame_of (replicate 256 9)" id]
    by (auto simp: payload_words_frame dpdk_frame_of_facts)
qed

end
