(* ===== verification/Dpdk_Filter.thy ===== *)
theory Dpdk_Filter
  imports Dpdk_Batch Xdp_Filter
begin

text \<open>
  \<open>src/dpdk/filter\<close>: frames whose destination address is in a table of keys have their payload copied to the host
  cells.  The table is an \<open>rte_hash\<close>; its operations are parameters that obey the locale \<open>rte_hash_keys\<close>.
\<close>

section \<open>The table\<close>

text \<open>
  \<open>rte_hash_add_key\<close> returns a position, negative on failure, and \<open>rte_hash_lookup\<close> a non-negative position
  exactly for the keys that were added.
\<close>

locale rte_hash_keys =
  fixes add_key :: "'h \<Rightarrow> u32 \<Rightarrow> int \<times> 'h"
    and lookup :: "'h \<Rightarrow> u32 \<Rightarrow> int"
  assumes lookup_add: "add_key h k = (pos, h') \<Longrightarrow> 0 \<le> pos \<Longrightarrow> 0 \<le> lookup h' k' \<longleftrightarrow> k' = k \<or> 0 \<le> lookup h k'"

text \<open>\<open>hashmult\<close> of \<open>filter.c\<close>, the same loop as in the loader of the XDP program.\<close>

definition dpdk_hashmult :: "u16 \<Rightarrow> u16" where
  "dpdk_hashmult key = fold (\<lambda>i hash. hash * 31 + ucast (le_of_word 2 key ! i)) [0..<2] 0"

lemma dpdk_hashmult_eq: "dpdk_hashmult = hashmult"
  by (rule ext) (simp add: dpdk_hashmult_def hashmult_def numeral_2_eq_2)

text \<open>\<open>fill_htable\<close>: a key that cannot be added ends the process.\<close>

definition add_or_exit :: "('h \<Rightarrow> u32 \<Rightarrow> int \<times> 'h) \<Rightarrow> u32 \<Rightarrow> 'h \<Rightarrow> (exit_reason + 'h) option" where
  "add_or_exit add_key key h =
     (let (pos0, h) = add_key h key in if pos0 < 0 then Some (Inl Cannot_add) else Some (Inr h))"

definition dpdk_fill_htable :: "('h \<Rightarrow> u32 \<Rightarrow> int \<times> 'h) \<Rightarrow> 'h \<Rightarrow> u32 \<Rightarrow> (exit_reason + 'h) option" where
  "dpdk_fill_htable add_key h len = do {
     r \<leftarrow> for_each_ret (\<lambda>i. add_or_exit add_key (ucast (dpdk_hashmult (of_nat i)))) [0..<unat (len - 1)] h;
     case r of
       Inl x \<Rightarrow> Some (Inl x)
     | Inr h \<Rightarrow> add_or_exit add_key 167772928 h
   }"

lemma add_or_exit_Inr:
  "add_or_exit add_key k h = Some (Inr h') \<longleftrightarrow> (\<exists>pos. add_key h k = (pos, h') \<and> 0 \<le> pos)"
  by (cases "add_key h k") (auto simp: add_or_exit_def)

context rte_hash_keys
begin

lemma added:
  assumes "for_each_ret (\<lambda>i. add_or_exit add_key (f i)) xs h = Some (Inr h')"
  shows "0 \<le> lookup h' k \<longleftrightarrow> k \<in> f ` set xs \<or> 0 \<le> lookup h k"
  using assms
proof (induction xs arbitrary: h)
  case (Cons x xs)
  obtain h1 pos where h1: "add_key h (f x) = (pos, h1)" "0 \<le> pos"
      and rest: "for_each_ret (\<lambda>i. add_or_exit add_key (f i)) xs h1 = Some (Inr h')"
    using Cons.prems unfolding for_each_ret_cases add_or_exit_Inr by blast
  show ?case
    using Cons.IH [OF rest] lookup_add [OF h1] by auto
qed simp

end

lemma dpdk_keys: "(\<lambda>i. ucast (hashmult (of_nat i)) :: u32) ` {0..<65535} = {k. unat k \<le> 8159}"
proof -
  have last: "unat (hashmult (of_nat i)) = 8160 \<longleftrightarrow> i = 65535" if "i < 65536" for i
  proof -
    have i: "unat (of_nat i :: u16) = i"
      using that by (simp add: unat_of_nat take_bit_nat_eq_self)
    have "i = 256 * (i div 256) + i mod 256" "i div 256 < 256" "i mod 256 < 256"
      using that by auto
    then show ?thesis
      unfolding hashmult_bytes i by linarith
  qed
  have "k \<in> (\<lambda>i. ucast (hashmult (of_nat i)) :: u32) ` {0..<65535} \<longleftrightarrow> unat k \<le> 8159" for k
  proof -
    have "k \<in> (\<lambda>i. ucast (hashmult (of_nat i)) :: u32) ` {0..<65535} \<longleftrightarrow>
        (\<exists>i<65536. i \<noteq> 65535 \<and> k = ucast (hashmult (of_nat i)))"
    proof -
      have "{0..<65535} = {i. i < 65536 \<and> i \<noteq> (65535::nat)}"
        by auto
      then show ?thesis
        by auto
    qed
    also have "\<dots> \<longleftrightarrow> (\<exists>i<65536. unat k = unat (hashmult (of_nat i)) \<and> unat k \<noteq> 8160)"
      using last by (auto simp only: word_unat_eq_iff unat_ucast_u16)
    also have "\<dots> \<longleftrightarrow> unat k \<le> 8159"
    proof
      assume "unat k \<le> 8159"
      then show "\<exists>i<65536. unat k = unat (hashmult (of_nat i)) \<and> unat k \<noteq> 8160"
        using hashmult_onto [of "unat k"] by fastforce
    next
      assume "\<exists>i<65536. unat k = unat (hashmult (of_nat i)) \<and> unat k \<noteq> 8160"
      then obtain i where "unat k = unat (hashmult (of_nat i))" "unat k \<noteq> 8160"
        by blast
      then show "unat k \<le> 8159"
        using hashmult_range [of "of_nat i"] by linarith
    qed
    finally show ?thesis .
  qed
  then show ?thesis by auto
qed

section \<open>The program\<close>

definition dpdk_filter_work :: "('h \<Rightarrow> u32 \<Rightarrow> int) \<Rightarrow> 'h \<Rightarrow> u32 list packet_work" where
  "dpdk_filter_work lookup hash d a = do {
     dst_addr \<leftarrow> rd32 d (ip_off + 16);
     let key = ntohl dst_addr;
     if lookup hash key < 0 then Some (Inr (d, a))
     else do {
       a \<leftarrow> for_each (\<lambda>i a. do { w \<leftarrow> rd32 d (pay_off + 4 * i); atomic32_set a i w }) [0..<TOT_SIZE_B div DATA_SIZE_B] a;
       Some (Inr (d, a))
     }
   }"

definition dpdk_filter :: "('h \<Rightarrow> u32 \<Rightarrow> int) \<Rightarrow> 'h \<Rightarrow> u32 list lcore" where
  "dpdk_filter lookup hash scale = lcore_loop (batch_poll True (dpdk_filter_work lookup hash) Some scale)"

definition dpdk_filter_no_t :: "('h \<Rightarrow> u32 \<Rightarrow> int) \<Rightarrow> 'h \<Rightarrow> u32 list lcore" where
  "dpdk_filter_no_t lookup hash scale = lcore_loop (batch_poll False (dpdk_filter_work lookup hash) Some scale)"

definition dst_key :: "bytes \<Rightarrow> u32" where
  "dst_key d = ntohl (le32 d 30)"

interpretation dpdk_filt: lcore_job "dpdk_filter_work lookup hash" "\<lambda>a. length a = 256" "\<lambda>_. True" "\<lambda>d a. d"
  "\<lambda>d a. if 0 \<le> lookup hash (dst_key d) then payload_words d else a" for lookup hash
proof
  fix d :: bytes and a :: "u32 list"
  assume "1066 \<le> length d" "length a = 256"
  then show "dpdk_filter_work lookup hash d a =
      Some (Inr (d, if 0 \<le> lookup hash (dst_key d) then payload_words d else a))"
    using copy_loop [of d a] by (simp add: dpdk_filter_work_def dst_key_def load_in)
qed (simp_all add: payload_words_def)

section \<open>A reference table\<close>

definition key_list_add :: "nat \<Rightarrow> u32 list \<Rightarrow> u32 \<Rightarrow> int \<times> u32 list" where
  "key_list_add n h k = (if k \<in> set h then (0, h) else if length h < n then (0, k # h) else (- 28, h))"

definition key_list_lookup :: "u32 list \<Rightarrow> u32 \<Rightarrow> int" where
  "key_list_lookup h k = (if k \<in> set h then 0 else - 2)"

interpretation key_list: rte_hash_keys "key_list_add n" key_list_lookup for n
  by unfold_locales (auto simp: key_list_add_def key_list_lookup_def split: if_splits)

lemma key_list_add_some: "length h < n \<Longrightarrow> \<exists>h'. add_or_exit (key_list_add n) k h = Some (Inr h') \<and> length h' \<le> Suc (length h)"
  by (auto simp: add_or_exit_def key_list_add_def)

lemma key_list_adds:
  "length h + length xs \<le> n \<Longrightarrow>
     \<exists>h'. for_each_ret (\<lambda>i. add_or_exit (key_list_add n) (f i)) xs h = Some (Inr h') \<and> length h' \<le> length h + length xs"
proof (induction xs arbitrary: h)
  case (Cons x xs)
  obtain h1 where h1: "add_or_exit (key_list_add n) (f x) h = Some (Inr h1)" "length h1 \<le> Suc (length h)"
    using key_list_add_some [of h n "f x"] Cons.prems by auto
  then show ?case
    using Cons.IH [of h1] Cons.prems by auto
qed simp

lemma key_list_fill: "\<exists>h'. dpdk_fill_htable (key_list_add 65536) [] 65536 = Some (Inr h')"
proof -
  have "unat (65536 - 1 :: u32) = 65535"
    by simp
  moreover obtain h1 where "for_each_ret (\<lambda>i. add_or_exit (key_list_add 65536) (ucast (dpdk_hashmult (of_nat i))))
      [0..<65535] [] = Some (Inr h1)" "length h1 \<le> 65535"
    using key_list_adds [of "[]" "[0..<65535]" 65536 "\<lambda>i. ucast (dpdk_hashmult (of_nat i))"] by auto
  ultimately show ?thesis
    using key_list_add_some [of h1 65536 167772928] by (auto simp: dpdk_fill_htable_def)
qed

section \<open>Properties\<close>

lemma filled_keys:
  assumes "rte_hash_keys add_key lookup" "\<And>k. lookup h0 k < 0"
    and "dpdk_fill_htable add_key h0 (of_nat HASH_ENTRIES) = Some (Inr h)"
  shows "{k. 0 \<le> lookup h k} = {k. unat k \<le> 8159} \<union> {167772928}"
proof -
  have "unat (of_nat HASH_ENTRIES - 1 :: u32) = 65535"
    by (simp add: HASH_ENTRIES_def)
  then obtain h1 pos where
      h1: "for_each_ret (\<lambda>i. add_or_exit add_key (ucast (hashmult (of_nat i)))) [0..<65535] h0 = Some (Inr h1)"
      and h: "add_key h1 167772928 = (pos, h)" "0 \<le> pos"
    using assms(3) by (auto simp: dpdk_fill_htable_def bind_Inr_iff add_or_exit_Inr dpdk_hashmult_eq)
  have "0 \<le> lookup h k \<longleftrightarrow> unat k \<le> 8159 \<or> k = 167772928" for k
    using rte_hash_keys.added [OF assms(1) h1, of k] rte_hash_keys.lookup_add [OF assms(1) h, of k]
      assms(2) [of k] dpdk_keys by auto
  then show ?thesis by auto
qed

text \<open>
  When \<open>fill_htable\<close> succeeds on an empty table with length \<open>HASH_ENTRIES\<close>, the keys in it are the addresses
  0.0.0.0 to 0.0.31.223 and 10.0.3.0; one fewer than in the XDP program (0.0.31.224 is missing), plus the last.
\<close>

theorem dpdk_fill_htable_keys:
  assumes "rte_hash_keys add_key lookup" "\<And>k. lookup h0 k < 0"
    and "dpdk_fill_htable add_key h0 (of_nat HASH_ENTRIES) = Some (Inr h)"
  shows "{k. 0 \<le> lookup h k} = {k. unat k \<le> 8159} \<union> {167772928}"
  by (rule filled_keys [OF assms])

theorem dpdk_fill_htable_keys_witness:
  "\<exists>h. dpdk_fill_htable (key_list_add 65536) [] 65536 = Some (Inr h) \<and>
     key_list_lookup h 8159 = 0 \<and> key_list_lookup h 8160 = - 2 \<and> key_list_lookup h 0x0A000300 = 0"
proof -
  obtain h where h: "dpdk_fill_htable (key_list_add 65536) [] 65536 = Some (Inr h)"
    using key_list_fill by blast
  have "{k. 0 \<le> key_list_lookup h k} = {k. unat k \<le> 8159} \<union> {167772928}"
    by (rule dpdk_fill_htable_keys [OF key_list.rte_hash_keys_axioms])
       (use h in \<open>simp_all add: key_list_lookup_def HASH_ENTRIES_def\<close>)
  then have "0 \<le> key_list_lookup h k \<longleftrightarrow> unat k \<le> 8159 \<or> k = 167772928" for k
    by blast
  from this [of 8159] this [of 8160] this [of 167772928] h show ?thesis
    by (auto simp: key_list_lookup_def split: if_splits)
qed

lemma dpdk_filter_hits:
  assumes "\<forall>env \<in> set envs. good_burst env" "length (app st) = 256"
  shows "\<exists>st'. dpdk_filter lookup hash scale envs st = Some (Inr st') \<and>
    app st' = (let hits = filter (\<lambda>d. 0 \<le> lookup hash (dst_key d)) (all_frames envs)
      in if hits = [] then app st else payload_words (last hits)) \<and>
    pkt_rec st' = pkt_rec st + of_nat (length (all_frames envs))"
proof -
  have "fold (\<lambda>d a. if 0 \<le> lookup hash (dst_key d) then payload_words d else a) ds a =
      (let hits = filter (\<lambda>d. 0 \<le> lookup hash (dst_key d)) ds in if hits = [] then a else payload_words (last hits))" for ds a
    by (induction ds arbitrary: a) (auto simp: Let_def)
  then show ?thesis
    unfolding dpdk_filter_def
    using dpdk_filt.batch_run [OF good_accepts [OF assms(1)] assms(2), of Some True lookup hash scale] by simp
qed

text \<open>
  After a run of the DPDK \<open>filter\<close> the host cells hold the integers of the last frame whose destination address is
  in the table, unchanged if there was none; every frame, matching or not, is counted.
\<close>

theorem dpdk_filter_run:
  assumes "\<forall>env \<in> set envs. good_burst env" "length (app st) = 256"
  shows "\<exists>st'. dpdk_filter lookup hash scale envs st = Some (Inr st') \<and>
    app st' = (let hits = filter (\<lambda>d. 0 \<le> lookup hash (dst_key d)) (all_frames envs)
      in if hits = [] then app st else payload_words (last hits)) \<and>
    pkt_rec st' = pkt_rec st + of_nat (length (all_frames envs))"
  by (rule dpdk_filter_hits [OF assms])

lemma dst_key_zero: "dst_key (dpdk_frame_of (replicate 256 3)) = 0"
proof -
  have "get_bytes (job_of (replicate 256 3)) 30 4 = replicate 4 0"
    by (simp add: job_of_def job_hdr_def mem_simps get_bytes_def numeral_eq_Suc)
  then show ?thesis
    by (simp add: dst_key_def dpdk_frame_of_def mem_simps job_of_def ntohl_def) (simp add: numeral_eq_Suc)
qed

theorem dpdk_filter_run_witness:
  "\<exists>st'. dpdk_filter key_list_lookup [0] id [burst_of [dpdk_frame_of (replicate 256 3)], burst_of []]
      \<lparr>app = replicate 256 1, pkt_rec = 0, per_lcore_cycles = 0, events = []\<rparr> = Some (Inr st') \<and>
     app st' = replicate 256 3"
proof -
  let ?env = "burst_of (map dpdk_frame_of [replicate 256 3])"
  have env: "good_burst ?env" "frames ?env = [dpdk_frame_of (replicate 256 3)]"
      "good_burst (burst_of [])" "frames (burst_of []) = []"
    using burst_of_facts [of "[replicate 256 3]"] burst_of_facts [of "[]"] by auto
  show ?thesis
    using dst_key_zero dpdk_filter_run [of "[?env, burst_of []]" "\<lparr>app = replicate 256 1, pkt_rec = 0, per_lcore_cycles = 0, events = []\<rparr>"
        key_list_lookup "[0]" id] env
    by (auto simp: payload_words_frame key_list_lookup_def)
qed

end
