(* ===== verification/Dpdk_Lcores.thy ===== *)
theory Dpdk_Lcores
  imports Dpdk_Filter
begin

text \<open>
  \<open>rte_eal_mp_remote_launch(lcore_main, args, CALL_MAIN)\<close>: the batch programs on several lcores at once.  Every lcore polls
  its own queue, but the cells of the result and \<open>pkt_rec\<close> are shared and touched by single atomic operations: the
  \<open>accesses\<close> of a program.  A step relation interleaves them.  One lcore alone does what \<open>batch_poll\<close> does
  (\<open>access_job\<close>); with several, sums and bins stay exact, copies can be torn.
\<close>

section \<open>Accesses to the shared state\<close>

text \<open>
  \<open>rte_atomic32_add\<close> and \<open>rte_atomic32_set\<close> of a cell, \<open>rte_atomic32_add(pkt_rec, nb_mng_rx)\<close>, and the test of
  \<open>rte_atomic32_read(pkt_rec)\<close>, after which \<open>bufs[0]\<close> is offered to the driver or not.
\<close>

datatype access = Add nat u32 | Put nat u32 | Count u16 | Test nat

record shared =
  cells :: "u32 list"
  total :: u32
  replies :: "nat list"

fun do_access :: "access \<Rightarrow> shared \<Rightarrow> shared option" where
  "do_access (Add i d) m = do { xs \<leftarrow> atomic32_add (cells m) i d; Some (m\<lparr>cells := xs\<rparr>) }"
| "do_access (Put i v) m = do { xs \<leftarrow> atomic32_set (cells m) i v; Some (m\<lparr>cells := xs\<rparr>) }"
| "do_access (Count nb) m = Some (m\<lparr>total := total m + ucast nb\<rparr>)"
| "do_access (Test b) m =
     Some (if c_rem (total m) (int (MiB div TOT_SIZE_B)) = 0 then m\<lparr>replies := replies m @ [b]\<rparr> else m)"

definition run_accesses :: "access list \<Rightarrow> shared \<Rightarrow> shared option" where
  "run_accesses xs m = for_each do_access xs m"

text \<open>What a program does to the shared state for one frame.\<close>

definition aggregate_accesses :: "bytes \<Rightarrow> access list" where
  "aggregate_accesses d = [Add 0 (payload_sum d)]"

definition reduce_accesses :: "bytes \<Rightarrow> access list" where
  "reduce_accesses d = map (\<lambda>i. Add i (payload_word d i)) [0..<TOT_SIZE_B div DATA_SIZE_B]"

definition histogram_accesses :: "bytes \<Rightarrow> access list" where
  "histogram_accesses d = map (\<lambda>i. Add (unat (payload_word d i)) 1) [0..<TOT_SIZE_B div DATA_SIZE_B]"

definition copy_to_accesses :: "bytes \<Rightarrow> access list" where
  "copy_to_accesses d = map (\<lambda>i. Put i (payload_word d i)) [0..<TOT_SIZE_B div DATA_SIZE_B]"

definition filter_accesses :: "('h \<Rightarrow> u32 \<Rightarrow> int) \<Rightarrow> 'h \<Rightarrow> bytes \<Rightarrow> access list" where
  "filter_accesses lookup hash d = (if lookup hash (dst_key d) < 0 then [] else copy_to_accesses d)"

text \<open>One poll, and all polls of an lcore.\<close>

definition poll_accesses :: "(bytes \<Rightarrow> access list) \<Rightarrow> poll_env \<Rightarrow> access list" where
  "poll_accesses accs env =
     (if rx env = [] then []
      else concat (map accs (frames env)) @ [Count (of_nat (length (frames env))), Test (mid (hd (rx env)))])"

definition lcore_accesses :: "(bytes \<Rightarrow> access list) \<Rightarrow> poll_env list \<Rightarrow> access list" where
  "lcore_accesses accs envs = concat (map (poll_accesses accs) envs)"

lemma run_accesses_simps [simp]:
  "run_accesses [] m = Some m"
  "run_accesses (x # xs) m = do { m \<leftarrow> do_access x m; run_accesses xs m }"
  "run_accesses (xs @ ys) m = do { m \<leftarrow> run_accesses xs m; run_accesses ys m }"
  by (simp_all add: run_accesses_def for_each_append)

text \<open>Consecutive puts and additions.\<close>

lemma run_puts:
  assumes "i \<le> n" "n \<le> length (cells m)"
  shows "run_accesses (map (\<lambda>i. Put i (w i)) [i..<n]) m =
    Some (m\<lparr>cells := take i (cells m) @ map w [i..<n] @ drop n (cells m)\<rparr>)"
  using assms
proof (induction n)
  case 0
  then show ?case by simp
next
  case (Suc n)
  show ?case
  proof (cases "i = Suc n")
    case False
    have "drop n (cells m) = (cells m ! n) # drop (Suc n) (cells m)"
      using Suc.prems by (simp add: Cons_nth_drop_Suc)
    then show ?thesis
      using Suc False by (simp add: atomic32_set_def list_update_append min_absorb2)
  qed simp
qed

lemma run_adds:
  assumes "\<forall>x \<in> set xs. k x < length (cells m)"
  shows "run_accesses (map (\<lambda>x. Add (k x) (f x)) xs) m =
    Some (m\<lparr>cells := fold (\<lambda>x. cell_inc (k x) (f x)) xs (cells m)\<rparr>)"
  using assms by (induction xs arbitrary: m) (simp_all add: atomic32_add_eq)

section \<open>One lcore\<close>

primrec offered1 :: "dpdk_event \<Rightarrow> nat list" where
  "offered1 (Tx_burst ms k) = map mid ms"
| "offered1 (Pktmbuf_free i) = []"
| "offered1 (Log l) = []"

text \<open>The buffers offered to the driver.\<close>

definition offered :: "dpdk_event list \<Rightarrow> nat list" where
  "offered es = concat (map offered1 es)"

definition shared_of :: "u32 list dpdk \<Rightarrow> shared" where
  "shared_of st = \<lparr>cells = app st, total = pkt_rec st, replies = offered (events st)\<rparr>"

lemma offered_simps [simp]:
  "offered [] = []"
  "offered (es @ fs) = offered es @ offered fs"
  "offered (map (\<lambda>m. Pktmbuf_free (mid m)) ms) = []"
  "offered (replicate n (Log l)) = []"
  "offered [Tx_burst ms k] = map mid ms"
  by (auto simp: offered_def)

lemma shared_of_sel [simp]:
  "cells (shared_of st) = app st" "total (shared_of st) = pkt_rec st" "replies (shared_of st) = offered (events st)"
  by (simp_all add: shared_of_def)

lemma send_first_offered:
  assumes "send_first fixup k bufs st = Some (bufs', st')" "bufs \<noteq> []"
  shows "offered (events st') = offered (events st) @
    (if 1024 dvd unat (pkt_rec st) then [mid (hd bufs)] else [])"
  using assms by (cases bufs) (auto simp: send_first_def bind_Some_iff reply_due Let_def split: if_splits)

lemma batch_poll_offered:
  assumes "batch_poll timed work fixup scale env st = Some (Inr st')" "rx env \<noteq> []"
  shows "offered (events st') = offered (events st) @
    (if 1024 dvd unat (pkt_rec st') then [mid (hd (rx env))] else [])"
proof -
  define st0 where "st0 = (if timed then rx_latency (rx_time env) st else st)"
  have events0: "events st0 = events st"
    by (simp add: st0_def rx_latency_def)
  obtain bufs b nb st1 bufs' st2 where
      loop: "burst_loop work (rx env) (app st0) = Some (Inr (bufs, b, nb))"
    and log: "(if timed \<and> nb \<noteq> 0 then calc_latency scale env nb
        (st0\<lparr>app := b, pkt_rec := pkt_rec st0 + ucast nb\<rparr>)
      else Inr (st0\<lparr>app := b, pkt_rec := pkt_rec st0 + ucast nb\<rparr>)) = Inr st1"
    and reply: "send_first fixup (taken env) bufs st1 = Some (bufs', st2)"
    and st': "st' = emit (map (\<lambda>m. Pktmbuf_free (mid m)) bufs') st2"
    using assms(1) [unfolded batch_poll_def, folded st0_def] assms(2)
    by (auto simp: bind_Inr_iff case_Inr_iff Let_def bind_Some_iff st0_def [symmetric])
  have bufs: "bufs \<noteq> []" "mid (hd bufs) = mid (hd (rx env))"
    using burst_loop_Nil [OF loop assms(2)] by auto
  have "offered (events st1) = offered (events st)"
    using calc_latency_cases [OF log] events0 by auto
  then show ?thesis
    using send_first_offered [OF reply bufs(1)] send_first_released(3) [OF reply bufs(1)] st' bufs(2) by simp
qed

text \<open>
  The contract of a program whose work on a frame is a list of accesses: done one after the other they have its effect.
\<close>

locale access_job = lcore_job work wf okay out effect
  for work :: "u32 list packet_work" and wf :: "u32 list \<Rightarrow> bool" and okay :: "bytes \<Rightarrow> bool"
    and out :: "bytes \<Rightarrow> u32 list \<Rightarrow> bytes" and effect :: "bytes \<Rightarrow> u32 list \<Rightarrow> u32 list" +
  fixes accesses :: "bytes \<Rightarrow> access list"
  assumes accesses_effect: "1066 \<le> length d \<Longrightarrow> okay d \<Longrightarrow> wf (cells m) \<Longrightarrow>
      run_accesses (accesses d) m = Some (m\<lparr>cells := effect d (cells m)\<rparr>)"
begin

lemma frames_effect:
  "\<forall>d \<in> set ds. 1066 \<le> length d \<and> okay d \<Longrightarrow> wf (cells m) \<Longrightarrow>
     run_accesses (concat (map accesses ds)) m = Some (m\<lparr>cells := fold effect ds (cells m)\<rparr>)"
  by (induction ds arbitrary: m) (simp_all add: accesses_effect effect_wf)

text \<open>A poll is its accesses without interruption.\<close>

lemma poll_alone:
  assumes "accepts okay env" "wf (app st)" "file_ok env"
    and fixup: "\<And>d. 42 \<le> length d \<Longrightarrow> \<exists>d'. fixup d = Some d'"
  shows "\<exists>st'. batch_poll timed work fixup scale env st = Some (Inr st') \<and> wf (app st') \<and>
    run_accesses (poll_accesses accesses env) (shared_of st) = Some (shared_of st')"
proof (cases "rx env = []")
  case True
  then show ?thesis
    using assms(2) by (simp add: batch_poll_def rx_latency_def poll_accesses_def shared_of_def)
next
  case False
  obtain st' where st': "batch_poll timed work fixup scale env st = Some (Inr st')"
      "app st' = fold effect (frames env) (app st)" "pkt_rec st' = pkt_rec st + of_nat (length (frames env))"
    using batch_poll_ok [of env st fixup timed scale] assms by auto
  have ds: "\<forall>d \<in> set (frames env). 1066 \<le> length d \<and> okay d"
    using assms(1) by (auto simp: accepts_def in_bounds_def frames_def)
  have "length (frames env) \<le> 64"
    using assms(1) length_filter_le [of dpdk_frame "map room (rx env)"]
    by (simp add: accepts_def in_bounds_def frames_def del: length_filter_le)
  then have nb: "ucast (of_nat (length (frames env)) :: u16) = (of_nat (length (frames env)) :: u32)"
    by (simp add: word_unat_eq_iff unat_ucast_u16 unat_of_nat take_bit_nat_eq_self)
  have "run_accesses (poll_accesses accesses env) (shared_of st) = Some (shared_of st')"
    using False frames_effect [OF ds, of "shared_of st"] assms(2) st' nb batch_poll_offered [OF st'(1) False]
    by (simp add: poll_accesses_def shared_of_def reply_due)
  then show ?thesis
    using st' fold_wf [OF ds assms(2)] by auto
qed

lemma lcore_alone:
  assumes "\<forall>env \<in> set envs. accepts okay env \<and> file_ok env" "wf (app st)"
    and fixup: "\<And>d. 42 \<le> length d \<Longrightarrow> \<exists>d'. fixup d = Some d'"
  shows "\<exists>st'. lcore_loop (batch_poll timed work fixup scale) envs st = Some (Inr st') \<and>
    run_accesses (lcore_accesses accesses envs) (shared_of st) = Some (shared_of st')"
  using assms(1,2)
proof (induction envs arbitrary: st)
  case Nil
  then show ?case by (simp add: lcore_loop_def lcore_accesses_def)
next
  case (Cons env envs)
  obtain st1 where st1: "batch_poll timed work fixup scale env st = Some (Inr st1)" "wf (app st1)"
      "run_accesses (poll_accesses accesses env) (shared_of st) = Some (shared_of st1)"
    using poll_alone [of env st fixup timed scale] Cons.prems fixup by auto
  then show ?case
    using Cons.IH [of st1] Cons.prems(1) by (auto simp: lcore_loop_def lcore_accesses_def)
qed

end

interpretation aggr_acc: access_job dpdk_aggregate_work "\<lambda>a. length a = 1" "\<lambda>_. True" "\<lambda>d a. d" sum_effect
  aggregate_accesses
  by unfold_locales (simp add: aggregate_accesses_def atomic32_add_eq sum_effect_def)

interpretation red_acc: access_job dpdk_reduce_work "\<lambda>a. length a = 256" "\<lambda>_. True" "\<lambda>d a. d" reduce_effect
  reduce_accesses
  by unfold_locales (simp add: reduce_accesses_def reduce_effect_def run_adds)

interpretation hist_acc: access_job dpdk_histogram_work "\<lambda>a. length a = 1024"
  "\<lambda>d. \<forall>w \<in> set (payload_words d). has_bin w" "\<lambda>d a. d" "\<lambda>d. binned (payload_words d)" histogram_accesses
  by unfold_locales
     (simp add: histogram_accesses_def run_adds binned_def payload_words_def fold_map comp_def has_bin_def)

lemma run_copy:
  "length (cells m) = 256 \<Longrightarrow> run_accesses (copy_to_accesses d) m = Some (m\<lparr>cells := payload_words d\<rparr>)"
  using run_puts [of 0 256 m "payload_word d"] by (simp add: copy_to_accesses_def payload_words_def)

interpretation copy_to_acc: access_job dpdk_copy_to_work "\<lambda>a. length a = 256" "\<lambda>_. True" "\<lambda>d a. d"
  "\<lambda>d a. payload_words d" copy_to_accesses
  by unfold_locales (simp add: run_copy)

interpretation copy_from_acc: access_job dpdk_copy_from_work "\<lambda>a. length a = 256" "\<lambda>_. True"
  "\<lambda>d a. filled (\<lambda>i. a ! i) 256 d" "\<lambda>d a. a" "\<lambda>d. []"
  by unfold_locales simp

interpretation filt_acc: access_job "dpdk_filter_work lookup hash" "\<lambda>a. length a = 256" "\<lambda>_. True" "\<lambda>d a. d"
  "\<lambda>d a. if 0 \<le> lookup hash (dst_key d) then payload_words d else a" "filter_accesses lookup hash" for lookup hash
  by unfold_locales (simp add: filter_accesses_def run_copy not_less)

text \<open>The programs with their accesses and the number of their cells, whatever the frames contain.\<close>

definition lcore_programs :: "('h \<Rightarrow> u32 \<Rightarrow> int) \<Rightarrow> 'h \<Rightarrow> (bytes \<Rightarrow> u16) \<Rightarrow> (u32 list lcore \<times> (bytes \<Rightarrow> access list) \<times> nat) list" where
  "lcore_programs lookup hash cksum =
     [(dpdk_aggregate, aggregate_accesses, 1),
      (dpdk_reduce, reduce_accesses, TOT_SIZE_B div DATA_SIZE_B),
      (dpdk_copy_to_host, copy_to_accesses, TOT_SIZE_B div DATA_SIZE_B),
      (dpdk_copy_from_host cksum, (\<lambda>d. []), TOT_SIZE_B div DATA_SIZE_B),
      (dpdk_filter lookup hash, filter_accesses lookup hash, TOT_SIZE_B div DATA_SIZE_B)]"

lemma programs_alone:
  assumes "(prog, accs, n) \<in> set (lcore_programs lookup hash cksum)"
    and "\<forall>env \<in> set envs. good_burst env" "length (app st) = n"
  shows "\<exists>st'. prog scale envs st = Some (Inr st') \<and>
    run_accesses (lcore_accesses accs envs) (shared_of st) = Some (shared_of st')"
proof -
  note g = good_accepts [OF assms(2)]
  have fixup: "\<exists>d'. dpdk_refresh cksum d = Some d'" if "42 \<le> length d" for d
    using dpdk_refresh_in [OF that] by simp
  from assms(1) consider
      "prog = dpdk_aggregate" "accs = aggregate_accesses" "n = 1"
    | "prog = dpdk_reduce" "accs = reduce_accesses" "n = 256"
    | "prog = dpdk_copy_to_host" "accs = copy_to_accesses" "n = 256"
    | "prog = dpdk_copy_from_host cksum" "accs = (\<lambda>d. [])" "n = 256"
    | "prog = dpdk_filter lookup hash" "accs = filter_accesses lookup hash" "n = 256"
    by (auto simp: lcore_programs_def)
  then show ?thesis
  proof cases
    case 1 with aggr_acc.lcore_alone [OF g, of st Some True scale] assms(3) show ?thesis
      by (simp add: dpdk_aggregate_def)
  next
    case 2 with red_acc.lcore_alone [OF g, of st Some True scale] assms(3) show ?thesis
      by (simp add: dpdk_reduce_def)
  next
    case 3 with copy_to_acc.lcore_alone [OF g, of st Some True scale] assms(3) show ?thesis
      by (simp add: dpdk_copy_to_host_def)
  next
    case 4 with copy_from_acc.lcore_alone [OF g, of st "dpdk_refresh cksum" True scale] assms(3) fixup show ?thesis
      by (simp add: dpdk_copy_from_host_def)
  next
    case 5 with filt_acc.lcore_alone [OF g, where st = st and fixup = Some and timed = True and scale = scale and lookup = lookup and hash = hash] assms(3) show ?thesis
      by (simp add: dpdk_filter_def)
  qed
qed

text \<open>
  C10: on one lcore, \<open>lcore_main\<close> of a batch program is its accesses to the shared state in order: it ends with the
  same cells and packet count, and has offered the same buffers to the driver.
\<close>

theorem lcore_refines:
  assumes "(prog, accs, n) \<in> set (lcore_programs lookup hash cksum)"
    and "\<forall>env \<in> set envs. good_burst env" "length (app st) = n"
  shows "\<exists>st'. prog scale envs st = Some (Inr st') \<and>
    run_accesses (lcore_accesses accs envs) (shared_of st) = Some (shared_of st')"
  by (rule programs_alone [OF assms])

theorem lcore_refines_witness:
  "\<exists>st'. dpdk_aggregate id [burst_of [dpdk_frame_of (replicate 256 1)]]
      \<lparr>app = [5], pkt_rec = 1023, per_lcore_cycles = 0, events = []\<rparr> = Some (Inr st') \<and>
    run_accesses [Add 0 (payload_sum (dpdk_frame_of (replicate 256 1))), Count 1, Test 0]
      \<lparr>cells = [5], total = 1023, replies = []\<rparr> = Some (shared_of st') \<and> offered (events st') = [0]"
proof -
  let ?env = "burst_of [dpdk_frame_of (replicate 256 1)]"
  let ?st = "\<lparr>app = [5], pkt_rec = 1023, per_lcore_cycles = 0, events = []\<rparr> :: u32 list dpdk"
  have env: "good_burst ?env" "frames ?env = [dpdk_frame_of (replicate 256 1)]" "rx ?env \<noteq> []" "mid (hd (rx ?env)) = 0"
    using burst_of_facts [of "[replicate 256 1]"] by (auto simp: burst_of_def)
  then have accs: "lcore_accesses aggregate_accesses [?env] =
      [Add 0 (payload_sum (dpdk_frame_of (replicate 256 1))), Count 1, Test 0]"
    by (simp add: lcore_accesses_def poll_accesses_def aggregate_accesses_def)
  have start: "shared_of ?st = \<lparr>cells = [5], total = 1023, replies = []\<rparr>"
    by (simp add: shared_of_def)
  obtain st' where st': "dpdk_aggregate id [?env] ?st = Some (Inr st')"
      "run_accesses (lcore_accesses aggregate_accesses [?env]) (shared_of ?st) = Some (shared_of st')"
    using lcore_refines [of dpdk_aggregate aggregate_accesses 1 "\<lambda>_ _. 0" "()" "\<lambda>_. 0" "[?env]" ?st id] env(1)
    by (auto simp: lcore_programs_def)
  have "offered (events st') = [0]"
    using st'(2) unfolding accs by (auto simp: bind_Some_iff c_rem_1024 notifies_def shared_of_def const_defs)
  with st' show ?thesis
    unfolding accs start by blast
qed

section \<open>Several lcores\<close>

text \<open>Every step is the next access of one of the lcores, wherever it is in its polls.\<close>

record lcores =
  mem :: shared
  todo :: "access list list"

inductive lcores_step :: "lcores \<Rightarrow> lcores \<Rightarrow> bool" where
  lcores_access: "i < length (todo s) \<Longrightarrow> todo s ! i = x # xs \<Longrightarrow> do_access x (mem s) = Some m \<Longrightarrow>
    lcores_step s \<lparr>mem = m, todo = (todo s)[i := xs]\<rparr>"

code_pred lcores_step .

inductive_cases lcores_stepE: "lcores_step s t"

definition lcores_start :: "(bytes \<Rightarrow> access list) \<Rightarrow> poll_env list list \<Rightarrow> u32 list dpdk \<Rightarrow> lcores" where
  "lcores_start accs envss st = \<lparr>mem = shared_of st, todo = map (lcore_accesses accs) envss\<rparr>"

abbreviation lcores_reach :: "lcores \<Rightarrow> lcores \<Rightarrow> bool" where
  "lcores_reach \<equiv> lcores_step\<^sup>*\<^sup>*"

definition lcores_final :: "lcores \<Rightarrow> bool" where
  "lcores_final s \<longleftrightarrow> (\<forall>xs \<in> set (todo s). xs = [])"

text \<open>A weight of the outstanding accesses changes in a step by that of the access done.\<close>

definition outstanding :: "(access \<Rightarrow> 'b) \<Rightarrow> access list list \<Rightarrow> 'b::comm_monoid_add" where
  "outstanding f xss = (\<Sum>xs\<leftarrow>xss. \<Sum>x\<leftarrow>xs. f x)"

lemma sum_list_update_add:
  "i < length xs \<Longrightarrow> (\<Sum>x\<leftarrow>xs[i := y]. g x) + g (xs ! i) = (\<Sum>x\<leftarrow>xs. g x) + (g y :: 'b::comm_monoid_add)"
proof (induction xs arbitrary: i)
  case (Cons x xs)
  show ?case
  proof (cases i)
    case 0
    then show ?thesis by (simp add: ac_simps)
  next
    case (Suc j)
    then have "(\<Sum>x\<leftarrow>xs[j := y]. g x) + g (xs ! j) = (\<Sum>x\<leftarrow>xs. g x) + g y"
      using Cons by simp
    then show ?thesis
      using Suc by (simp add: add.assoc)
  qed
qed simp

lemma outstanding_step:
  assumes "i < length xss" "xss ! i = x # xs"
  shows "outstanding f xss = (outstanding f (xss[i := xs]) + f x :: 'b::cancel_comm_monoid_add)"
proof -
  have "(outstanding f (xss[i := xs]) + f x) + (\<Sum>x\<leftarrow>xs. f x) = outstanding f xss + (\<Sum>x\<leftarrow>xs. f x)"
    using sum_list_update_add [OF assms(1), of "\<lambda>xs. \<Sum>x\<leftarrow>xs. f x" xs] assms(2)
    by (simp add: outstanding_def add.assoc)
  then show ?thesis
    by simp
qed

lemma outstanding_Nil: "\<forall>xs \<in> set xss. xs = [] \<Longrightarrow> outstanding f xss = 0"
  by (induction xss) (auto simp: outstanding_def)

section \<open>Termination\<close>

text \<open>An access that stays inside \<open>n\<close> cells is always possible.\<close>

definition within :: "nat \<Rightarrow> access \<Rightarrow> bool" where
  "within n x \<longleftrightarrow> (case x of Add i d \<Rightarrow> i < n | Put i v \<Rightarrow> i < n | _ \<Rightarrow> True)"

lemma do_access_within:
  "within (length (cells m)) x \<Longrightarrow> \<exists>m'. do_access x m = Some m' \<and> length (cells m') = length (cells m)"
  by (cases x) (auto simp: within_def atomic32_add_def atomic32_set_def)

definition well_typed :: "nat \<Rightarrow> lcores \<Rightarrow> bool" where
  "well_typed n s \<longleftrightarrow> length (cells (mem s)) = n \<and> (\<forall>xs \<in> set (todo s). \<forall>x \<in> set xs. within n x)"

lemma well_typed_step:
  assumes "lcores_step s t" "well_typed n s"
  shows "well_typed n t"
  using assms(1)
proof cases
  case (lcores_access i x xs m)
  have "todo s ! i \<in> set (todo s)"
    by (rule nth_mem) (rule lcores_access)
  then have x: "within n x" "\<forall>y \<in> set xs. within n y"
    using assms(2) lcores_access by (auto simp: well_typed_def)
  then have "length (cells m) = n"
    using do_access_within [of "mem s" x] assms(2) lcores_access by (auto simp: well_typed_def)
  then show ?thesis
    using assms(2) x lcores_access by (auto simp: well_typed_def dest!: set_update_subset_insert [THEN subsetD])
qed

lemma well_typed_progress:
  assumes "well_typed n s" "\<not> lcores_final s"
  shows "\<exists>t. lcores_step s t"
proof -
  obtain i x xs where i: "i < length (todo s)" "todo s ! i = x # xs"
    using assms(2) by (auto simp: lcores_final_def in_set_conv_nth neq_Nil_conv)
  then have "within n x"
    using assms(1) nth_mem [OF i(1)] by (auto simp: well_typed_def)
  then show ?thesis
    using do_access_within [of "mem s" x] assms(1) lcores_access [OF i] by (auto simp: well_typed_def)
qed

definition left :: "lcores \<Rightarrow> nat" where
  "left s = outstanding (\<lambda>x. 1) (todo s)"

lemma left_step: "lcores_step s t \<Longrightarrow> left s = Suc (left t)"
  by (erule lcores_stepE) (simp add: left_def outstanding_step [where f = "\<lambda>x. Suc 0"])

lemma left_zero: "left s = 0 \<longleftrightarrow> lcores_final s"
  by (auto simp: left_def outstanding_def lcores_final_def sum_list_triv)

lemma left_steps: "(lcores_step ^^ k) s t \<Longrightarrow> left s = k + left t"
  by (induction k arbitrary: t) (auto dest: left_step)

lemma well_typed_steps: "lcores_reach s t \<Longrightarrow> well_typed n s \<Longrightarrow> well_typed n t"
  by (induction rule: rtranclp_induct) (auto intro: well_typed_step)

lemma within_lcore:
  assumes "\<And>d. \<forall>x \<in> set (accs d). within n x" "length (app st) = n"
  shows "well_typed n (lcores_start accs envss st)"
  using assms by (auto simp: well_typed_def lcores_start_def lcore_accesses_def poll_accesses_def within_def split: if_splits)

lemma within_programs:
  "(prog, accs, n) \<in> set (lcore_programs lookup hash cksum) \<Longrightarrow> \<forall>x \<in> set (accs d). within n x"
  by (auto simp: lcore_programs_def aggregate_accesses_def reduce_accesses_def copy_to_accesses_def
      filter_accesses_def within_def split: if_splits)


text \<open>A stretch in which only lcore \<open>i\<close> runs.\<close>

lemma lcore_runs:
  assumes "i < length (todo s)" "todo s ! i = xs @ ys" "run_accesses xs (mem s) = Some m"
  shows "(lcores_step ^^ length xs) s \<lparr>mem = m, todo = (todo s)[i := ys]\<rparr>"
  using assms
proof (induction xs arbitrary: s)
  case Nil
  then show ?case
    by (cases s) (auto simp: list_update_same_conv)
next
  case (Cons x xs)
  then obtain m1 where m1: "do_access x (mem s) = Some m1" "run_accesses xs m1 = Some m"
    by (auto simp: bind_Some_iff)
  let ?s = "\<lparr>mem = m1, todo = (todo s)[i := xs @ ys]\<rparr>"
  have "lcores_step s ?s"
    using lcores_access [of i s x "xs @ ys"] Cons.prems m1(1) by simp
  moreover have "(lcores_step ^^ length xs) ?s \<lparr>mem = m, todo = (todo s)[i := ys]\<rparr>"
    using Cons.IH [of ?s] Cons.prems m1(2) by simp
  ultimately show ?case
    by (auto simp del: relpowp.simps intro: relpowp_Suc_I2)
qed

lemma reach_final: "well_typed n s \<Longrightarrow> \<exists>t. lcores_reach s t \<and> lcores_final t"
proof (induction "left s" arbitrary: s rule: less_induct)
  case less
  show ?case
  proof (cases "lcores_final s")
    case False
    then obtain t where t: "lcores_step s t"
      using well_typed_progress less.prems by blast
    then obtain u where "lcores_reach t u" "lcores_final u"
      using less.hyps [of t] left_step [OF t] well_typed_step [OF t less.prems] by auto
    then show ?thesis
      using t by (meson converse_rtranclp_into_rtranclp)
  qed auto
qed


section \<open>Exact sums\<close>

text \<open>What an access adds to cell \<open>j\<close>, and to the packet count.\<close>

definition adds_to :: "nat \<Rightarrow> access \<Rightarrow> u32" where
  "adds_to j x = (case x of Add i d \<Rightarrow> if i = j then d else 0 | _ \<Rightarrow> 0)"

definition counts :: "access \<Rightarrow> u32" where
  "counts x = (case x of Count nb \<Rightarrow> ucast nb | _ \<Rightarrow> 0)"

definition is_put :: "access \<Rightarrow> bool" where
  "is_put x \<longleftrightarrow> (case x of Put i v \<Rightarrow> True | _ \<Rightarrow> False)"

lemma do_access_total: "do_access x m = Some m' \<Longrightarrow> total m' = total m + counts x"
  by (cases x) (auto simp: counts_def bind_Some_iff)

lemma do_access_length: "do_access x m = Some m' \<Longrightarrow> length (cells m') = length (cells m)"
  by (cases x) (auto simp: bind_Some_iff atomic32_add_def atomic32_set_def split: if_splits)

lemma do_access_adds:
  "do_access x m = Some m' \<Longrightarrow> \<not> is_put x \<Longrightarrow> j < length (cells m) \<Longrightarrow> cells m' ! j = cells m ! j + adds_to j x"
  by (cases x) (auto simp: adds_to_def is_put_def bind_Some_iff atomic32_add_def split: if_splits)

lemma run_accesses_length: "run_accesses xs m = Some m' \<Longrightarrow> length (cells m') = length (cells m)"
  by (induction xs arbitrary: m) (auto simp: bind_Some_iff do_access_length)

lemma run_total: "run_accesses xs m = Some m' \<Longrightarrow> total m' = total m + (\<Sum>x\<leftarrow>xs. counts x)"
  by (induction xs arbitrary: m) (auto simp: bind_Some_iff do_access_total add.assoc)

lemma run_adds_to:
  "run_accesses xs m = Some m' \<Longrightarrow> \<forall>x \<in> set xs. \<not> is_put x \<Longrightarrow> j < length (cells m) \<Longrightarrow>
     cells m' ! j = cells m ! j + (\<Sum>x\<leftarrow>xs. adds_to j x)"
proof (induction xs arbitrary: m)
  case (Cons x xs)
  then obtain m1 where m1: "do_access x m = Some m1" "run_accesses xs m1 = Some m'"
    by (auto simp: bind_Some_iff)
  then show ?case
    using do_access_adds [OF m1(1), of j] do_access_length [OF m1(1)] Cons by (simp add: add.assoc)
qed simp

text \<open>Nothing is lost on the way: what is there and what is outstanding make the same sum at all times.\<close>

lemma lcores_total: "lcores_reach s t \<Longrightarrow> total (mem t) + outstanding counts (todo t) =
    total (mem s) + outstanding counts (todo s)"
  by (induction rule: rtranclp_induct)
     (auto elim!: lcores_stepE simp: outstanding_step [where f = counts] do_access_total ac_simps)

definition no_puts :: "lcores \<Rightarrow> bool" where
  "no_puts s \<longleftrightarrow> (\<forall>xs \<in> set (todo s). \<forall>x \<in> set xs. \<not> is_put x)"

lemma no_puts_step:
  assumes "no_puts s" "i < length (todo s)" "todo s ! i = x # xs"
  shows "\<not> is_put x" "no_puts \<lparr>mem = m, todo = (todo s)[i := xs]\<rparr>"
proof -
  have "todo s ! i \<in> set (todo s)"
    by (rule nth_mem) (rule assms)
  then show "\<not> is_put x" "no_puts \<lparr>mem = m, todo = (todo s)[i := xs]\<rparr>"
    using assms by (auto simp: no_puts_def dest!: set_update_subset_insert [THEN subsetD])
qed

lemma lcores_length: "lcores_reach s t \<Longrightarrow> length (cells (mem t)) = length (cells (mem s))"
  by (induction rule: rtranclp_induct) (auto elim!: lcores_stepE simp: do_access_length)

lemma lcores_adds:
  assumes "lcores_reach s t" "no_puts s" "j < length (cells (mem s))"
  shows "no_puts t \<and> cells (mem t) ! j + outstanding (adds_to j) (todo t) =
      cells (mem s) ! j + outstanding (adds_to j) (todo s)"
  using assms(1)
proof (induction rule: rtranclp_induct)
  case base
  then show ?case using assms by simp
next
  case (step t u)
  from step.hyps(2) show ?case
  proof cases
    case (lcores_access i x xs m)
    then show ?thesis
      using step.IH no_puts_step(1) [of t i x xs] no_puts_step(2) [of t i x xs m] do_access_adds [OF lcores_access(4), of j]
        lcores_length [OF step.hyps(1)] assms(3)
      by (simp add: outstanding_step [where f = "adds_to j", OF lcores_access(2,3)] ac_simps)
  qed
qed

lemma outstanding_concat: "outstanding f xss = (\<Sum>x\<leftarrow>concat xss. f x)"
  by (induction xss) (simp_all add: outstanding_def)

text \<open>Without puts the end of an interleaving is that of doing the lcores one after the other.\<close>

lemma interleaving_exact:
  assumes "lcores_reach s t" "lcores_final t" "no_puts s" "run_accesses (concat (todo s)) (mem s) = Some m"
  shows "cells (mem t) = cells m" and "total (mem t) = total m"
proof -
  have t: "outstanding f (todo t) = 0" for f :: "access \<Rightarrow> u32"
    by (rule outstanding_Nil) (use assms(2) in \<open>simp add: lcores_final_def\<close>)
  show "total (mem t) = total m"
    using lcores_total [OF assms(1)] run_total [OF assms(4)] t by (simp add: outstanding_concat)
  have puts: "\<forall>x \<in> set (concat (todo s)). \<not> is_put x"
    using assms(3) by (auto simp: no_puts_def)
  show "cells (mem t) = cells m"
  proof (rule nth_equalityI)
    show "length (cells (mem t)) = length (cells m)"
      using run_accesses_length [OF assms(4)] lcores_length [OF assms(1)] by simp
  next
    fix j assume "j < length (cells (mem t))"
    then have "j < length (cells (mem s))"
      using lcores_length [OF assms(1)] by simp
    then show "cells (mem t) ! j = cells m ! j"
      using lcores_adds [OF assms(1,3)] run_adds_to [OF assms(4) puts] t by (simp add: outstanding_concat)
  qed
qed

text \<open>The programs that only add, and what they need of a frame.\<close>

definition adding_programs :: "(u32 list lcore \<times> (bytes \<Rightarrow> access list) \<times> nat \<times> (bytes \<Rightarrow> bool)) list" where
  "adding_programs =
     [(dpdk_aggregate, aggregate_accesses, 1, \<lambda>d. True),
      (dpdk_reduce, reduce_accesses, TOT_SIZE_B div DATA_SIZE_B, \<lambda>d. True),
      (dpdk_histogram, histogram_accesses, HISTOG_NR, \<lambda>d. \<forall>w \<in> set (payload_words d). has_bin w)]"

lemma adding_alone:
  assumes "(prog, accs, n, okay) \<in> set adding_programs"
    and "\<forall>env \<in> set envs. good_burst env \<and> (\<forall>d \<in> set (frames env). okay d)" "length (app st) = n"
  shows "\<exists>st'. prog scale envs st = Some (Inr st') \<and>
    run_accesses (lcore_accesses accs envs) (shared_of st) = Some (shared_of st')"
proof -
  have g: "\<forall>env \<in> set envs. accepts okay env \<and> file_ok env"
    using assms(2) by (auto simp: good_burst_def accepts_def)
  from assms(1) consider
      "prog = dpdk_aggregate" "accs = aggregate_accesses" "n = 1" "okay = (\<lambda>d. True)"
    | "prog = dpdk_reduce" "accs = reduce_accesses" "n = 256" "okay = (\<lambda>d. True)"
    | "prog = dpdk_histogram" "accs = histogram_accesses" "n = 1024" "okay = (\<lambda>d. \<forall>w \<in> set (payload_words d). has_bin w)"
    by (auto simp: adding_programs_def HISTOG_NR_def)
  then show ?thesis
  proof cases
    case 1 with aggr_acc.lcore_alone [OF g [unfolded 1], of st Some True scale] assms(3) show ?thesis
      by (simp add: dpdk_aggregate_def)
  next
    case 2 with red_acc.lcore_alone [OF g [unfolded 2], of st Some True scale] assms(3) show ?thesis
      by (simp add: dpdk_reduce_def)
  next
    case 3 with hist_acc.lcore_alone [OF g [unfolded 3], of st Some True scale] assms(3) show ?thesis
      by (simp add: dpdk_histogram_def)
  qed
qed

lemma no_puts_start:
  assumes "\<And>d. \<forall>x \<in> set (accs d). \<not> is_put x"
  shows "no_puts (lcores_start accs envss st)"
  using assms
  by (auto simp: no_puts_def lcores_start_def lcore_accesses_def poll_accesses_def is_put_def split: if_splits)

text \<open>
  C9: in every interleaving of any number of lcores, aggregate, reduce and histogram end with the cells and the packet
  count that one lcore has after polling all the bursts of the others as well, one lcore after the other.
\<close>

theorem lcores_exact:
  assumes "(prog, accs, n, okay) \<in> set adding_programs"
    and "\<forall>envs \<in> set envss. \<forall>env \<in> set envs. good_burst env \<and> (\<forall>d \<in> set (frames env). okay d)" "length (app st) = n"
    and "lcores_reach (lcores_start accs envss st) s" "lcores_final s"
  shows "\<exists>st'. prog scale (concat envss) st = Some (Inr st') \<and> cells (mem s) = app st' \<and> total (mem s) = pkt_rec st'"
proof -
  obtain st' where st': "prog scale (concat envss) st = Some (Inr st')"
      "run_accesses (lcore_accesses accs (concat envss)) (shared_of st) = Some (shared_of st')"
    using adding_alone [OF assms(1), of "concat envss" st scale] assms(2,3) by auto
  have "\<forall>x \<in> set (accs d). \<not> is_put x" for d
    using assms(1) by (auto simp: adding_programs_def aggregate_accesses_def reduce_accesses_def
        histogram_accesses_def is_put_def)
  then have puts: "no_puts (lcores_start accs envss st)"
    by (rule no_puts_start)
  have "lcore_accesses accs (concat envss) = concat (map (lcore_accesses accs) envss)"
    by (induction envss) (simp_all add: lcore_accesses_def)
  then have "run_accesses (concat (todo (lcores_start accs envss st))) (mem (lcores_start accs envss st)) =
      Some (shared_of st')"
    using st'(2) by (simp add: lcores_start_def)
  then show ?thesis
    using interleaving_exact [OF assms(4,5) puts] st'(1) by auto
qed

theorem lcores_exact_witness:
  "\<exists>s. lcores_reach (lcores_start aggregate_accesses [[burst_of [dpdk_frame_of (replicate 256 1)]],
        [burst_of [dpdk_frame_of (replicate 256 2)]]] \<lparr>app = [5], pkt_rec = 0, per_lcore_cycles = 0, events = []\<rparr>) s \<and>
     lcores_final s \<and> cells (mem s) ! 0 = 773 \<and> total (mem s) = 2"
proof -
  let ?f = "\<lambda>c. dpdk_frame_of (replicate 256 c)"
  let ?envss = "[[burst_of [?f 1]], [burst_of [?f 2]]]"
  let ?st = "\<lparr>app = [5], pkt_rec = 0, per_lcore_cycles = 0, events = []\<rparr> :: u32 list dpdk"
  have env: "good_burst (burst_of [?f c])" "frames (burst_of [?f c]) = [?f c]" for c
    using burst_of_facts [of "[replicate 256 c]"] by simp_all
  have "well_typed 1 (lcores_start aggregate_accesses ?envss ?st)"
    by (rule within_lcore) (simp_all add: aggregate_accesses_def within_def)
  then obtain s where s: "lcores_reach (lcores_start aggregate_accesses ?envss ?st) s" "lcores_final s"
    using reach_final by blast
  then obtain st' where "dpdk_aggregate id (concat ?envss) ?st = Some (Inr st')"
      "cells (mem s) = app st'" "total (mem s) = pkt_rec st'"
    using lcores_exact [of dpdk_aggregate aggregate_accesses 1 "\<lambda>_. True" ?envss ?st s id] env(1)
    by (auto simp: adding_programs_def)
  moreover have "payload_sum (?f c) = 256 * c" for c
    using arg_cong [OF payload_words_frame [of "replicate 256 c"], of sum_list]
    by (simp add: payload_sum_def payload_words_def sum_list_replicate)
  ultimately show ?thesis
    using dpdk_aggregate_sums [of "concat ?envss" ?st id] env s by auto
qed

section \<open>Torn copies\<close>

text \<open>The last value that a list of accesses puts into cell \<open>j\<close>.\<close>

primrec last_put :: "nat \<Rightarrow> access list \<Rightarrow> u32 option" where
  "last_put j [] = None"
| "last_put j (x # xs) = (case last_put j xs of Some v \<Rightarrow> Some v
     | None \<Rightarrow> (case x of Put i v \<Rightarrow> if i = j then Some v else None | _ \<Rightarrow> None))"

definition is_add :: "access \<Rightarrow> bool" where
  "is_add x \<longleftrightarrow> (case x of Add i d \<Rightarrow> True | _ \<Rightarrow> False)"

lemma last_put_append: "last_put j (xs @ ys) = (case last_put j ys of Some v \<Rightarrow> Some v | None \<Rightarrow> last_put j xs)"
  by (induction xs) (auto split: option.splits)

lemma do_access_put:
  "do_access x m = Some m' \<Longrightarrow> \<not> is_add x \<Longrightarrow> j < length (cells m) \<Longrightarrow>
     cells m' ! j = (case last_put j [x] of Some v \<Rightarrow> v | None \<Rightarrow> cells m ! j)"
  by (cases x) (auto simp: is_add_def bind_Some_iff atomic32_set_def split: if_splits)

definition put_inv :: "nat \<Rightarrow> lcores \<Rightarrow> lcores \<Rightarrow> bool" where
  "put_inv j s t \<longleftrightarrow> length (todo t) = length (todo s) \<and> (\<forall>xs \<in> set (todo t). \<forall>x \<in> set xs. \<not> is_add x) \<and>
     (\<forall>i<length (todo s). last_put j (todo t ! i) \<in> {None, last_put j (todo s ! i)}) \<and>
     ((\<exists>i<length (todo s). last_put j (todo t ! i) \<noteq> None \<or> last_put j (todo s ! i) = Some (cells (mem t) ! j)) \<or>
      (\<forall>i<length (todo s). last_put j (todo s ! i) = None) \<and> cells (mem t) ! j = cells (mem s) ! j)"

lemma put_inv_step:
  assumes "lcores_step t u" "put_inv j s t" "j < length (cells (mem t))"
  shows "put_inv j s u"
  using assms(1)
proof cases
  case (lcores_access i x xs m)
  note inv = assms(2) [unfolded put_inv_def]
  have "todo t ! i \<in> set (todo t)"
    by (rule nth_mem) (rule lcores_access)
  then have x: "\<not> is_add x" "\<forall>y \<in> set xs. \<not> is_add y"
    using inv lcores_access by auto
  have adds: "\<forall>xs \<in> set (todo u). \<forall>x \<in> set xs. \<not> is_add x"
    using inv x(2) lcores_access by (auto dest!: set_update_subset_insert [THEN subsetD])
  have cell: "cells m ! j = (case last_put j [x] of Some v \<Rightarrow> v | None \<Rightarrow> cells (mem t) ! j)"
    using do_access_put [OF lcores_access(4) x(1) assms(3)] .
  have last: "last_put j (todo t ! i) = (case last_put j xs of Some v \<Rightarrow> Some v | None \<Rightarrow> last_put j [x])"
    using lcores_access last_put_append [of j "[x]" xs] by (simp only: append_Cons append_Nil)
  show ?thesis
  proof (cases "last_put j [x]")
    case None
    then have "last_put j (todo u ! k) = last_put j (todo t ! k)" if "k < length (todo s)" for k
      using last that lcores_access inv by (cases "k = i") (auto split: option.splits)
    moreover have "cells (mem u) ! j = cells (mem t) ! j" "length (todo u) = length (todo t)"
      using cell None lcores_access by simp_all
    ultimately show ?thesis
      using inv adds unfolding put_inv_def by metis
  next
    case (Some v)
    have i: "i < length (todo s)" "last_put j (todo u ! i) = last_put j xs"
      using inv lcores_access by auto
    have "last_put j (todo t ! i) \<noteq> None"
      unfolding last Some by (simp split: option.split)
    then have "last_put j (todo s ! i) = last_put j (todo t ! i)"
      using inv i(1) by (metis insertE singletonD)
    then have "last_put j (todo s ! i) = (case last_put j xs of Some v \<Rightarrow> Some v | None \<Rightarrow> Some v)"
      by (simp only: last Some)
    moreover have "cells m ! j = v"
      unfolding cell Some by simp
    ultimately have "last_put j xs \<noteq> None \<or> last_put j (todo s ! i) = Some (cells m ! j)"
      "last_put j xs \<in> {None, last_put j (todo s ! i)}"
      by (cases "last_put j xs"; simp)+
    moreover have "last_put j (todo u ! k) \<in> {None, last_put j (todo s ! k)}" if "k < length (todo s)" for k
      using inv that i(2) calculation(2) lcores_access by (cases "k = i") auto
    ultimately show ?thesis
      using inv adds i lcores_access unfolding put_inv_def by auto
  qed
qed

lemma put_inv_reach:
  assumes "lcores_reach s t" "\<forall>xs \<in> set (todo s). \<forall>x \<in> set xs. \<not> is_add x" "j < length (cells (mem s))"
  shows "put_inv j s t"
  using assms(1)
proof (induction rule: rtranclp_induct)
  case base
  then show ?case
    using assms(2) by (auto simp: put_inv_def)
next
  case (step t u)
  then show ?case
    using put_inv_step assms(3) lcores_length by simp
qed

lemma last_put_copy: "last_put j (map (\<lambda>i. Put i (w i)) [0..<n]) = (if j < n then Some (w j) else None)"
  by (induction n) (auto simp: last_put_append)

lemma last_put_frames:
  assumes "j < 256"
  shows "last_put j (concat (map copy_to_accesses ds)) = (if ds = [] then None else Some (payload_word (last ds) j))"
  using assms by (induction ds) (auto simp: last_put_append last_put_copy copy_to_accesses_def)

lemma last_put_lcore:
  assumes "j < 256"
  shows "last_put j (lcore_accesses copy_to_accesses envs) =
    (if all_frames envs = [] then None else Some (payload_word (last (all_frames envs)) j))"
proof (induction envs)
  case Nil
  then show ?case by (simp add: lcore_accesses_def)
next
  case (Cons env envs)
  have "last_put j (poll_accesses copy_to_accesses env) =
      (if frames env = [] then None else Some (payload_word (last (frames env)) j))"
    using last_put_frames [OF assms, of "frames env"]
    by (simp add: poll_accesses_def frames_def last_put_append split: option.split)
  moreover have "lcore_accesses copy_to_accesses (env # envs) =
      poll_accesses copy_to_accesses env @ lcore_accesses copy_to_accesses envs"
    by (simp add: lcore_accesses_def)
  ultimately show ?case
    using Cons.IH by (simp add: last_put_append)
qed

text \<open>
  In every interleaving of lcores that run \<open>copy_to_host\<close>, each cell ends with the integer at its position in the
  last frame of some lcore (or as it was, if no lcore received a frame).
\<close>

theorem copy_lcores_cells:
  assumes "length (app st) = 256" "lcores_reach (lcores_start copy_to_accesses envss st) s" "lcores_final s" "j < 256"
  shows "(\<exists>envs \<in> set envss. all_frames envs \<noteq> [] \<and> cells (mem s) ! j = payload_word (last (all_frames envs)) j) \<or>
    (\<forall>envs \<in> set envss. all_frames envs = []) \<and> cells (mem s) ! j = app st ! j"
proof -
  let ?s0 = "lcores_start copy_to_accesses envss st"
  have "\<forall>xs \<in> set (todo ?s0). \<forall>x \<in> set xs. \<not> is_add x"
    by (auto simp: lcores_start_def lcore_accesses_def poll_accesses_def copy_to_accesses_def is_add_def split: if_splits)
  then have inv: "put_inv j ?s0 s"
    using put_inv_reach [OF assms(2)] assms(1,4) by (simp add: lcores_start_def)
  have todo0: "todo ?s0 ! i = lcore_accesses copy_to_accesses (envss ! i)" if "i < length envss" for i
    using that by (simp add: lcores_start_def)
  have len: "length (todo ?s0) = length envss" "cells (mem ?s0) = app st"
    by (simp_all add: lcores_start_def)
  have "todo s ! i = []" if "i < length envss" for i
    using assms(3) inv that len(1) nth_mem [of i "todo s"] by (simp add: lcores_final_def put_inv_def)
  then have "(\<exists>i<length envss. last_put j (todo ?s0 ! i) = Some (cells (mem s) ! j)) \<or>
      (\<forall>i<length envss. last_put j (todo ?s0 ! i) = None) \<and> cells (mem s) ! j = app st ! j"
    using inv len unfolding put_inv_def by auto
  then have "(\<exists>envs \<in> set envss. last_put j (lcore_accesses copy_to_accesses envs) = Some (cells (mem s) ! j)) \<or>
      (\<forall>envs \<in> set envss. last_put j (lcore_accesses copy_to_accesses envs) = None) \<and> cells (mem s) ! j = app st ! j"
    using todo0 by (metis in_set_conv_nth)
  moreover have "(if b then None else Some x) = Some v \<longleftrightarrow> \<not> b \<and> v = x" "(if b then None else Some x) = None \<longleftrightarrow> b"
    for b and x v :: u32
    by auto
  ultimately show ?thesis
    unfolding last_put_lcore [OF assms(4)] by (simp only:)
qed

lemma burst_of_one:
  "frames (burst_of [dpdk_frame_of (replicate 256 c)]) = [dpdk_frame_of (replicate 256 c)]"
  "payload_words (dpdk_frame_of (replicate 256 c)) = replicate 256 c"
  using burst_of_facts(2) [of "[replicate 256 c]"] payload_words_frame [of "replicate 256 c"] by simp_all

theorem copy_lcores_cells_witness:
  "\<exists>s. lcores_reach (lcores_start copy_to_accesses [[burst_of [dpdk_frame_of (replicate 256 1)]],
        [burst_of [dpdk_frame_of (replicate 256 2)]]]
        \<lparr>app = replicate 256 0, pkt_rec = 0, per_lcore_cycles = 0, events = []\<rparr>) s \<and>
     lcores_final s \<and> cells (mem s) ! 7 \<in> {1, 2}"
proof -
  let ?f = "\<lambda>c. dpdk_frame_of (replicate 256 c)"
  let ?envss = "[[burst_of [?f 1]], [burst_of [?f 2]]]"
  let ?st = "\<lparr>app = replicate 256 0, pkt_rec = 0, per_lcore_cycles = 0, events = []\<rparr> :: u32 list dpdk"
  have "well_typed 256 (lcores_start copy_to_accesses ?envss ?st)"
    by (rule within_lcore) (simp_all add: copy_to_accesses_def within_def)
  then obtain s where s: "lcores_reach (lcores_start copy_to_accesses ?envss ?st) s" "lcores_final s"
    using reach_final by blast
  have "payload_word (?f c) 7 = c" for c
    by (simp add: dpdk_frame_of_facts)
  then have "cells (mem s) ! 7 \<in> {1, 2}"
    using copy_lcores_cells [of ?st ?envss s 7] s by (auto simp: burst_of_one)
  with s show ?thesis
    by blast
qed

text \<open>
  C12: nothing keeps the copy of one lcore from being interrupted by that of another: when two lcores each receive a
  frame, the host cells can end with the first \<open>k\<close> integers of one frame and the others of the other, for any \<open>k\<close>.
\<close>

theorem copy_lcores_torn:
  assumes "length (app st) = 256" "frames e1 = [d1]" "frames e2 = [d2]" "k \<le> 256"
  shows "\<exists>s. lcores_reach (lcores_start copy_to_accesses [[e1], [e2]] st) s \<and> lcores_final s \<and>
    cells (mem s) = take k (payload_words d1) @ drop k (payload_words d2)"
proof -
  let ?s0 = "lcores_start copy_to_accesses [[e1], [e2]] st"
  define puts where "puts d i n = map (\<lambda>i. Put i (payload_word d i)) [i..<n]" for d i n
  define end1 where "end1 = [Count 1, Test (mid (hd (rx e1)))]"
  define end2 where "end2 = [Count 1, Test (mid (hd (rx e2)))]"
  have split: "[0..<256] = [0..<k] @ [k..<256]"
    using upt_add_eq_append [of 0 k "256 - k"] assms(4) by simp
  have "rx e1 \<noteq> []" "rx e2 \<noteq> []"
    using assms(2,3) by (auto simp: frames_def)
  then have todo0: "todo ?s0 = [puts d1 0 256 @ end1, puts d2 0 k @ puts d2 k 256 @ end2]"
    using assms(2,3) split
    by (simp add: lcores_start_def lcore_accesses_def poll_accesses_def copy_to_accesses_def puts_def end1_def end2_def)
  have run: "run_accesses (puts d i n) m = Some (m\<lparr>cells := take i (cells m) @ map (payload_word d) [i..<n] @ drop n (cells m)\<rparr>)"
    if "i \<le> n" "n \<le> length (cells m)" for d i n and m :: shared
    using run_puts [OF that] by (simp add: puts_def)
  obtain m1 where m1: "run_accesses (puts d2 0 k) (mem ?s0) = Some m1" "length (cells m1) = 256"
    using run [of 0 k "mem ?s0" d2] assms(1,4) by (simp add: lcores_start_def)
  obtain m2 where m2: "run_accesses (puts d1 0 256 @ end1) m1 = Some m2" "cells m2 = payload_words d1"
    using run [of 0 256 m1 d1] m1(2) by (simp add: end1_def payload_words_def)
  obtain m3 where m3: "run_accesses (puts d2 k 256 @ end2) m2 = Some m3"
      "cells m3 = take k (payload_words d1) @ map (payload_word d2) [k..<256]"
    using run [of k 256 m2 d2] m2(2) assms(4) by (simp add: end2_def payload_words_def)
  let ?s1 = "\<lparr>mem = m1, todo = [puts d1 0 256 @ end1, puts d2 k 256 @ end2]\<rparr>"
  let ?s2 = "\<lparr>mem = m2, todo = [[], puts d2 k 256 @ end2]\<rparr>"
  let ?s3 = "\<lparr>mem = m3, todo = [[], []]\<rparr>"
  have "lcores_reach ?s0 ?s1" "lcores_reach ?s1 ?s2" "lcores_reach ?s2 ?s3"
    using lcore_runs [of 1 ?s0 "puts d2 0 k" "puts d2 k 256 @ end2" m1, THEN relpowp_imp_rtranclp] m1(1)
      lcore_runs [of 0 ?s1 "puts d1 0 256 @ end1" "[]" m2, THEN relpowp_imp_rtranclp] m2(1)
      lcore_runs [of 1 ?s2 "puts d2 k 256 @ end2" "[]" m3, THEN relpowp_imp_rtranclp] m3(1)
    by (simp_all add: todo0)
  then have "lcores_reach ?s0 ?s3"
    by (meson rtranclp_trans)
  moreover have "cells m3 = take k (payload_words d1) @ drop k (payload_words d2)"
    using m3(2) by (simp add: payload_words_def drop_map)
  ultimately show ?thesis
    by (intro exI [of _ ?s3]) (simp add: lcores_final_def)
qed

theorem copy_lcores_torn_witness:
  "\<exists>s. lcores_reach (lcores_start copy_to_accesses [[burst_of [dpdk_frame_of (replicate 256 1)]],
        [burst_of [dpdk_frame_of (replicate 256 2)]]]
        \<lparr>app = replicate 256 0, pkt_rec = 0, per_lcore_cycles = 0, events = []\<rparr>) s \<and>
     lcores_final s \<and> cells (mem s) = replicate 100 1 @ replicate 156 2"
proof -
  let ?st = "\<lparr>app = replicate 256 0, pkt_rec = 0, per_lcore_cycles = 0, events = []\<rparr> :: u32 list dpdk"
  show ?thesis
    using copy_lcores_torn [of ?st, OF _ burst_of_one(1) [of 1] burst_of_one(1) [of 2], of 100]
    by (simp add: burst_of_one(2))
qed

end
