(* ===== verification/Xdp_Cores.thy ===== *)
theory Xdp_Cores
  imports Dpdk_Lcores Xdp_Aggregate Xdp_Reduce Xdp_Histogram
begin

text \<open>
  The XDP batch programs on several cores at once: the network card spreads the packets over its queues, every queue has
  its core, and all cores share the maps.  The accesses to the maps are the same atomic operations as in the DPDK
  programs (\<open>__sync_fetch_and_add\<close> of an element and of \<open>rxpkt\<close>, and the test of \<open>*nr_pkt\<close>), so that the step relation
  and its lemmas are those of \<open>Dpdk_Lcores\<close>.  \<open>Xdp_Race\<close> looks at the count alone, whose test can miss; here the results.
\<close>

section \<open>Accesses of an invocation\<close>

text \<open>An invocation with its number: the additions, and for a packet that is counted the count and its test.\<close>

definition invocation_accesses :: "('e \<Rightarrow> access list) \<Rightarrow> ('e \<Rightarrow> bool) \<Rightarrow> nat \<times> 'e \<Rightarrow> access list" where
  "invocation_accesses adds acc = (\<lambda>(b, e). adds e @ (if acc e then [Count 1, Test b] else []))"

definition xdp_aggregate_adds :: "timed \<Rightarrow> access list" where
  "xdp_aggregate_adds = (\<lambda>(t0, t1, p). if job_frame p then aggregate_accesses p else [])"

definition xdp_reduce_adds :: "timed \<Rightarrow> access list" where
  "xdp_reduce_adds = (\<lambda>(t0, t1, p). if job_frame p then reduce_accesses p else [])"

text \<open>The lookup of bin 1024 gives null, so that it is not added to.\<close>

definition xdp_histogram_adds :: "timed \<Rightarrow> access list" where
  "xdp_histogram_adds = (\<lambda>(t0, t1, p). if job_frame p
     then map (\<lambda>w. Add (unat w) 1) (filter (\<lambda>w. unat w < HISTOG_NR) (counted_words p)) else [])"

text \<open>The maps of a program, as far as they are counters.\<close>

definition maps_of :: "('s \<Rightarrow> nat \<Rightarrow> u32) \<Rightarrow> nat \<Rightarrow> ('s \<Rightarrow> u32) \<Rightarrow> 's \<Rightarrow> nat list \<Rightarrow> shared" where
  "maps_of cell n cnt st r = \<lparr>cells = map (cell st) [0..<n], total = cnt st, replies = r\<rparr>"

definition cores_start :: "('e \<Rightarrow> access list) \<Rightarrow> ('e \<Rightarrow> bool) \<Rightarrow> shared \<Rightarrow> (nat \<times> 'e) list list \<Rightarrow> lcores" where
  "cores_start adds acc m ess = \<lparr>mem = m, todo = map (\<lambda>es. concat (map (invocation_accesses adds acc) es)) ess\<rparr>"

section \<open>One core\<close>

lemma adds_to_Add: "adds_to j (Add i d) = (if i = j then d else 0)"
  by (simp add: adds_to_def)

lemma run_only_adds:
  assumes "\<forall>x \<in> set xs. \<exists>i d. x = Add i d \<and> i < length (cells m)"
  shows "\<exists>cs. run_accesses xs m = Some (m\<lparr>cells := cs\<rparr>) \<and> length cs = length (cells m) \<and>
    (\<forall>j<length cs. cs ! j = cells m ! j + (\<Sum>x\<leftarrow>xs. adds_to j x))"
  using assms
proof (induction xs arbitrary: m)
  case Nil
  then show ?case
    by (intro exI [of _ "cells m"]) simp
next
  case (Cons x xs)
  then obtain i d where x: "x = Add i d" "i < length (cells m)"
    by auto
  let ?m = "m\<lparr>cells := (cells m)[i := cells m ! i + d]\<rparr>"
  have "\<forall>x \<in> set xs. \<exists>i d. x = Add i d \<and> i < length (cells ?m)"
    using Cons.prems by simp
  then obtain cs where cs: "run_accesses xs ?m = Some (?m\<lparr>cells := cs\<rparr>)" "length cs = length (cells ?m)"
      "\<forall>j<length cs. cs ! j = cells ?m ! j + (\<Sum>x\<leftarrow>xs. adds_to j x)"
    using Cons.IH by blast
  then show ?case
    using x by (intro exI [of _ cs]) (simp add: atomic32_add_def adds_to_Add nth_list_update add.assoc)
qed

text \<open>
  The contract: the program adds to \<open>n\<close> counters what its list of additions says; the rest is that of a batch program.
\<close>

locale core_job = accumulating_job handle wf count accepts cell contrib "{..<n}"
  for handle :: "'e \<Rightarrow> 's \<Rightarrow> 's xdp_result"
    and wf :: "'s \<Rightarrow> bool"
    and count :: "'s \<Rightarrow> u32"
    and accepts :: "'e \<Rightarrow> bool"
    and cell :: "'s \<Rightarrow> nat \<Rightarrow> u32"
    and contrib :: "'e \<Rightarrow> nat \<Rightarrow> u32"
    and n :: nat +
  fixes adds :: "'e \<Rightarrow> access list"
  assumes adds_only: "x \<in> set (adds e) \<Longrightarrow> \<exists>i d. x = Add i d \<and> i < n"
    and adds_contrib: "j < n \<Longrightarrow> (\<Sum>x\<leftarrow>adds e. adds_to j x) = contrib e j"
begin

text \<open>An invocation alone is its accesses.\<close>

lemma invocation_alone:
  assumes "wf s" "handle e s = Some (a, q, s')"
  shows "run_accesses (invocation_accesses adds accepts (b, e)) (maps_of cell n count s r) =
    Some (maps_of cell n count s' (r @ (if a = XDP_TX then [b] else [])))"
proof -
  let ?m = "maps_of cell n count s r"
  have "\<forall>x \<in> set (adds e). \<exists>i d. x = Add i d \<and> i < length (cells ?m)"
    using adds_only [of _ e] by (simp add: maps_of_def)
  then obtain cs where cs: "run_accesses (adds e) ?m = Some (?m\<lparr>cells := cs\<rparr>)" "length cs = n"
      "\<forall>j<n. cs ! j = cells ?m ! j + (\<Sum>x\<leftarrow>adds e. adds_to j x)"
    using run_only_adds [of "adds e" ?m] by (auto simp: maps_of_def)
  have "cs = map (cell s') [0..<n]"
    using cs(2,3) accumulates [OF assms] by (intro nth_equalityI) (simp_all add: adds_contrib maps_of_def)
  moreover have "count s' = (if accepts e then count s + 1 else count s)" "a = XDP_TX \<longleftrightarrow> accepts e \<and> notifies (count s')"
    using handles [OF assms(1), of e] assms(2) by auto
  ultimately show ?thesis
    using cs(1) by (auto simp: invocation_accesses_def maps_of_def const_defs c_rem_1024)
qed

text \<open>A run on one core; the numbers of the packets that are sent back.\<close>

lemma core_alone:
  assumes "wf s" "run_xdp handle (map snd es) s = Some (out, s')"
  shows "run_accesses (concat (map (invocation_accesses adds accepts) es)) (maps_of cell n count s r) =
    Some (maps_of cell n count s' (r @ map fst (filter (\<lambda>(b, a). a = XDP_TX) (zip (map fst es) (map fst out)))))"
  using assms
proof (induction es arbitrary: s r out)
  case Nil
  then show ?case by simp
next
  case (Cons be es)
  obtain b e where be: "be = (b, e)"
    by fastforce
  obtain a q s1 where h: "handle e s = Some (a, q, s1)" "wf s1"
    using handles [OF Cons.prems(1), of e] by blast
  obtain out1 where o: "run_xdp handle (map snd es) s1 = Some (out1, s')" "out = (a, q) # out1"
    using Cons.prems(2) h(1) by (auto simp: be split: Option.bind_splits)
  show ?case
    using Cons.IH [OF h(2) o(1)] invocation_alone [OF Cons.prems(1) h(1)] by (simp add: be o(2))
qed

lemma adds_safe:
  "no_puts (cores_start adds accepts m ess)"
  "length (cells m) = n \<Longrightarrow> well_typed n (cores_start adds accepts m ess)"
  using adds_only
  by (fastforce simp: no_puts_def well_typed_def cores_start_def invocation_accesses_def is_put_def within_def
      split: if_splits)+

text \<open>Several cores end with the counters that one core has after all packets.\<close>

lemma cores_exact:
  assumes "wf st" "lcores_reach (cores_start adds accepts (maps_of cell n count st r) ess) s" "lcores_final s"
  shows "\<exists>out st'. run_xdp handle (map snd (concat ess)) st = Some (out, st') \<and>
    cells (mem s) = map (cell st') [0..<n] \<and> total (mem s) = count st'"
proof -
  obtain out st' where st': "run_xdp handle (map snd (concat ess)) st = Some (out, st')"
    using run [OF assms(1)] by blast
  have "concat (map (\<lambda>es. concat (map (invocation_accesses adds accepts) es)) ess) =
      concat (map (invocation_accesses adds accepts) (concat ess))"
    by (induction ess) simp_all
  then show ?thesis
    using interleaving_exact [OF assms(2,3) adds_safe(1)] core_alone [OF assms(1) st', of r] st'
    by (auto simp: cores_start_def maps_of_def)
qed

end

section \<open>The programs\<close>

sublocale bpf_array \<subseteq> aggr_core: core_job "\<lambda>(t0, t1, p). aggregate ops t0 t1 p" "aggregate_wf max_entries" "pkt_count ops"
  "\<lambda>(t0, t1, p). job_frame p" "\<lambda>st _. sum_of ops st" "\<lambda>(t0, t1, p) _. sum_contrib p ()" 1 xdp_aggregate_adds
proof (unfold_locales, goal_cases)
  case (1 s e a q s' i)
  then show ?case
    using aggr.accumulates [OF 1(1,2)] by (auto split: prod.splits)
qed (auto simp: xdp_aggregate_adds_def aggregate_accesses_def sum_contrib_def adds_to_Add split: prod.splits if_splits)

lemma reduce_adds_to:
  "j < 256 \<Longrightarrow> (\<Sum>x\<leftarrow>reduce_accesses p. adds_to j x) = payload_word p j"
  by (simp add: reduce_accesses_def comp_def adds_to_Add const_defs sum_list_distinct_conv_sum_set)

sublocale bpf_array \<subseteq> red_core: core_job "\<lambda>(t0, t1, p). reduce ops t0 t1 p" "reduce_wf max_entries" "pkt_count ops"
  "\<lambda>(t0, t1, p). job_frame p" "red_at ops" "\<lambda>(t0, t1, p). red_contrib p" 256 xdp_reduce_adds
proof (unfold_locales, goal_cases)
  case (1 x e)
  then show ?case
    by (auto simp: xdp_reduce_adds_def reduce_accesses_def const_defs split: prod.splits if_splits)
next
  case (2 j e)
  then show ?case
    by (auto simp: xdp_reduce_adds_def red_contrib_def reduce_adds_to split: prod.splits)
qed

lemma bin_adds_to:
  "unat i < 1024 \<Longrightarrow>
     (\<Sum>w\<leftarrow>filter (\<lambda>w :: u32. unat w < 1024) ws. adds_to (unat i) (Add (unat w) 1)) = (of_nat (count_list ws i) :: u32)"
  by (induction ws) (auto simp: adds_to_Add dest: word_unat_eq_iff [THEN iffD2])

lemma histogram_adds_to:
  assumes "j < 1024"
  shows "(\<Sum>w\<leftarrow>filter (\<lambda>w :: u32. unat w < 1024) ws. adds_to j (Add (unat w) 1)) = (of_nat (count_list ws (of_nat j)) :: u32)"
proof -
  have j: "unat (of_nat j :: u32) = j"
    using assms by (simp add: unat_of_nat take_bit_nat_eq_self)
  show ?thesis
    using bin_adds_to [of "of_nat j" ws] assms unfolding j by blast
qed

sublocale bpf_array \<subseteq> hist_core: core_job "\<lambda>(t0, t1, p). histogram ops t0 t1 p" "histogram_wf max_entries" "pkt_count ops"
  "\<lambda>(t0, t1, p). histogram_job p" "bin ops" "\<lambda>(t0, t1, p). bin_contrib p" 1024 xdp_histogram_adds
proof (unfold_locales, goal_cases)
  case (1 x e)
  then show ?case
    by (auto simp: xdp_histogram_adds_def HISTOG_NR_def split: prod.splits if_splits)
next
  case (2 j e)
  then show ?case
    by (auto simp: xdp_histogram_adds_def bin_contrib_def HISTOG_NR_def histogram_adds_to comp_def split: prod.splits)
qed

context bpf_array
begin

lemmas aggr_cores = aggr_core.cores_exact
lemmas red_cores = red_core.cores_exact
lemmas hist_cores = hist_core.cores_exact

end

section \<open>Properties\<close>

text \<open>Every interleaving ends like the run of one core on the packets of all queues.\<close>

definition ends_as_one_core :: "(timed \<Rightarrow> 's \<Rightarrow> 's xdp_result) \<Rightarrow> (timed \<Rightarrow> access list) \<Rightarrow> (timed \<Rightarrow> bool) \<Rightarrow>
    ('s \<Rightarrow> nat \<Rightarrow> u32) \<Rightarrow> nat \<Rightarrow> ('s \<Rightarrow> u32) \<Rightarrow> (nat \<times> timed) list list \<Rightarrow> 's \<Rightarrow> bool" where
  "ends_as_one_core handle adds acc cell n cnt ess st \<longleftrightarrow>
     (\<forall>s. lcores_reach (cores_start adds acc (maps_of cell n cnt st []) ess) s \<and> lcores_final s \<longrightarrow>
       (\<exists>out st'. run_xdp handle (map snd (concat ess)) st = Some (out, st') \<and>
         cells (mem s) = map (cell st') [0..<n] \<and> total (mem s) = cnt st'))"

text \<open>
  C7: on any number of cores and in every interleaving of their accesses to the maps, the XDP programs aggregate, reduce and
  histogram end with the results and the packet count of a single core that handles the packets of all queues.
\<close>

theorem xdp_cores_exact:
  assumes "bpf_array ops me"
  shows "(aggregate_wf me a \<longrightarrow> ends_as_one_core (\<lambda>(t0, t1, p). aggregate ops t0 t1 p) xdp_aggregate_adds
      (\<lambda>(t0, t1, p). job_frame p) (\<lambda>st _. sum_of ops st) 1 (pkt_count ops) ess a) \<and>
    (reduce_wf me r \<longrightarrow> ends_as_one_core (\<lambda>(t0, t1, p). reduce ops t0 t1 p) xdp_reduce_adds
      (\<lambda>(t0, t1, p). job_frame p) (red_at ops) 256 (pkt_count ops) ess r) \<and>
    (histogram_wf me h \<longrightarrow> ends_as_one_core (\<lambda>(t0, t1, p). histogram ops t0 t1 p) xdp_histogram_adds
      (\<lambda>(t0, t1, p). histogram_job p) (bin ops) 1024 (pkt_count ops) ess h)"
  using bpf_array.aggr_cores [OF assms] bpf_array.red_cores [OF assms] bpf_array.hist_cores [OF assms]
  unfolding ends_as_one_core_def by blast

text \<open>Two cores with a frame of ones each, from a sum of 7.\<close>

theorem xdp_cores_exact_witness:
  "\<exists>s. lcores_reach (cores_start xdp_aggregate_adds (\<lambda>(t0, t1, p). job_frame p) \<lparr>cells = [7], total = 1023, replies = []\<rparr>
      [[(0, 5, 9, ones_frame)], [(1, 6, 8, ones_frame)]]) s \<and> lcores_final s \<and> cells (mem s) = [519] \<and> total (mem s) = 1025"
proof -
  let ?ess = "[[(0, 5, 9, ones_frame)], [(1, 6, 8, ones_frame)]] :: (nat \<times> timed) list list"
  let ?st = "\<lparr>rxpkt = [1023], rxaggr = [7]\<rparr> :: u32 list aggregate_maps"
  let ?start = "cores_start xdp_aggregate_adds (\<lambda>(t0, t1, p). job_frame p) \<lparr>cells = [7], total = 1023, replies = []\<rparr> ?ess"
  have maps: "maps_of (\<lambda>st _. sum_of array_map st) 1 (pkt_count array_map) ?st [] = \<lparr>cells = [7], total = 1023, replies = []\<rparr>"
    by (simp add: maps_of_def start_maps)
  have "well_typed 1 ?start"
    by (rule arr.aggr_core.adds_safe(2)) simp
  then obtain s where s: "lcores_reach ?start s" "lcores_final s"
    using reach_final by blast
  have "ends_as_one_core (\<lambda>(t0, t1, p). aggregate array_map t0 t1 p) xdp_aggregate_adds (\<lambda>(t0, t1, p). job_frame p)
      (\<lambda>st _. sum_of array_map st) 1 (pkt_count array_map) ?ess ?st"
    using xdp_cores_exact [OF arr.bpf_array_axioms, of ?st ?ess] by (simp add: aggregate_wf_def)
  then obtain out st' where st': "run_xdp (\<lambda>(t0, t1, p). aggregate array_map t0 t1 p) (map snd (concat ?ess)) ?st = Some (out, st')"
      "cells (mem s) = [sum_of array_map st']" "total (mem s) = pkt_count array_map st'"
    unfolding ends_as_one_core_def maps using s by fastforce
  have "jobs (map snd (concat ?ess)) = [ones_frame, ones_frame]"
    by (simp add: jobs_def job_frame_ones)
  then have "sum_of array_map st' = 519" "pkt_count array_map st' = 1025"
    using aggregate_sums [OF arr.bpf_array_axioms, of ?st "map snd (concat ?ess)"] st'(1)
    by (auto simp: payload_sum_ones start_maps simp del: run_xdp.simps)
  with s st' show ?thesis
    by auto
qed

end
