(* ===== verification/Zuc.thy ===== *)
theory Zuc
  imports Prelude
begin

text \<open>
  The ZUC stream cipher and 128-EEA3 of \<open>src/dpdk/zuc/zuc.h\<close> (\<open>src/pspin/zuc/handlers/zuc.h\<close> is the same code with
  other type names and another buffer for the keystream).  The global registers are a record that the
  functions pass along.

  \<open>LFSRWithInitialisationMode\<close> reads its local \<open>f\<close> before it is set.  The value it finds there is a parameter
  \<open>junk\<close>, by number of the call and current registers; the standard (and \<open>LFSRWithWorkMode\<close>) start from \<open>LFSR_S0\<close>,
  which is the instance \<open>junk = (\<lambda>_. LFSR_S0)\<close>.
\<close>

section \<open>Registers and tables\<close>

record zuc =
  LFSR_S0 :: u32
  LFSR_S1 :: u32
  LFSR_S2 :: u32
  LFSR_S3 :: u32
  LFSR_S4 :: u32
  LFSR_S5 :: u32
  LFSR_S6 :: u32
  LFSR_S7 :: u32
  LFSR_S8 :: u32
  LFSR_S9 :: u32
  LFSR_S10 :: u32
  LFSR_S11 :: u32
  LFSR_S12 :: u32
  LFSR_S13 :: u32
  LFSR_S14 :: u32
  LFSR_S15 :: u32
  F_R1 :: u32
  F_R2 :: u32
  BRC_X0 :: u32
  BRC_X1 :: u32
  BRC_X2 :: u32
  BRC_X3 :: u32

definition S0 :: bytes where
  "S0 = [
    0x3e, 0x72, 0x5b, 0x47, 0xca, 0xe0, 0x00, 0x33, 0x04, 0xd1, 0x54, 0x98, 0x09, 0xb9, 0x6d, 0xcb,
    0x7b, 0x1b, 0xf9, 0x32, 0xaf, 0x9d, 0x6a, 0xa5, 0xb8, 0x2d, 0xfc, 0x1d, 0x08, 0x53, 0x03, 0x90,
    0x4d, 0x4e, 0x84, 0x99, 0xe4, 0xce, 0xd9, 0x91, 0xdd, 0xb6, 0x85, 0x48, 0x8b, 0x29, 0x6e, 0xac,
    0xcd, 0xc1, 0xf8, 0x1e, 0x73, 0x43, 0x69, 0xc6, 0xb5, 0xbd, 0xfd, 0x39, 0x63, 0x20, 0xd4, 0x38,
    0x76, 0x7d, 0xb2, 0xa7, 0xcf, 0xed, 0x57, 0xc5, 0xf3, 0x2c, 0xbb, 0x14, 0x21, 0x06, 0x55, 0x9b,
    0xe3, 0xef, 0x5e, 0x31, 0x4f, 0x7f, 0x5a, 0xa4, 0x0d, 0x82, 0x51, 0x49, 0x5f, 0xba, 0x58, 0x1c,
    0x4a, 0x16, 0xd5, 0x17, 0xa8, 0x92, 0x24, 0x1f, 0x8c, 0xff, 0xd8, 0xae, 0x2e, 0x01, 0xd3, 0xad,
    0x3b, 0x4b, 0xda, 0x46, 0xeb, 0xc9, 0xde, 0x9a, 0x8f, 0x87, 0xd7, 0x3a, 0x80, 0x6f, 0x2f, 0xc8,
    0xb1, 0xb4, 0x37, 0xf7, 0x0a, 0x22, 0x13, 0x28, 0x7c, 0xcc, 0x3c, 0x89, 0xc7, 0xc3, 0x96, 0x56,
    0x07, 0xbf, 0x7e, 0xf0, 0x0b, 0x2b, 0x97, 0x52, 0x35, 0x41, 0x79, 0x61, 0xa6, 0x4c, 0x10, 0xfe,
    0xbc, 0x26, 0x95, 0x88, 0x8a, 0xb0, 0xa3, 0xfb, 0xc0, 0x18, 0x94, 0xf2, 0xe1, 0xe5, 0xe9, 0x5d,
    0xd0, 0xdc, 0x11, 0x66, 0x64, 0x5c, 0xec, 0x59, 0x42, 0x75, 0x12, 0xf5, 0x74, 0x9c, 0xaa, 0x23,
    0x0e, 0x86, 0xab, 0xbe, 0x2a, 0x02, 0xe7, 0x67, 0xe6, 0x44, 0xa2, 0x6c, 0xc2, 0x93, 0x9f, 0xf1,
    0xf6, 0xfa, 0x36, 0xd2, 0x50, 0x68, 0x9e, 0x62, 0x71, 0x15, 0x3d, 0xd6, 0x40, 0xc4, 0xe2, 0x0f,
    0x8e, 0x83, 0x77, 0x6b, 0x25, 0x05, 0x3f, 0x0c, 0x30, 0xea, 0x70, 0xb7, 0xa1, 0xe8, 0xa9, 0x65,
    0x8d, 0x27, 0x1a, 0xdb, 0x81, 0xb3, 0xa0, 0xf4, 0x45, 0x7a, 0x19, 0xdf, 0xee, 0x78, 0x34, 0x60]"

definition S1 :: bytes where
  "S1 = [
    0x55, 0xc2, 0x63, 0x71, 0x3b, 0xc8, 0x47, 0x86, 0x9f, 0x3c, 0xda, 0x5b, 0x29, 0xaa, 0xfd, 0x77,
    0x8c, 0xc5, 0x94, 0x0c, 0xa6, 0x1a, 0x13, 0x00, 0xe3, 0xa8, 0x16, 0x72, 0x40, 0xf9, 0xf8, 0x42,
    0x44, 0x26, 0x68, 0x96, 0x81, 0xd9, 0x45, 0x3e, 0x10, 0x76, 0xc6, 0xa7, 0x8b, 0x39, 0x43, 0xe1,
    0x3a, 0xb5, 0x56, 0x2a, 0xc0, 0x6d, 0xb3, 0x05, 0x22, 0x66, 0xbf, 0xdc, 0x0b, 0xfa, 0x62, 0x48,
    0xdd, 0x20, 0x11, 0x06, 0x36, 0xc9, 0xc1, 0xcf, 0xf6, 0x27, 0x52, 0xbb, 0x69, 0xf5, 0xd4, 0x87,
    0x7f, 0x84, 0x4c, 0xd2, 0x9c, 0x57, 0xa4, 0xbc, 0x4f, 0x9a, 0xdf, 0xfe, 0xd6, 0x8d, 0x7a, 0xeb,
    0x2b, 0x53, 0xd8, 0x5c, 0xa1, 0x14, 0x17, 0xfb, 0x23, 0xd5, 0x7d, 0x30, 0x67, 0x73, 0x08, 0x09,
    0xee, 0xb7, 0x70, 0x3f, 0x61, 0xb2, 0x19, 0x8e, 0x4e, 0xe5, 0x4b, 0x93, 0x8f, 0x5d, 0xdb, 0xa9,
    0xad, 0xf1, 0xae, 0x2e, 0xcb, 0x0d, 0xfc, 0xf4, 0x2d, 0x46, 0x6e, 0x1d, 0x97, 0xe8, 0xd1, 0xe9,
    0x4d, 0x37, 0xa5, 0x75, 0x5e, 0x83, 0x9e, 0xab, 0x82, 0x9d, 0xb9, 0x1c, 0xe0, 0xcd, 0x49, 0x89,
    0x01, 0xb6, 0xbd, 0x58, 0x24, 0xa2, 0x5f, 0x38, 0x78, 0x99, 0x15, 0x90, 0x50, 0xb8, 0x95, 0xe4,
    0xd0, 0x91, 0xc7, 0xce, 0xed, 0x0f, 0xb4, 0x6f, 0xa0, 0xcc, 0xf0, 0x02, 0x4a, 0x79, 0xc3, 0xde,
    0xa3, 0xef, 0xea, 0x51, 0xe6, 0x6b, 0x18, 0xec, 0x1b, 0x2c, 0x80, 0xf7, 0x74, 0xe7, 0xff, 0x21,
    0x5a, 0x6a, 0x54, 0x1e, 0x41, 0x31, 0x92, 0x35, 0xc4, 0x33, 0x07, 0x0a, 0xba, 0x7e, 0x0e, 0x34,
    0x88, 0xb1, 0x98, 0x7c, 0xf3, 0x3d, 0x60, 0x6c, 0x7b, 0xca, 0xd3, 0x1f, 0x32, 0x65, 0x04, 0x28,
    0x64, 0xbe, 0x85, 0x9b, 0x2f, 0x59, 0x8a, 0xd7, 0xb0, 0x25, 0xac, 0xaf, 0x12, 0x03, 0xe2, 0xf2]"

definition EK_d :: "u32 list" where
  "EK_d = [
    0x44D7, 0x26BC, 0x626B, 0x135E, 0x5789, 0x35E2, 0x7135, 0x09AF,
    0x4D78, 0x2F13, 0x6BC4, 0x1AF1, 0x5E26, 0x3C4D, 0x789A, 0x47AC]"

section \<open>The linear feedback shift register\<close>

definition AddM :: "u32 \<Rightarrow> u32 \<Rightarrow> u32" where
  "AddM a b = (let c = a + b in (c AND 0x7FFFFFFF) + drop_bit 31 c)"

definition MulByPow2 :: "u32 \<Rightarrow> nat \<Rightarrow> u32" where
  "MulByPow2 x k = (push_bit k x OR drop_bit (31 - k) x) AND 0x7FFFFFFF"

text \<open>\<open>/* update the state */\<close>: the cells move down by one and \<open>f\<close> comes in.\<close>

definition shift_in :: "u32 \<Rightarrow> zuc \<Rightarrow> zuc" where
  "shift_in f st = st\<lparr>
     LFSR_S0 := LFSR_S1 st,
     LFSR_S1 := LFSR_S2 st,
     LFSR_S2 := LFSR_S3 st,
     LFSR_S3 := LFSR_S4 st,
     LFSR_S4 := LFSR_S5 st,
     LFSR_S5 := LFSR_S6 st,
     LFSR_S6 := LFSR_S7 st,
     LFSR_S7 := LFSR_S8 st,
     LFSR_S8 := LFSR_S9 st,
     LFSR_S9 := LFSR_S10 st,
     LFSR_S10 := LFSR_S11 st,
     LFSR_S11 := LFSR_S12 st,
     LFSR_S12 := LFSR_S13 st,
     LFSR_S13 := LFSR_S14 st,
     LFSR_S14 := LFSR_S15 st,
     LFSR_S15 := f\<rparr>"

definition LFSRWithInitialisationMode :: "u32 \<Rightarrow> u32 \<Rightarrow> zuc \<Rightarrow> zuc" where
  "LFSRWithInitialisationMode f u st = (
     let v = MulByPow2 f 8;
         f = AddM f v;
         v = MulByPow2 (LFSR_S4 st) 20;
         f = AddM f v;
         v = MulByPow2 (LFSR_S10 st) 21;
         f = AddM f v;
         v = MulByPow2 (LFSR_S13 st) 17;
         f = AddM f v;
         v = MulByPow2 (LFSR_S15 st) 15;
         f = AddM f v;
         f = AddM f u
     in shift_in f st)"

definition LFSRWithWorkMode :: "zuc \<Rightarrow> zuc" where
  "LFSRWithWorkMode st = (
     let f = LFSR_S0 st;
         v = MulByPow2 (LFSR_S0 st) 8;
         f = AddM f v;
         v = MulByPow2 (LFSR_S4 st) 20;
         f = AddM f v;
         v = MulByPow2 (LFSR_S10 st) 21;
         f = AddM f v;
         v = MulByPow2 (LFSR_S13 st) 17;
         f = AddM f v;
         v = MulByPow2 (LFSR_S15 st) 15;
         f = AddM f v
     in shift_in f st)"

section \<open>Bit reorganisation and the nonlinear function\<close>

definition BitReorganization :: "zuc \<Rightarrow> zuc" where
  "BitReorganization st = st\<lparr>
     BRC_X0 := push_bit 1 (LFSR_S15 st AND 0x7FFF8000) OR (LFSR_S14 st AND 0xFFFF),
     BRC_X1 := push_bit 16 (LFSR_S11 st AND 0xFFFF) OR drop_bit 15 (LFSR_S9 st),
     BRC_X2 := push_bit 16 (LFSR_S7 st AND 0xFFFF) OR drop_bit 15 (LFSR_S5 st),
     BRC_X3 := push_bit 16 (LFSR_S2 st AND 0xFFFF) OR drop_bit 15 (LFSR_S0 st)\<rparr>"

definition ROT :: "u32 \<Rightarrow> nat \<Rightarrow> u32" where
  "ROT a k = push_bit k a OR drop_bit (32 - k) a"

definition L1 :: "u32 \<Rightarrow> u32" where
  "L1 X = X XOR ROT X 2 XOR ROT X 10 XOR ROT X 18 XOR ROT X 24"

definition L2 :: "u32 \<Rightarrow> u32" where
  "L2 X = X XOR ROT X 8 XOR ROT X 14 XOR ROT X 22 XOR ROT X 30"

definition MAKEU32 :: "u8 \<Rightarrow> u8 \<Rightarrow> u8 \<Rightarrow> u8 \<Rightarrow> u32" where
  "MAKEU32 a b c d = push_bit 24 (ucast a) OR push_bit 16 (ucast b) OR push_bit 8 (ucast c) OR ucast d"

text \<open>The four table lookups with the bytes of a word; every index is below 256.\<close>

definition sboxes :: "u32 \<Rightarrow> u32" where
  "sboxes u = MAKEU32 (S0 ! unat (drop_bit 24 u)) (S1 ! unat (drop_bit 16 u AND 0xFF))
     (S0 ! unat (drop_bit 8 u AND 0xFF)) (S1 ! unat (u AND 0xFF))"

definition F :: "zuc \<Rightarrow> u32 \<times> zuc" where
  "F st = (
     let W = (BRC_X0 st XOR F_R1 st) + F_R2 st;
         W1 = F_R1 st + BRC_X1 st;
         W2 = F_R2 st XOR BRC_X2 st;
         u = L1 (push_bit 16 W1 OR drop_bit 16 W2);
         v = L2 (push_bit 16 W2 OR drop_bit 16 W1)
     in (W, st\<lparr>F_R1 := sboxes u, F_R2 := sboxes v\<rparr>))"

definition MAKEU31 :: "u8 \<Rightarrow> u32 \<Rightarrow> u8 \<Rightarrow> u32" where
  "MAKEU31 a b c = push_bit 23 (ucast a) OR push_bit 8 b OR ucast c"

section \<open>The cipher\<close>

text \<open>The \<open>while (nCount > 0)\<close> loop; \<open>n\<close> is \<open>nCount\<close>.\<close>

primrec init_rounds :: "(nat \<Rightarrow> zuc \<Rightarrow> u32) \<Rightarrow> nat \<Rightarrow> zuc \<Rightarrow> zuc" where
  "init_rounds junk 0 st = st"
| "init_rounds junk (Suc n) st = (
     let st = BitReorganization st;
         (w, st) = F st;
         st = LFSRWithInitialisationMode (junk n st) (drop_bit 1 w) st
     in init_rounds junk n st)"

text \<open>Expand the key, and set \<open>F_R1\<close> and \<open>F_R2\<close> to zero.\<close>

definition expand_key :: "bytes \<Rightarrow> bytes \<Rightarrow> zuc \<Rightarrow> zuc" where
  "expand_key k iv st = st\<lparr>
     LFSR_S0 := MAKEU31 (k ! 0) (EK_d ! 0) (iv ! 0),
     LFSR_S1 := MAKEU31 (k ! 1) (EK_d ! 1) (iv ! 1),
     LFSR_S2 := MAKEU31 (k ! 2) (EK_d ! 2) (iv ! 2),
     LFSR_S3 := MAKEU31 (k ! 3) (EK_d ! 3) (iv ! 3),
     LFSR_S4 := MAKEU31 (k ! 4) (EK_d ! 4) (iv ! 4),
     LFSR_S5 := MAKEU31 (k ! 5) (EK_d ! 5) (iv ! 5),
     LFSR_S6 := MAKEU31 (k ! 6) (EK_d ! 6) (iv ! 6),
     LFSR_S7 := MAKEU31 (k ! 7) (EK_d ! 7) (iv ! 7),
     LFSR_S8 := MAKEU31 (k ! 8) (EK_d ! 8) (iv ! 8),
     LFSR_S9 := MAKEU31 (k ! 9) (EK_d ! 9) (iv ! 9),
     LFSR_S10 := MAKEU31 (k ! 10) (EK_d ! 10) (iv ! 10),
     LFSR_S11 := MAKEU31 (k ! 11) (EK_d ! 11) (iv ! 11),
     LFSR_S12 := MAKEU31 (k ! 12) (EK_d ! 12) (iv ! 12),
     LFSR_S13 := MAKEU31 (k ! 13) (EK_d ! 13) (iv ! 13),
     LFSR_S14 := MAKEU31 (k ! 14) (EK_d ! 14) (iv ! 14),
     LFSR_S15 := MAKEU31 (k ! 15) (EK_d ! 15) (iv ! 15),
     F_R1 := 0,
     F_R2 := 0\<rparr>"

definition Initialization :: "(nat \<Rightarrow> zuc \<Rightarrow> u32) \<Rightarrow> bytes \<Rightarrow> bytes \<Rightarrow> zuc \<Rightarrow> zuc option" where
  "Initialization junk k iv st =
     (if length k < 16 \<or> length iv < 16 then None
      else Some (init_rounds junk 32 (expand_key k iv st)))"

primrec keystream_loop :: "nat \<Rightarrow> zuc \<Rightarrow> u32 list \<times> zuc" where
  "keystream_loop 0 st = ([], st)"
| "keystream_loop (Suc n) st = (
     let st = BitReorganization st;
         (w, st) = F st;
         z = w XOR BRC_X3 st;
         st = LFSRWithWorkMode st;
         (zs, st) = keystream_loop n st
     in (z # zs, st))"

text \<open>The words written to \<open>pKeystream[0 .. KeystreamLen - 1]\<close>, and the registers.\<close>

definition GenerateKeystream :: "nat \<Rightarrow> zuc \<Rightarrow> u32 list \<times> zuc" where
  "GenerateKeystream KeystreamLen st = (
     let st = BitReorganization st;
         (_, st) = F st;
         st = LFSRWithWorkMode st
     in keystream_loop KeystreamLen st)"

definition ZUC :: "(nat \<Rightarrow> zuc \<Rightarrow> u32) \<Rightarrow> bytes \<Rightarrow> bytes \<Rightarrow> nat \<Rightarrow> zuc \<Rightarrow> (u32 list \<times> zuc) option" where
  "ZUC junk k iv len st = do {
     st \<leftarrow> Initialization junk k iv st;
     Some (GenerateKeystream len st)
   }"

section \<open>128-EEA3\<close>

definition eea3_iv :: bytes where
  "eea3_iv = (
     let BEARER = 120 :: u32; COUNT = 150 :: u32; DIRECTION = 1 :: u32;
         iv0 = ucast (drop_bit 24 COUNT AND 0xFF);
         iv1 = ucast (drop_bit 16 COUNT AND 0xFF);
         iv2 = ucast (drop_bit 8 COUNT AND 0xFF);
         iv3 = ucast (COUNT AND 0xFF);
         iv4 = ucast ((push_bit 3 BEARER OR push_bit 2 (DIRECTION AND 1)) AND 0xFC)
     in [iv0, iv1, iv2, iv3, iv4, 0, 0, 0, iv0, iv1, iv2, iv3, iv4, 0, 0, 0])"

text \<open>
  \<open>M\<close> and \<open>C\<close> are the words at the two pointers, in separate buffers; an access past the end of either is
  undefined.  The buffer \<open>z\<close> of \<open>L\<close> words is taken to be available (\<open>rte_malloc\<close> is not checked).
\<close>

definition eea3_words :: "u32 \<Rightarrow> nat" where
  "eea3_words len = unat ((len + 31) div 32)"

definition EEA3 :: "(nat \<Rightarrow> zuc \<Rightarrow> u32) \<Rightarrow> bytes \<Rightarrow> u32 \<Rightarrow> u32 list \<Rightarrow> u32 list \<Rightarrow> zuc \<Rightarrow> (u32 list \<times> zuc) option" where
  "EEA3 junk CK len M C st = (
     let L = eea3_words len in do {
       (z, st) \<leftarrow> ZUC junk CK eea3_iv L st;
       C \<leftarrow> for_each (\<lambda>i C. if i < length M \<and> i < length C then Some (C[i := M ! i XOR z ! i]) else None) [0..<L] C;
       Some (C, st)
     })"

end
