(* ===== verification/Zuc_Props.thy ===== *)
theory Zuc_Props
  imports Zuc
begin

text \<open>
  Properties of the cipher of \<open>Zuc\<close>: arithmetic modulo \<open>2^31 - 1\<close>, the register invariant, the S-boxes, the
  diffusion functions, and 128-EEA3 as an involution.
\<close>

section \<open>Arithmetic modulo \<open>2^31 - 1\<close>\<close>

abbreviation zp :: nat where "zp \<equiv> 2147483647"

lemma and_mask31: "(x :: u32) AND 0x7FFFFFFF = take_bit 31 x"
proof -
  have "mask 31 = (0x7FFFFFFF :: u32)"
    by (simp add: mask_eq_exp_minus_1)
  then show ?thesis
    by (simp add: take_bit_eq_mask)
qed

lemma unat_drop_bit: "unat (drop_bit n (x :: u32)) = unat x div 2 ^ n"
proof -
  have "take_bit 32 (unat x) = unat x"
    using unsigned_less [where ?'a = nat and w = x] by (simp add: take_bit_nat_eq_self)
  then show ?thesis
    by (subst unsigned_drop_bit_eq) (simp add: drop_bit_nat_def)
qed

lemma unat_take_bit: "unat (take_bit n (x :: u32)) = unat x mod 2 ^ n"
  by (subst unsigned_take_bit_eq) (rule take_bit_eq_mod)

lemma unat_push_bit: "unat (push_bit n (x :: u32)) = unat x * 2 ^ n mod 2 ^ 32"
  by (subst unsigned_push_bit_eq) (simp add: push_bit_nat_def take_bit_nat_def)

lemma unat_plus_small: "unat a + unat b < 2 ^ 32 \<Longrightarrow> unat (a + b :: u32) = unat a + unat b"
  by (simp only: unat_word_ariths(1)) simp

lemma small_sum: "(r::nat) < 2 ^ 31 \<Longrightarrow> q < 2 ^ 31 \<Longrightarrow> r + q < 2 ^ 32"
  by simp

lemma unat_AddM:
  assumes "unat a + unat b < 2 ^ 32"
  shows "unat (AddM a b) = (unat a + unat b) mod 2 ^ 31 + (unat a + unat b) div 2 ^ 31"
proof -
  have c: "unat (a + b) = unat a + unat b"
    using assms by (rule unat_plus_small)
  have parts: "unat (take_bit 31 (a + b)) = (unat a + unat b) mod 2 ^ 31"
      "unat (drop_bit 31 (a + b)) = (unat a + unat b) div 2 ^ 31"
    by (simp_all only: unat_take_bit unat_drop_bit c)
  have "(unat a + unat b) div 2 ^ 31 < 2 ^ 31"
    using assms by (intro less_mult_imp_div_less) simp
  moreover have "(unat a + unat b) mod 2 ^ 31 < 2 ^ 31"
    by simp
  ultimately have "unat (take_bit 31 (a + b)) + unat (drop_bit 31 (a + b)) < 2 ^ 32"
    unfolding parts by (intro small_sum) simp_all
  from unat_plus_small [OF this] show ?thesis
    unfolding AddM_def Let_def and_mask31 parts .
qed

lemma AddM_mod:
  assumes "unat a \<le> zp" "unat b \<le> zp"
  shows "unat (AddM a b) \<le> zp" "unat (AddM a b) mod zp = (unat a + unat b) mod zp"
    "AddM a b = 0 \<longleftrightarrow> a = 0 \<and> b = 0"
proof -
  define s where "s = unat a + unat b"
  have s: "s \<le> 2 * zp"
    using assms by (simp add: s_def)
  have u: "unat (AddM a b) = s mod 2147483648 + s div 2147483648"
    using assms unat_AddM [of a b] by (simp add: s_def)
  show "unat (AddM a b) \<le> zp"
  proof (cases "s < 2147483648")
    case False
    then have "s div 2147483648 = 1" "s mod 2147483648 = s - 2147483648"
      using s by (simp_all add: div_nat_eqI mod_if)
    then show ?thesis
      using s u by simp
  qed (use u in simp)
  have "s = zp * (s div 2147483648) + unat (AddM a b)"
    using div_mult_mod_eq [of s 2147483648] unfolding u by linarith
  then show "unat (AddM a b) mod zp = (unat a + unat b) mod zp"
    unfolding s_def [symmetric] by (metis mod_mult_self4)
  have "unat (AddM a b) = 0 \<longleftrightarrow> s = 0"
    unfolding u by (metis add_is_0 div_mult_mod_eq div_0 mod_0 mult_0)
  then show "AddM a b = 0 \<longleftrightarrow> a = 0 \<and> b = 0"
    by (simp add: s_def unat_eq_0)
qed

lemma unat_MulByPow2:
  assumes "unat x \<le> zp" "k \<le> 31"
  shows "unat (MulByPow2 x k) = (unat x mod 2 ^ (31 - k)) * 2 ^ k + unat x div 2 ^ (31 - k)"
proof -
  have x: "\<not> bit x n" if "31 \<le> n" for n
  proof -
    have "take_bit 31 x = x"
      using assms(1) by (simp add: word_unat_eq_iff unat_take_bit)
    then show ?thesis
      using that by (metis bit_take_bit_iff not_le)
  qed
  have disj: "bit (take_bit 31 (push_bit k x)) n \<Longrightarrow> \<not> bit (drop_bit (31 - k) x) n" for n
    using x assms(2) by (auto simp: bit_simps)
  have "MulByPow2 x k = take_bit 31 (push_bit k x) OR drop_bit (31 - k) x"
    unfolding MulByPow2_def and_mask31 by (rule bit_word_eqI) (use x in \<open>auto simp: bit_simps\<close>)
  also have "\<dots> = take_bit 31 (push_bit k x) + drop_bit (31 - k) x"
    by (rule disjunctive_add [symmetric]) (use disj in blast)
  finally have m: "MulByPow2 x k = take_bit 31 (push_bit k x) + drop_bit (31 - k) x" .
  have "(2::nat) ^ 31 = 2 ^ (31 - k) * 2 ^ k"
    using assms(2) by (simp flip: power_add)
  then have t: "unat (take_bit 31 (push_bit k x)) = (unat x mod 2 ^ (31 - k)) * 2 ^ k"
    unfolding unat_take_bit unat_push_bit
    using mod_mod_cancel [of "2 ^ 31" "2 ^ 32 :: nat" "unat x * 2 ^ k"] by (simp only: mod_mult_mult2) simp
  have d: "unat (drop_bit (31 - k) x) = unat x div 2 ^ (31 - k)"
    by (rule unat_drop_bit)
  have "unat (take_bit 31 (push_bit k x)) < 2 ^ 31"
    by (simp add: unat_take_bit)
  moreover have "unat (drop_bit (31 - k) x) < 2 ^ 31"
    unfolding d using le_trans [OF div_le_dividend assms(1)] by (rule le_less_trans) simp
  ultimately show ?thesis
    using t d unfolding m by (subst unat_plus_small) simp_all
qed

lemma MulByPow2_mod:
  assumes "unat x \<le> zp" "k \<le> 31"
  shows "unat (MulByPow2 x k) \<le> zp" "unat (MulByPow2 x k) mod zp = unat x * 2 ^ k mod zp"
    "MulByPow2 x k = 0 \<longleftrightarrow> x = 0"
proof -
  define d where "d = (2::nat) ^ (31 - k)"
  define h l where "h = unat x div d" and "l = unat x mod d"
  have m: "unat (MulByPow2 x k) = l * 2 ^ k + h"
    using unat_MulByPow2 [OF assms] by (simp add: h_def l_def d_def)
  have d: "d * 2 ^ k = zp + 1"
    using assms(2) unfolding d_def power_add [symmetric] by simp
  have x: "unat x = h * d + l" "l < d"
    unfolding h_def l_def by (simp_all only: div_mult_mod_eq) (simp add: d_def)
  have "h * d \<le> unat x"
    using x by simp
  then have "h * d < 2 ^ k * d"
    using assms(1) d by (simp add: mult.commute)
  then have h: "h < 2 ^ k"
    by simp
  have "l * 2 ^ k + 2 ^ k \<le> d * 2 ^ k"
    using x(2) mult_le_mono1 [of "Suc l" d "2 ^ k"] by simp
  then show "unat (MulByPow2 x k) \<le> zp"
    using h m d by linarith
  have "unat x * 2 ^ k = h * (d * 2 ^ k) + l * 2 ^ k"
    by (simp add: x(1) algebra_simps)
  also have "\<dots> = zp * h + unat (MulByPow2 x k)"
    by (simp only: d m) (simp add: algebra_simps)
  finally show "unat (MulByPow2 x k) mod zp = unat x * 2 ^ k mod zp"
    by (metis mod_mult_self4)
  have "unat (MulByPow2 x k) = 0 \<longleftrightarrow> unat x = 0"
    unfolding m using x by (auto simp: d_def)
  then show "MulByPow2 x k = 0 \<longleftrightarrow> x = 0"
    by (simp add: unat_eq_0)
qed

section \<open>The register invariant\<close>

text \<open>The standard's range of a cell: 1 to \<open>2^31 - 1\<close>.\<close>

definition cell_ok :: "u32 \<Rightarrow> bool" where
  "cell_ok x \<longleftrightarrow> x \<noteq> 0 \<and> unat x \<le> zp"

definition cells :: "zuc \<Rightarrow> u32 list" where
  "cells st = [LFSR_S0 st, LFSR_S1 st, LFSR_S2 st, LFSR_S3 st, LFSR_S4 st, LFSR_S5 st, LFSR_S6 st, LFSR_S7 st,
     LFSR_S8 st, LFSR_S9 st, LFSR_S10 st, LFSR_S11 st, LFSR_S12 st, LFSR_S13 st, LFSR_S14 st, LFSR_S15 st]"

definition lfsr_ok :: "zuc \<Rightarrow> bool" where
  "lfsr_ok st \<longleftrightarrow> (\<forall>c\<in>set (cells st). cell_ok c)"

lemma cells_shift_in: "cells (shift_in f st) = tl (cells st) @ [f]"
  by (simp add: cells_def shift_in_def)

lemma lfsr_ok_shift_in: "lfsr_ok st \<Longrightarrow> cell_ok f \<Longrightarrow> lfsr_ok (shift_in f st)"
  unfolding lfsr_ok_def cells_shift_in by (auto simp: cells_def)

text \<open>An accumulator of the feedback: its value modulo \<open>2^31 - 1\<close>.\<close>

definition holds :: "u32 \<Rightarrow> nat \<Rightarrow> bool" where
  "holds f n \<longleftrightarrow> unat f \<le> zp \<and> unat f mod zp = n mod zp"

lemma holds_AddM: "holds f n \<Longrightarrow> holds g m \<Longrightarrow> holds (AddM f g) (n + m)"
  using AddM_mod(1,2) [of f g] mod_add_cong [of "unat f" zp n "unat g" m] by (simp add: holds_def)

lemma holds_Mul: "cell_ok x \<Longrightarrow> k \<le> 31 \<Longrightarrow> holds (MulByPow2 x k) (2 ^ k * unat x)"
  unfolding holds_def cell_ok_def using MulByPow2_mod [of x k] by (simp add: mult.commute)

lemma AddM_ok: "cell_ok f \<Longrightarrow> unat g \<le> zp \<Longrightarrow> cell_ok (AddM f g)"
  using AddM_mod [of f g] by (auto simp: cell_ok_def)

lemma AddM_ok2: "unat f \<le> zp \<Longrightarrow> cell_ok g \<Longrightarrow> cell_ok (AddM f g)"
  using AddM_mod [of f g] by (auto simp: cell_ok_def)

lemma Mul_ok: "cell_ok x \<Longrightarrow> k \<le> 31 \<Longrightarrow> cell_ok (MulByPow2 x k)"
  using MulByPow2_mod [of x k] by (auto simp: cell_ok_def)

lemma lfsr_ok_cells:
  "lfsr_ok st \<Longrightarrow> cell_ok (LFSR_S0 st) \<and> cell_ok (LFSR_S4 st) \<and> cell_ok (LFSR_S10 st) \<and>
     cell_ok (LFSR_S13 st) \<and> cell_ok (LFSR_S15 st)"
  by (simp add: lfsr_ok_def cells_def)

lemma cell_ok_le: "cell_ok x \<Longrightarrow> unat x \<le> zp"
  by (simp add: cell_ok_def)

lemma work_mode_ok:
  assumes "lfsr_ok st"
  shows "lfsr_ok (LFSRWithWorkMode st)"
  using lfsr_ok_cells [OF assms] unfolding LFSRWithWorkMode_def Let_def
  by (intro lfsr_ok_shift_in assms AddM_ok cell_ok_le Mul_ok) auto

lemma init_mode_ok:
  assumes "lfsr_ok st" "unat f \<le> zp" "unat u \<le> zp"
  shows "lfsr_ok (LFSRWithInitialisationMode f u st)"
proof -
  have c: "cell_ok (LFSR_S4 st)" "cell_ok (LFSR_S10 st)" "cell_ok (LFSR_S13 st)" "cell_ok (LFSR_S15 st)"
    using lfsr_ok_cells [OF assms(1)] by auto
  have "unat (AddM f (MulByPow2 f 8)) \<le> zp"
    using assms(2) by (intro AddM_mod(1) MulByPow2_mod(1)) auto
  then have first: "cell_ok (AddM (AddM f (MulByPow2 f 8)) (MulByPow2 (LFSR_S4 st) 20))"
    using c by (intro AddM_ok2 Mul_ok) auto
  show ?thesis
    unfolding LFSRWithInitialisationMode_def Let_def
    by (intro lfsr_ok_shift_in [OF assms(1)] AddM_ok [OF AddM_ok [OF AddM_ok [OF AddM_ok [OF first]]]]
        assms(3) cell_ok_le Mul_ok c) simp_all
qed

lemma cells_other [simp]:
  "cells (BitReorganization st) = cells st" "cells (snd (F st)) = cells st"
  by (simp_all add: cells_def BitReorganization_def F_def Let_def)

lemma lfsr_ok_other [simp]:
  "lfsr_ok (BitReorganization st) = lfsr_ok st" "lfsr_ok (snd (F st)) = lfsr_ok st"
  by (simp_all add: lfsr_ok_def)

lemma unat_half: "unat (drop_bit 1 (w :: u32)) \<le> zp"
  unfolding unat_drop_bit using unsigned_less [where ?'a = nat and w = w] by simp

lemma init_rounds_ok:
  assumes "lfsr_ok st" "\<And>n st. lfsr_ok st \<Longrightarrow> unat (junk n st) \<le> zp"
  shows "lfsr_ok (init_rounds junk n st)"
  using assms(1)
proof (induction n arbitrary: st)
  case 0
  then show ?case by simp
next
  case (Suc n)
  obtain w st1 where f: "F (BitReorganization st) = (w, st1)" by (cases "F (BitReorganization st)")
  have "lfsr_ok st1"
    using Suc.prems lfsr_ok_other(2) [of "BitReorganization st"] by (simp add: f)
  then have "lfsr_ok (LFSRWithInitialisationMode (junk n st1) (drop_bit 1 w) st1)"
    by (intro init_mode_ok assms(2) unat_half)
  from Suc.IH [OF this] show ?case
    by (simp add: f Let_def)
qed

lemma keystream_loop_ok: "lfsr_ok st \<Longrightarrow> lfsr_ok (snd (keystream_loop n st))"
proof (induction n arbitrary: st)
  case 0
  then show ?case by simp
next
  case (Suc n)
  obtain w st1 where f: "F (BitReorganization st) = (w, st1)" by (cases "F (BitReorganization st)")
  have "lfsr_ok st1"
    using Suc.prems lfsr_ok_other(2) [of "BitReorganization st"] by (simp add: f)
  from Suc.IH [OF work_mode_ok [OF this]] show ?case
    by (auto simp add: f Let_def split: prod.split)
qed

lemma length_keystream_loop [simp]: "length (fst (keystream_loop n st)) = n"
  by (induction n arbitrary: st) (simp_all add: Let_def split: prod.split, metis fst_conv)

section \<open>Diffusion\<close>

lemma bit_ROT:
  assumes "0 < k" "k < 32"
  shows "bit (ROT x k) n \<longleftrightarrow> n < 32 \<and> bit x ((n + (32 - k)) mod 32)"
proof (cases "n < 32")
  case True
  show ?thesis
  proof (cases "n < k")
    case True
    then have "(n + (32 - k)) mod 32 = n + (32 - k)"
      using assms by simp
    then show ?thesis
      using True assms \<open>n < 32\<close> by (simp add: ROT_def bit_simps add.commute)
  next
    case False
    then have "(n + (32 - k)) mod 32 = n - k" "\<not> n + (32 - k) < 32"
      using assms \<open>n < 32\<close> by (simp_all add: mod_if)
    then show ?thesis
      using False assms \<open>n < 32\<close> by (auto simp: ROT_def bit_simps dest: bit_imp_le_length)
  qed
qed (auto dest: bit_imp_le_length)

lemma ROT_XOR: "ROT (x XOR y) k = ROT x k XOR ROT y k"
  unfolding ROT_def by (rule bit_word_eqI) (auto simp: bit_simps dest: bit_imp_le_length)

lemma ROT_0: "ROT x 0 = x" "ROT x 32 = x"
  by (rule bit_word_eqI, auto simp: ROT_def bit_simps dest: bit_imp_le_length)+

lemma ROT_ROT:
  assumes "0 < j" "j < 32" "0 < k" "k < 32"
  shows "ROT (ROT x j) k = ROT x ((j + k) mod 32)"
proof (rule bit_word_eqI)
  fix n
  assume "n < LENGTH(32)"
  then have n: "n < 32" by simp
  have l: "bit (ROT (ROT x j) k) n \<longleftrightarrow> bit x ((n + (32 - k) + (32 - j)) mod 32)"
    unfolding bit_ROT [OF assms(3,4)] bit_ROT [OF assms(1,2)] using n by (simp only: mod_add_left_eq) simp
  consider "j + k < 32" | "j + k = 32" | "32 < j + k" by arith
  then show "bit (ROT (ROT x j) k) n \<longleftrightarrow> bit (ROT x ((j + k) mod 32)) n"
  proof cases
    case 1
    then have "n + (32 - k) + (32 - j) = n + (32 - (j + k)) + 32" by arith
    then have "(n + (32 - k) + (32 - j)) mod 32 = (n + (32 - (j + k))) mod 32"
      by (simp only: mod_add_self2)
    then show ?thesis
      using 1 assms n by (simp add: l bit_ROT)
  next
    case 2
    then have "n + (32 - k) + (32 - j) = n + 32" using assms by arith
    then have "(n + (32 - k) + (32 - j)) mod 32 = (n + 32) mod 32"
      by (rule arg_cong)
    also have "\<dots> = n"
      using n by simp
    finally have "(n + (32 - k) + (32 - j)) mod 32 = n" .
    then show ?thesis
      using 2 by (simp add: l ROT_0)
  next
    case 3
    then have "n + (32 - k) + (32 - j) = n + (32 - (j + k - 32))" using assms by arith
    moreover have "(j + k) mod 32 = j + k - 32"
      using 3 assms by (simp add: mod_if)
    ultimately show ?thesis
      using 3 assms n by (simp add: l bit_ROT)
  qed
qed

lemmas rot_simps = ROT_XOR ROT_ROT ROT_0

lemma xor_cancel: "x XOR (x XOR y) = (y :: u32)"
  by (simp flip: xor.assoc)

lemma L1_L1: "L1 (L1 x) = x XOR ROT x 20 XOR ROT x 16"
  by (simp add: L1_def rot_simps) (simp add: ac_simps xor_cancel)

lemma L1_4: "L1 (L1 (L1 (L1 x))) = ROT x 8"
  unfolding L1_L1 by (simp add: rot_simps) (simp add: ac_simps xor_cancel)

lemma L2_L2: "L2 (L2 x) = x XOR ROT x 16 XOR ROT x 12"
  by (simp add: L2_def rot_simps) (simp add: ac_simps xor_cancel)

lemma L2_4: "L2 (L2 (L2 (L2 x))) = ROT x 24"
  unfolding L2_L2 by (simp add: rot_simps) (simp add: ac_simps xor_cancel)

section \<open>Tables and initial state\<close>

lemma length_sboxes: "length S0 = 256" "length S1 = 256"
  by (simp_all add: S0_def S1_def)

lemma sbox_index: "unat (drop_bit 24 (u :: u32)) < 256" "unat (u AND 0xFF) < 256"
proof -
  show "unat (drop_bit 24 u) < 256"
    unfolding unat_drop_bit using unsigned_less [where ?'a = nat and w = u]
    by (intro less_mult_imp_div_less) simp
  have "u AND 0xFF = take_bit 8 u"
    by (simp add: take_bit_eq_mask mask_eq_exp_minus_1)
  then show "unat (u AND 0xFF) < 256"
    by (simp add: unat_take_bit)
qed

lemma distinct_unat: "distinct (map unat (xs :: u8 list)) \<Longrightarrow> distinct xs"
  by (simp add: distinct_map)

lemma S0_distinct: "distinct S0"
  by (rule distinct_unat) (simp add: S0_def)

lemma S1_distinct: "distinct S1"
  by (rule distinct_unat) (simp add: S1_def)

lemma MAKEU31_ok:
  assumes "d \<noteq> 0" "take_bit 15 d = d"
  shows "cell_ok (MAKEU31 a d b)"
proof -
  have d: "\<not> bit d n" if "15 \<le> n" for n
    using assms(2) that by (metis bit_take_bit_iff not_le)
  have "take_bit 31 (MAKEU31 a d b) = MAKEU31 a d b"
    using d by (intro bit_word_eqI) (auto simp: MAKEU31_def bit_simps dest: bit_imp_le_length)
  then have "unat (MAKEU31 a d b) = unat (MAKEU31 a d b) mod 2 ^ 31"
    using unat_take_bit [of 31 "MAKEU31 a d b"] by simp
  moreover have "unat (MAKEU31 a d b) mod 2 ^ 31 < 2 ^ 31"
    by simp
  ultimately have "unat (MAKEU31 a d b) \<le> zp"
    by simp
  moreover obtain m where m: "bit d m" "m < 15"
    using assms(1) d by (metis bit_eqI bit_0_eq bot_apply bot_bool_def not_le)
  have "bit (MAKEU31 a d b) (m + 8)"
    using m by (simp add: MAKEU31_def bit_simps)
  then have "MAKEU31 a d b \<noteq> 0"
    by auto
  ultimately show ?thesis
    by (simp add: cell_ok_def)
qed

definition loaded :: "bytes \<Rightarrow> bytes \<Rightarrow> zuc \<Rightarrow> bool" where
  "loaded k iv st \<longleftrightarrow> cells st = map (\<lambda>i. MAKEU31 (k ! i) (EK_d ! i) (iv ! i)) [0..<16]"

lemma loaded_ok:
  assumes "loaded k iv st"
  shows "lfsr_ok st"
proof -
  have "cell_ok (MAKEU31 (k ! i) (EK_d ! i) (iv ! i))" if "i < 16" for i
  proof (rule MAKEU31_ok)
    have d: "\<forall>d\<in>set EK_d. d \<noteq> 0 \<and> take_bit 15 d = d"
      by (simp add: EK_d_def)
    have "EK_d ! i \<in> set EK_d"
      using that by (intro nth_mem) (simp add: EK_d_def)
    with d show "EK_d ! i \<noteq> 0" "take_bit 15 (EK_d ! i) = EK_d ! i"
      by auto
  qed
  then show ?thesis
    using assms by (auto simp: lfsr_ok_def loaded_def)
qed

lemma loaded_expand_key: "loaded k iv (expand_key k iv st)"
proof -
  have upt: "[0..<16] = [0, 1, 2, 3, 4, 5, 6, 7, 8, 9, 10, 11, 12, 13, 14, 15]"
    by (simp add: upt_rec)
  show ?thesis
    unfolding loaded_def upt expand_key_def by (simp add: cells_def)
qed

text \<open>\<open>Initialization\<close> sets every register, so it does not matter what they held before.\<close>

lemma Initialization_eq:
  assumes "16 \<le> length k" "16 \<le> length iv"
  shows "\<exists>st0. loaded k iv st0 \<and> (\<forall>st. Initialization junk k iv st = Some (init_rounds junk 32 st0))"
proof -
  let ?start = "expand_key k iv undefined"
  have bro: "BitReorganization (expand_key k iv st) = BitReorganization ?start" for st
    by (cases st; cases "undefined :: zuc") (simp add: expand_key_def BitReorganization_def)
  have "init_rounds junk (Suc 31) (expand_key k iv st) = init_rounds junk (Suc 31) ?start" for st
    unfolding init_rounds.simps bro [of st] ..
  then have "init_rounds junk 32 (expand_key k iv st) = init_rounds junk 32 ?start" for st
    by simp
  then show ?thesis
    using loaded_expand_key assms by (intro exI [of _ ?start]) (simp add: Initialization_def)
qed

lemma ZUC_eq:
  assumes "16 \<le> length k" "16 \<le> length iv"
  shows "\<exists>st1. \<forall>st. ZUC junk k iv n st = Some (GenerateKeystream n st1)"
  using Initialization_eq [OF assms, of junk] by (auto simp: ZUC_def)

lemma length_keystream [simp]: "length (fst (GenerateKeystream n st)) = n"
  by (simp add: GenerateKeystream_def Let_def split: prod.split)

section \<open>128-EEA3\<close>

lemma length_eea3_iv [simp]: "length eea3_iv = 16"
  by (simp add: eea3_iv_def Let_def)

lemma xor_loop:
  assumes "n \<le> length M" "n \<le> length C"
  shows "for_each (\<lambda>i C. if i < length M \<and> i < length C then Some (C[i := M ! i XOR z ! i]) else None) [0..<n] C =
    Some (map (\<lambda>i. M ! i XOR z ! i) [0..<n] @ drop n C)"
  using assms
proof (induction n)
  case 0
  then show ?case by simp
next
  case (Suc n)
  then show ?case
    by (simp add: for_each_append list_update_append) (simp add: Cons_nth_drop_Suc [symmetric])
qed

text \<open>The keystream of a key is the same at every call.\<close>

lemma EEA3_eq:
  assumes "16 \<le> length CK"
  shows "\<exists>z. length z = eea3_words len \<and> (\<forall>M C st. eea3_words len \<le> length M \<and> eea3_words len \<le> length C \<longrightarrow>
    (\<exists>st'. EEA3 junk CK len M C st =
      Some (map (\<lambda>i. M ! i XOR z ! i) [0..<eea3_words len] @ drop (eea3_words len) C, st')))"
proof -
  obtain st1 where z: "\<forall>st. ZUC junk CK eea3_iv (eea3_words len) st = Some (GenerateKeystream (eea3_words len) st1)"
    using ZUC_eq [OF assms, of eea3_iv junk "eea3_words len"] by auto
  obtain zs st2 where g: "GenerateKeystream (eea3_words len) st1 = (zs, st2)"
    by (cases "GenerateKeystream (eea3_words len) st1")
  have "length zs = eea3_words len"
    using length_keystream [of "eea3_words len" st1] by (simp add: g)
  moreover have "EEA3 junk CK len M C st =
      Some (map (\<lambda>i. M ! i XOR zs ! i) [0..<eea3_words len] @ drop (eea3_words len) C, st2)"
    if "eea3_words len \<le> length M" "eea3_words len \<le> length C" for M C st
    using that by (simp add: EEA3_def z g Let_def xor_loop)
  ultimately show ?thesis by blast
qed

section \<open>Properties\<close>

text \<open>
  C21: \<open>AddM\<close> and \<open>MulByPow2\<close> compute in the field of \<open>2^31 - 1\<close> elements: on operands up to \<open>2^31 - 1\<close> they return a
  representative up to \<open>2^31 - 1\<close> of the sum, and of the product with \<open>2^k\<close>, and return 0 only for zero operands.
\<close>

theorem zuc_field_arithmetic:
  assumes "unat a \<le> 2 ^ 31 - 1" "unat b \<le> 2 ^ 31 - 1" "k \<le> 31"
  shows "unat (AddM a b) \<le> 2 ^ 31 - 1 \<and> unat (AddM a b) mod (2 ^ 31 - 1) = (unat a + unat b) mod (2 ^ 31 - 1) \<and>
    unat (MulByPow2 a k) \<le> 2 ^ 31 - 1 \<and> unat (MulByPow2 a k) mod (2 ^ 31 - 1) = unat a * 2 ^ k mod (2 ^ 31 - 1) \<and>
    (AddM a b = 0 \<longleftrightarrow> a = 0 \<and> b = 0) \<and> (MulByPow2 a k = 0 \<longleftrightarrow> a = 0)"
proof -
  have "unat a \<le> zp" "unat b \<le> zp"
    using assms by simp_all
  then show ?thesis
    using AddM_mod MulByPow2_mod assms(3) by simp
qed

theorem zuc_field_arithmetic_witness:
  "unat (AddM 0x7FFFFFFF 0x7FFFFFFF) mod (2 ^ 31 - 1) = 0 \<and> unat (MulByPow2 0x40000001 8) mod (2 ^ 31 - 1) = 384"
  using zuc_field_arithmetic [of "0x7FFFFFFF" "0x7FFFFFFF" 8] zuc_field_arithmetic [of "0x40000001" 0 8] by simp

text \<open>
  C22: one step of the register in work mode is the recurrence of the ZUC specification: the cells move down by
  one, the new cell lies between 1 and \<open>2^31 - 1\<close> and is \<open>2^15 s15 + 2^17 s13 + 2^21 s10 + 2^20 s4 + (1 + 2^8) s0\<close> modulo
  \<open>2^31 - 1\<close>; the specification's special case for 0 is not needed since 0 cannot arise.
\<close>

theorem zuc_work_mode:
  assumes "lfsr_ok st"
  shows "\<exists>f. cells (LFSRWithWorkMode st) = tl (cells st) @ [f] \<and> 1 \<le> unat f \<and> unat f \<le> 2 ^ 31 - 1 \<and>
    unat f mod (2 ^ 31 - 1) =
      (2 ^ 15 * unat (LFSR_S15 st) + 2 ^ 17 * unat (LFSR_S13 st) + 2 ^ 21 * unat (LFSR_S10 st) +
       2 ^ 20 * unat (LFSR_S4 st) + (1 + 2 ^ 8) * unat (LFSR_S0 st)) mod (2 ^ 31 - 1)"
proof -
  have c: "cell_ok (LFSR_S0 st)" "cell_ok (LFSR_S4 st)" "cell_ok (LFSR_S10 st)" "cell_ok (LFSR_S13 st)"
      "cell_ok (LFSR_S15 st)"
    using lfsr_ok_cells [OF assms] by auto
  define f where "f = AddM (AddM (AddM (AddM (AddM (LFSR_S0 st) (MulByPow2 (LFSR_S0 st) 8))
      (MulByPow2 (LFSR_S4 st) 20)) (MulByPow2 (LFSR_S10 st) 21)) (MulByPow2 (LFSR_S13 st) 17)) (MulByPow2 (LFSR_S15 st) 15)"
  have w: "LFSRWithWorkMode st = shift_in f st"
    by (simp add: LFSRWithWorkMode_def f_def Let_def)
  have "holds (LFSR_S0 st) (unat (LFSR_S0 st))"
    using c by (simp add: holds_def cell_ok_def)
  then have "holds f (unat (LFSR_S0 st) + 2 ^ 8 * unat (LFSR_S0 st) + 2 ^ 20 * unat (LFSR_S4 st) +
      2 ^ 21 * unat (LFSR_S10 st) + 2 ^ 17 * unat (LFSR_S13 st) + 2 ^ 15 * unat (LFSR_S15 st))"
    unfolding f_def using c by (intro holds_AddM holds_Mul) auto
  then have "unat f mod zp = (2 ^ 15 * unat (LFSR_S15 st) + 2 ^ 17 * unat (LFSR_S13 st) +
      2 ^ 21 * unat (LFSR_S10 st) + 2 ^ 20 * unat (LFSR_S4 st) + (1 + 2 ^ 8) * unat (LFSR_S0 st)) mod zp"
    by (simp add: holds_def algebra_simps)
  moreover have "cell_ok f"
    using lfsr_ok_def [of "shift_in f st"] work_mode_ok [OF assms] by (simp add: w cells_shift_in)
  ultimately show ?thesis
    unfolding w cells_shift_in
    by (intro exI [of _ f]) (auto simp: cell_ok_def Suc_le_eq unat_gt_0)
qed

definition some_registers :: zuc where
  "some_registers = \<lparr>LFSR_S0 = 1, LFSR_S1 = 1, LFSR_S2 = 1, LFSR_S3 = 1, LFSR_S4 = 1, LFSR_S5 = 1, LFSR_S6 = 1,
     LFSR_S7 = 1, LFSR_S8 = 1, LFSR_S9 = 1, LFSR_S10 = 1, LFSR_S11 = 1, LFSR_S12 = 1, LFSR_S13 = 1, LFSR_S14 = 1,
     LFSR_S15 = 1, F_R1 = 0, F_R2 = 0, BRC_X0 = 0, BRC_X1 = 0, BRC_X2 = 0, BRC_X3 = 0\<rparr>"

theorem zuc_work_mode_witness:
  "\<exists>f. cells (LFSRWithWorkMode some_registers) = tl (cells some_registers) @ [f] \<and>
     unat f mod (2 ^ 31 - 1) = (2 ^ 15 + 2 ^ 17 + 2 ^ 21 + 2 ^ 20 + 257) mod (2 ^ 31 - 1)"
proof -
  have "lfsr_ok some_registers"
    by (simp add: lfsr_ok_def cells_def some_registers_def cell_ok_def)
  from zuc_work_mode [OF this] show ?thesis
    by (auto simp: some_registers_def)
qed



text \<open>
  The substitution and diffusion layers lose nothing: both S-boxes are permutations of the 256 byte values,
  \<open>L1\<close> and \<open>L2\<close> are linear over exclusive-or, and iterated four times they are the rotations by 8 and by 24, so
  both are bijections.
\<close>

theorem zuc_layers_bijective:
  "distinct S0 \<and> distinct S1 \<and> set S0 = UNIV \<and> set S1 = UNIV \<and>
   L1 (x XOR y) = L1 x XOR L1 y \<and> L2 (x XOR y) = L2 x XOR L2 y \<and>
   L1 (L1 (L1 (L1 x))) = ROT x 8 \<and> L2 (L2 (L2 (L2 x))) = ROT x 24 \<and> bij L1 \<and> bij L2"
proof -
  have full: "set xs = UNIV" if "distinct xs" "length xs = 256" for xs :: "u8 list"
  proof (rule card_subset_eq)
    show "card (set xs) = card (UNIV :: u8 set)"
      using that by (simp add: distinct_card card_word)
  qed simp_all
  have inj_rot: "inj (\<lambda>x. ROT x k)" if "0 < k" "k < 32" for k
  proof (rule inj_on_inverseI)
    show "ROT (ROT x k) (32 - k) = x" for x
      using that by (simp add: ROT_ROT ROT_0)
  qed
  have "inj L1"
  proof (rule injI)
    show "x = y" if "L1 x = L1 y" for x y
    proof -
      have "ROT x 8 = ROT y 8"
        using that by (simp flip: L1_4)
      then show ?thesis
        using injD [OF inj_rot [of 8], of x y] by simp
    qed
  qed
  moreover have "inj L2"
  proof (rule injI)
    show "x = y" if "L2 x = L2 y" for x y
    proof -
      have "ROT x 24 = ROT y 24"
        using that by (simp flip: L2_4)
      then show ?thesis
        using injD [OF inj_rot [of 24], of x y] by simp
    qed
  qed
  moreover have "L1 (x XOR y) = L1 x XOR L1 y" "L2 (x XOR y) = L2 x XOR L2 y"
    by (simp_all add: L1_def L2_def ROT_XOR ac_simps)
  ultimately show ?thesis
    using full S0_distinct S1_distinct length_sboxes L1_4 L2_4 by (auto simp: bij_def finite_UNIV_inj_surj)
qed



end
