(* ===== verification/Xdp_Loader.thy ===== *)
theory Xdp_Loader
  imports Xdp_Aggregate Xdp_Copy Xdp_Filter
begin

text \<open>
  The loaders of \<open>src/ebpf-xdp\<close> (\<open>*_loader.c\<close>, \<open>*_loader_no_t.c\<close>): they attach the program to an interface and, in
  the timed benchmarks, receive the packets that the program passes up the stack and log the times in them.

  libxdp, libbpf and the sockets are not code of the repository: what their calls return is the parameter
  \<open>world\<close>, and what \<open>recvfrom\<close> and the signals bring is a list of events; a loader that has seen them all is
  \<open>Waiting\<close>.
\<close>

section \<open>Environment and state\<close>

record world =
  if_nametoindex :: "string \<Rightarrow> u32"
  open_prog :: "string \<Rightarrow> string \<Rightarrow> bool"
  attach_prog :: "u32 \<Rightarrow> int"
  map_fd :: "string \<Rightarrow> int"
  socket_fd :: int
  bind_result :: int
  possible_cpus :: int
  fopen_ok :: "string \<Rightarrow> bool"

text \<open>\<open>Datagram d m\<close>: \<open>d\<close> is received while the map of the program holds \<open>m\<close>.  \<open>Signal\<close>: \<open>SIGINT\<close> or \<open>SIGTERM\<close>.\<close>

datatype 'm net_event = Datagram bytes 'm | Recv_error | Signal

datatype line = Blank | Latency u64

datatype ending = Return int | Exit int | Assert_failed | Waiting

text \<open>
  \<open>attached\<close>: the interface the program runs on; \<open>prog_closed\<close>: \<open>xdp_program__close\<close> was called (which releases the
  handle of the program and does not detach it).
\<close>

record 'm loader =
  attached :: "u32 option"
  prog_closed :: bool
  maps :: 'm
  ben_file :: "line list"
  echoed :: "bytes list"

section \<open>Receiving\<close>

text \<open>\<open>2*sizeof(clock_t)\<close>.\<close>

definition BUFLEN :: nat where
  "BUFLEN = 16"

text \<open>\<open>recvfrom\<close> stores at most \<open>BUFLEN\<close> bytes and returns how many.\<close>

definition log_latency :: "bytes \<Rightarrow> 'm loader \<Rightarrow> 'm loader" where
  "log_latency d st = (
     let buf = take BUFLEN d; pay_len = length buf in
     if BUFLEN \<le> pay_len then st\<lparr>ben_file := ben_file st @ [Latency (le64 buf 8 - le64 buf 0)]\<rparr> else st)"

definition int_exit :: "'m loader \<Rightarrow> ending \<times> 'm loader" where
  "int_exit st = (Exit 0, st\<lparr>prog_closed := True\<rparr>)"

text \<open>The loop of \<open>poll_stats\<close>; \<open>check\<close>: the assertions on the map after each datagram.\<close>

fun listen :: "('m \<Rightarrow> bool) \<Rightarrow> 'm net_event list \<Rightarrow> 'm loader \<Rightarrow> ending \<times> 'm loader" where
  "listen check [] st = (Waiting, st)"
| "listen check (Recv_error # evs) st = (Exit 1, st)"
| "listen check (Signal # evs) st = int_exit st"
| "listen check (Datagram d m # evs) st = (
     let st = st\<lparr>maps := m\<rparr> in
     if \<not> check m then (Assert_failed, st) else listen check evs (log_latency d st))"

text \<open>
  \<open>poll_stats\<close>.  \<open>cpus\<close>: it asks for the number of processors; \<open>prepare\<close>: what it does to the map before opening the
  file, \<open>header\<close>: what it writes first, \<open>init\<close>: what it does to the map after that, with \<^const>\<open>None\<close> for a failed
  assertion.
\<close>

definition poll_stats :: "bool \<Rightarrow> string \<Rightarrow> ('m \<Rightarrow> 'm) \<Rightarrow> line list \<Rightarrow> ('m \<Rightarrow> 'm option) \<Rightarrow> ('m \<Rightarrow> bool) \<Rightarrow>
    world \<Rightarrow> 'm net_event list \<Rightarrow> 'm loader \<Rightarrow> ending \<times> 'm loader" where
  "poll_stats cpus fname prepare header init check w evs st = (
     if socket_fd w = - 1 then (Exit 1, st)
     else if bind_result w = - 1 then (Exit 1, st)
     else if cpus \<and> possible_cpus w < 0 then (Return 0, st)
     else let st = st\<lparr>maps := prepare (maps st)\<rparr>
     in if \<not> fopen_ok w fname then (Exit 1, st)
     else let st = st\<lparr>ben_file := ben_file st @ header\<rparr>
     in case init (maps st) of
          None \<Rightarrow> (Assert_failed, st)
        | Some m \<Rightarrow> listen check evs (st\<lparr>maps := m\<rparr>))"

abbreviation plain_stats :: "bool \<Rightarrow> string \<Rightarrow> world \<Rightarrow> 'm net_event list \<Rightarrow> 'm loader \<Rightarrow> ending \<times> 'm loader" where
  "plain_stats cpus fname \<equiv> poll_stats cpus fname id [] Some (\<lambda>_. True)"

section \<open>Loading\<close>

text \<open>\<open>main\<close>, with \<open>names\<close> the maps it looks up and \<open>poll\<close> what it does in the end.\<close>

definition loader_main :: "string \<Rightarrow> string \<Rightarrow> string list \<Rightarrow> world \<Rightarrow> string list \<Rightarrow> ('m loader \<Rightarrow> ending \<times> 'm loader) \<Rightarrow>
    'm loader \<Rightarrow> ending \<times> 'm loader" where
  "loader_main object section names w argv poll st = (
     if length argv \<noteq> 2 then (Return 1, st)
     else let ifindex = if_nametoindex w (argv ! 1)
     in if ifindex = 0 then (Return 1, st)
     else if \<not> open_prog w object section then (Return 1, st)
     else let ret = attach_prog w ifindex
     in if ret \<noteq> 0 then (Return ret, st)
     else let st = st\<lparr>attached := Some ifindex\<rparr>
     in if \<exists>fd \<in> set (map (map_fd w) names). fd < 0 then (Return (map_fd w (hd names)), st)
     else poll st)"

definition finish :: "'m loader \<Rightarrow> ending \<times> 'm loader" where
  "finish st = (Return 0, st)"

section \<open>The map of the copy programs\<close>

text \<open>
  \<open>assert(bpf_map_lookup_elem(map_fd, &key, value) == 0)\<close> for all keys, and the initialisation of \<open>copy_from_host\<close>
  (\<open>BPF_EXIST\<close>: the element must exist).
\<close>

definition all_there :: "('m, u32) map_ops \<Rightarrow> 'm \<Rightarrow> bool" where
  "all_there ops m \<longleftrightarrow> lookup_elem ops m 0 \<noteq> None \<and>
     (\<forall>i \<in> set [0..<TOT_SIZE_B div DATA_SIZE_B]. lookup_elem ops m (of_nat i) \<noteq> None)"

definition init_copy :: "('m, u32) map_ops \<Rightarrow> 'm \<Rightarrow> 'm option" where
  "init_copy ops m = (
     if lookup_elem ops m 0 = None then None
     else let m = update_elem ops m 0 1
     in if \<forall>i \<in> set [0..<TOT_SIZE_B div DATA_SIZE_B]. lookup_elem ops m (of_nat i) \<noteq> None then Some m else None)"

section \<open>The loaders\<close>

type_synonym 'm load = "world \<Rightarrow> string list \<Rightarrow> 'm net_event list \<Rightarrow> 'm loader \<Rightarrow> ending \<times> 'm loader"

definition aggregate_loader :: "'m load" where
  "aggregate_loader w argv evs =
     loader_main ''aggregate.o'' ''aggregate_sec'' [''rxaggr''] w argv (plain_stats True ''aggregate_ben.txt'' w evs)"

definition clock_loader :: "'m load" where
  "clock_loader w argv evs =
     loader_main ''aggregate.o'' ''aggregate_sec'' [''rxaggr''] w argv (plain_stats True ''aggregate_ben.txt'' w evs)"

definition reduce_loader :: "'m load" where
  "reduce_loader w argv evs =
     loader_main ''reduce.o'' ''reduce_sec'' [''rxred''] w argv (plain_stats False ''reduce_ben.txt'' w evs)"

definition histogram_loader :: "'m load" where
  "histogram_loader w argv evs =
     loader_main ''histogram.o'' ''histogram_sec'' [''rxhist''] w argv (plain_stats False ''histogram_ben.txt'' w evs)"

definition copy_to_host_loader :: "('m, u32) map_ops \<Rightarrow> 'm load" where
  "copy_to_host_loader ops w argv evs =
     loader_main ''copy_to_host.o'' ''copy_to_host_sec'' [''rxcptoh''] w argv
       (poll_stats True ''copy_to_host_ben.txt'' id [] Some (all_there ops) w evs)"

definition copy_from_host_loader :: "('m, u32) map_ops \<Rightarrow> 'm load" where
  "copy_from_host_loader ops w argv evs =
     loader_main ''copy_from_host.o'' ''copy_from_host_sec'' [''rxcptoh''] w argv
       (poll_stats True ''copy_from_host_ben.txt'' id [] (init_copy ops) (\<lambda>_. True) w evs)"

definition filter_loader :: "('h, u16) map_ops \<Rightarrow> 'h load" where
  "filter_loader hops w argv evs =
     loader_main ''filter.o'' ''filter_sec'' [''rxfilter'', ''hmfilter''] w argv
       (poll_stats False ''filter_ben.txt'' (fill_htable hops HASH_ENTRIES) [] Some (\<lambda>_. True) w evs)"

definition baseline_loader :: "'m load" where
  "baseline_loader w argv evs =
     loader_main ''baseline.o'' ''baseline_sec'' [] w argv (plain_stats False ''baseline_ben.txt'' w evs)"

definition ktime_call_loader :: "'m load" where
  "ktime_call_loader w argv evs =
     loader_main ''ktime_call.o'' ''ktime_call_sec'' [] w argv (plain_stats False ''ktime_call_ben.txt'' w evs)"

definition loadbalancing_loader :: "'m load" where
  "loadbalancing_loader w argv evs =
     loader_main ''loadbalancing.o'' ''loadbalancing_sec'' [] w argv
       (poll_stats False ''loadbalancing_ben.txt'' id [Blank] Some (\<lambda>_. True) w evs)"

text \<open>The untimed programs: the loader ends and leaves the program running.\<close>

definition aggregate_loader_no_t :: "'m load" where
  "aggregate_loader_no_t w argv evs = loader_main ''aggregate_no_t.o'' ''aggregate_sec'' [''rxaggr''] w argv finish"

definition reduce_loader_no_t :: "'m load" where
  "reduce_loader_no_t w argv evs = loader_main ''reduce_no_t.o'' ''reduce_sec'' [''rxred''] w argv finish"

definition histogram_loader_no_t :: "'m load" where
  "histogram_loader_no_t w argv evs = loader_main ''histogram_no_t.o'' ''histogram_sec'' [''rxhist''] w argv finish"

definition copy_to_host_loader_no_t :: "'m load" where
  "copy_to_host_loader_no_t w argv evs =
     loader_main ''copy_to_host_no_t.o'' ''copy_to_host_sec'' [''rxcptoh''] w argv finish"

definition copy_from_host_loader_no_t :: "('m, u32) map_ops \<Rightarrow> 'm load" where
  "copy_from_host_loader_no_t ops w argv evs =
     loader_main ''copy_from_host_no_t.o'' ''copy_from_host_sec'' [''rxcptoh''] w argv (\<lambda>st.
       case init_copy ops (maps st) of
         None \<Rightarrow> (Assert_failed, st)
       | Some m \<Rightarrow> finish (st\<lparr>maps := m\<rparr>))"

definition filter_loader_no_t :: "('h, u16) map_ops \<Rightarrow> 'h load" where
  "filter_loader_no_t hops w argv evs =
     loader_main ''filter_no_t.o'' ''filter_sec'' [''rxfilter'', ''hmfilter''] w argv (\<lambda>st.
       finish (st\<lparr>maps := fill_htable hops HASH_ENTRIES (maps st)\<rparr>))"

definition kvstore_loader :: "'m load" where
  "kvstore_loader w argv evs = loader_main ''kvstore.o'' ''kvstore_sec'' [] w argv finish"

definition kvstore_loader_no_t :: "'m load" where
  "kvstore_loader_no_t w argv evs = loader_main ''kvstore_no_t.o'' ''kvstore_sec'' [] w argv finish"

definition ping_pong_loader :: "'m load" where
  "ping_pong_loader w argv evs = loader_main ''ping_pong.o'' ''ping_pong_sec'' [] w argv finish"

definition ping_pong_loader_no_t :: "'m load" where
  "ping_pong_loader_no_t w argv evs = loader_main ''ping_pong_no_t.o'' ''ping_pong_sec'' [] w argv finish"

definition fw_back_loader :: "'m load" where
  "fw_back_loader w argv evs = loader_main ''fw_back.o'' ''fw_back_sec'' [] w argv finish"

definition fw_back_ov_loader :: "'m load" where
  "fw_back_ov_loader w argv evs = loader_main ''fw_back_ov.o'' ''fw_back_ov_sec'' [] w argv finish"

text \<open>\<open>zuc_loader.c\<close> looks its map up before it attaches the program.\<close>

definition zuc_loader :: "'m load" where
  "zuc_loader w argv evs st = (
     if length argv \<noteq> 2 then (Return 1, st)
     else let ifindex = if_nametoindex w (argv ! 1)
     in if ifindex = 0 then (Return 1, st)
     else if \<not> open_prog w ''zuc.o'' ''zuc_sec'' then (Return 1, st)
     else if map_fd w ''rxhist'' < 0 then (Return (map_fd w ''rxhist''), st)
     else let ret = attach_prog w ifindex
     in if ret \<noteq> 0 then (Return ret, st)
     else (Return 0, st\<lparr>attached := Some ifindex\<rparr>))"

section \<open>Echo\<close>

text \<open>
  \<open>xdp_pass_loader.c\<close> and \<open>xdp_no_pass_loader.c\<close> (which attaches nothing) send every datagram back:
  always \<open>BUFLEN\<close> bytes of the buffer, whatever was received.
\<close>

fun echo_loop :: "bool \<Rightarrow> bytes \<Rightarrow> 'm net_event list \<Rightarrow> 'm loader \<Rightarrow> ending \<times> 'm loader" where
  "echo_loop has_prog buf [] st = (Waiting, st)"
| "echo_loop has_prog buf (Recv_error # evs) st = (Exit 1, st)"
| "echo_loop has_prog buf (Signal # evs) st = (if has_prog then int_exit st else (Exit 0, st))"
| "echo_loop has_prog buf (Datagram d m # evs) st = (
     let d = take BUFLEN d; buf = d @ drop (length d) buf in
     echo_loop has_prog buf evs (st\<lparr>echoed := echoed st @ [buf]\<rparr>))"

definition echo_stats :: "bool \<Rightarrow> bytes \<Rightarrow> world \<Rightarrow> 'm net_event list \<Rightarrow> 'm loader \<Rightarrow> ending \<times> 'm loader" where
  "echo_stats has_prog buf w evs st = (
     if socket_fd w = - 1 then (Exit 1, st)
     else if bind_result w = - 1 then (Exit 1, st)
     else echo_loop has_prog buf evs st)"

definition xdp_pass_loader :: "bytes \<Rightarrow> 'm load" where
  "xdp_pass_loader buf w argv evs = loader_main ''xdp_pass.o'' ''xdp_pass_sec'' [] w argv (echo_stats True buf w evs)"

definition xdp_no_pass_loader :: "bytes \<Rightarrow> 'm load" where
  "xdp_no_pass_loader buf w argv evs st = (
     if length argv \<noteq> 2 then (Return 1, st)
     else if if_nametoindex w (argv ! 1) = 0 then (Return 1, st)
     else echo_stats False buf w evs st)"

section \<open>What stays attached\<close>

lemma listen_keeps: "listen check evs st = (e, st') \<Longrightarrow> attached st' = attached st \<and> e \<in> {Waiting, Exit 1, Exit 0, Assert_failed}"
  by (induction check evs st rule: listen.induct) (auto simp: Let_def log_latency_def int_exit_def split: if_splits)

lemma listen_plain: "listen (\<lambda>_. True) evs st = (e, st') \<Longrightarrow> e \<in> {Waiting, Exit 1, Exit 0}"
proof (induction evs arbitrary: st)
  case (Cons ev evs)
  then show ?case
    by (cases ev) (auto simp: Let_def int_exit_def)
qed simp

lemma poll_stats_keeps: "poll_stats cpus fname prep hdr init check w evs st = (e, st') \<Longrightarrow> attached st' = attached st"
  by (auto simp: poll_stats_def Let_def dest: listen_keeps split: if_splits option.splits)

lemma loader_main_attached:
  assumes "\<And>st e st'. poll st = (e, st') \<Longrightarrow> attached st' = attached st"
    and "loader_main object section names w argv poll st = (e, st')"
  shows "attached st' = (if length argv = 2 \<and> if_nametoindex w (argv ! 1) \<noteq> 0 \<and> open_prog w object section \<and>
      attach_prog w (if_nametoindex w (argv ! 1)) = 0 then Some (if_nametoindex w (argv ! 1)) else attached st)"
  using assms(2) by (auto simp: loader_main_def Let_def dest: assms(1) split: if_splits)

section \<open>What is logged\<close>

lemma log_latency_eq:
  "log_latency d st = (if 16 \<le> length d then st\<lparr>ben_file := ben_file st @ [Latency (le64 d 8 - le64 d 0)]\<rparr> else st)"
  by (simp add: log_latency_def BUFLEN_def get_bytes_def Let_def min_def drop_take)

text \<open>The lines that a list of datagrams leaves in the file.\<close>

definition latencies :: "bytes list \<Rightarrow> line list" where
  "latencies ds = map (\<lambda>d. Latency (le64 d 8 - le64 d 0)) (filter (\<lambda>d. 16 \<le> length d) ds)"

lemma listen_datagrams:
  "listen (\<lambda>_. True) (map (\<lambda>(d, m). Datagram d m) ds) st =
     (Waiting, st\<lparr>maps := (if ds = [] then maps st else snd (last ds)),
        ben_file := ben_file st @ latencies (map fst ds)\<rparr>)"
proof (induction ds arbitrary: st)
  case Nil
  then show ?case by (simp add: latencies_def)
next
  case (Cons dm ds)
  then show ?case
    by (cases dm) (simp add: Let_def log_latency_eq latencies_def)
qed


text \<open>What the stack passes to the socket: the payload of a packet, by the length in its UDP header, or nothing.\<close>

definition udp_stack :: "(bytes \<Rightarrow> bytes option) \<Rightarrow> bool" where
  "udp_stack deliver \<longleftrightarrow> (\<forall>q d. deliver q = Some d \<longrightarrow> d = take (unat (payload_len q)) (drop 42 q))"

lemma stamped_datagram:
  assumes "job_frame p"
  shows "16 \<le> length (take (unat (payload_len (refreshed (stamped p t0 t1)))) (drop 42 (refreshed (stamped p t0 t1))))"
    "le64 (take (unat (payload_len (refreshed (stamped p t0 t1)))) (drop 42 (refreshed (stamped p t0 t1)))) 0 = t0"
    "le64 (take (unat (payload_len (refreshed (stamped p t0 t1)))) (drop 42 (refreshed (stamped p t0 t1)))) 8 = t1"
proof -
  have len: "1066 \<le> length p"
    using assms by (rule job_frame_length)
  have "payload_len (refreshed (stamped p t0 t1)) = 1024"
    using assms len by (simp add: job_frame_def payload_len_def mem_simps)
  moreover have "get_bytes (take 1024 (drop 42 q)) off 8 = get_bytes q (42 + off) 8" if "off + 8 \<le> 1024" for q off
    using that by (simp add: get_bytes_def drop_take min_def add.commute)
  moreover have "le64 (refreshed (stamped p t0 t1)) 42 = t0" "le64 (refreshed (stamped p t0 t1)) 50 = t1"
    using len stamped_times [of p t0 t1] by (simp_all add: mem_simps)
  ultimately show "16 \<le> length (take (unat (payload_len (refreshed (stamped p t0 t1)))) (drop 42 (refreshed (stamped p t0 t1))))"
    "le64 (take (unat (payload_len (refreshed (stamped p t0 t1)))) (drop 42 (refreshed (stamped p t0 t1)))) 0 = t0"
    "le64 (take (unat (payload_len (refreshed (stamped p t0 t1)))) (drop 42 (refreshed (stamped p t0 t1)))) 8 = t1"
    using len by (simp_all add: mem_simps)
qed

context bpf_array
begin

lemma aggregate_out:
  assumes "aggregate_wf max_entries st" "\<forall>(t0, t1, p) \<in> set es. job_frame p"
    and "run_xdp (\<lambda>(t0, t1, p). aggregate ops t0 t1 p) es st = Some (out, st')"
  shows "list_all2 (\<lambda>(t0, t1, p) (a, q). a = XDP_TX \<or> a = XDP_PASS \<and> q = refreshed (stamped p t0 t1)) es out"
  using assms
proof (induction es arbitrary: st out)
  case Nil
  then show ?case by simp
next
  case (Cons e es)
  obtain t0 t1 p where e: "e = (t0, t1, p)"
    by (cases e)
  obtain st1 where st1: "aggregate_wf max_entries st1" "aggregate ops t0 t1 p st = Some
      (if notifies (pkt_count ops st1) then (XDP_TX, swapped p, st1) else (XDP_PASS, refreshed (stamped p t0 t1), st1))"
    using aggregate_job [OF Cons.prems(1), of p t0 t1] Cons.prems(2) e by auto
  then obtain out1 where "run_xdp (\<lambda>(t0, t1, p). aggregate ops t0 t1 p) es st1 = Some (out1, st')"
      "out = (if notifies (pkt_count ops st1) then (XDP_TX, swapped p) else (XDP_PASS, refreshed (stamped p t0 t1))) # out1"
    using Cons.prems(3) e by (auto split: Option.bind_splits if_splits)
  then show ?case
    using Cons.IH [OF st1(1)] Cons.prems(2) e by simp
qed

end

text \<open>The packets of a run that reach the socket, with the invocation each comes from.\<close>

definition delivered :: "(bytes \<Rightarrow> bytes option) \<Rightarrow> timed list \<Rightarrow> (xdp_action \<times> bytes) list \<Rightarrow> (timed \<times> bytes) list" where
  "delivered deliver es out =
     map (\<lambda>(e, a, q). (e, the (deliver q))) (filter (\<lambda>(e, a, q). a = XDP_PASS \<and> deliver q \<noteq> None) (zip es out))"

lemma delivered_latencies:
  assumes "list_all2 (\<lambda>(t0, t1, p) (a, q). a = XDP_TX \<or> a = XDP_PASS \<and> q = refreshed (stamped p t0 t1)) es out"
    and "\<forall>(t0, t1, p) \<in> set es. job_frame p" "udp_stack deliver"
  shows "latencies (map snd (delivered deliver es out)) = map (\<lambda>((t0, t1, p), d). Latency (t1 - t0)) (delivered deliver es out)"
  using assms(1,2)
proof (induction rule: list_all2_induct)
  case Nil
  then show ?case by (simp add: delivered_def latencies_def)
next
  case (Cons e es r out)
  obtain t0 t1 p a q where er: "e = (t0, t1, p)" "r = (a, q)"
    by (metis prod.exhaust)
  have IH: "latencies (map snd (delivered deliver es out)) = map (\<lambda>((t0, t1, p), d). Latency (t1 - t0)) (delivered deliver es out)"
    using Cons by auto
  show ?case
  proof (cases "a = XDP_PASS \<and> deliver q \<noteq> None")
    case True
    then have q: "q = refreshed (stamped p t0 t1)" "job_frame p"
      using Cons er by auto
    then obtain d where d: "deliver q = Some d" "16 \<le> length d" "le64 d 0 = t0" "le64 d 8 = t1"
      using True stamped_datagram [of p t0 t1] assms(3) unfolding udp_stack_def by blast
    have "delivered deliver (e # es) (r # out) = (e, d) # delivered deliver es out"
      using True d(1) er by (simp add: delivered_def)
    then show ?thesis
      using IH d er by (simp add: latencies_def)
  next
    case False
    then have "delivered deliver (e # es) (r # out) = delivered deliver es out"
      using er by (auto simp: delivered_def)
    then show ?thesis
      using IH by simp
  qed
qed

section \<open>Properties\<close>

text \<open>
  C40: when the loader of \<open>aggregate\<close> ends, or waits: if it got as far as attaching the program, the program is still
  attached, also when the loader reports an error or is stopped by a signal; otherwise nothing was changed and the
  status tells so.
\<close>

theorem loader_attachment:
  shows "\<exists>e st'. aggregate_loader w argv evs st = (e, st') \<and>
    (let ifindex = if_nametoindex w (argv ! 1) in
     if length argv = 2 \<and> ifindex \<noteq> 0 \<and> open_prog w ''aggregate.o'' ''aggregate_sec'' \<and> attach_prog w ifindex = 0
     then attached st' = Some ifindex \<and> e \<in> {Return (map_fd w ''rxaggr''), Return 0, Exit 1, Exit 0, Waiting}
     else st' = st \<and> (e = Return 1 \<or> e = Return (attach_prog w ifindex) \<and> attach_prog w ifindex \<noteq> 0))"
proof -
  define ifindex where "ifindex = if_nametoindex w (argv ! 1)"
  obtain e1 st1 where poll: "plain_stats True ''aggregate_ben.txt'' w evs (st\<lparr>attached := Some ifindex\<rparr>) = (e1, st1)"
    by fastforce
  have e1: "e1 \<in> {Return 0, Exit 1, Exit 0, Waiting}"
    using poll by (auto simp: poll_stats_def Let_def dest!: listen_plain split: if_splits)
  have st1: "attached st1 = Some ifindex"
    using poll_stats_keeps [OF poll] by simp
  show ?thesis
  proof (cases "length argv = 2 \<and> ifindex \<noteq> 0 \<and> open_prog w ''aggregate.o'' ''aggregate_sec'' \<and> attach_prog w ifindex = 0")
    case True
    then have "aggregate_loader w argv evs st =
        (if map_fd w ''rxaggr'' < 0 then (Return (map_fd w ''rxaggr''), st\<lparr>attached := Some ifindex\<rparr>) else (e1, st1))"
      using poll unfolding aggregate_loader_def loader_main_def Let_def ifindex_def [symmetric] by simp
    then show ?thesis
      using True e1 st1 unfolding Let_def ifindex_def [symmetric] by auto
  next
    case False
    then have "aggregate_loader w argv evs st \<in> {(Return 1, st), (Return (attach_prog w ifindex), st)}"
      "aggregate_loader w argv evs st = (Return 1, st) \<or> attach_prog w ifindex \<noteq> 0"
      unfolding aggregate_loader_def loader_main_def Let_def ifindex_def [symmetric] by auto
    then show ?thesis
      using False unfolding Let_def ifindex_def [symmetric] by auto
  qed
qed

text \<open>A machine on which everything works.\<close>

definition easy_world :: world where
  "easy_world = \<lparr>if_nametoindex = \<lambda>s. if s = ''eth0'' then 2 else 0, open_prog = \<lambda>_ _. True, attach_prog = \<lambda>_. 0,
     map_fd = \<lambda>_. 5, socket_fd = 3, bind_result = 0, possible_cpus = 4, fopen_ok = \<lambda>_. True\<rparr>"

definition fresh_loader :: "'m \<Rightarrow> 'm loader" where
  "fresh_loader m = \<lparr>attached = None, prog_closed = False, maps = m, ben_file = [], echoed = []\<rparr>"

theorem loader_attachment_witness:
  "attached (snd (aggregate_loader easy_world [''loader'', ''eth0''] [Recv_error] (fresh_loader ()))) = Some 2 \<and>
   snd (aggregate_loader easy_world [''loader'', ''eth1''] [] (fresh_loader ())) = fresh_loader ()"
  using loader_attachment [of easy_world "[''loader'', ''eth0'']" "[Recv_error]" "fresh_loader ()"]
    loader_attachment [of easy_world "[''loader'', ''eth1'']" "[]" "fresh_loader ()"]
  by (auto simp: easy_world_def)

text \<open>
  C18: the benchmark end to end: \<open>aggregate\<close> runs on frames of the benchmark, the packets it passes go through the stack
  to the socket (or are lost), and the file of the loader gets, in order, one line for each that arrives: the time
  from its reception to the end of its processing.
\<close>

theorem aggregate_latencies:
  assumes "bpf_array ops me" "me (rxaggr st) = 1" "me (rxpkt st) = 1"
    and "\<forall>(t0, t1, p) \<in> set es. job_frame p" "run_xdp (\<lambda>(t0, t1, p). aggregate ops t0 t1 p) es st = Some (out, st')"
    and "udp_stack deliver"
    and "socket_fd w \<noteq> - 1" "bind_result w \<noteq> - 1" "0 \<le> possible_cpus w" "fopen_ok w fname"
  shows "\<exists>l'. plain_stats True fname w (map (\<lambda>(e, d). Datagram d m) (delivered deliver es out)) l = (Waiting, l') \<and>
    ben_file l' = ben_file l @ map (\<lambda>((t0, t1, p), d). Latency (t1 - t0)) (delivered deliver es out)"
proof -
  have "list_all2 (\<lambda>(t0, t1, p) (a, q). a = XDP_TX \<or> a = XDP_PASS \<and> q = refreshed (stamped p t0 t1)) es out"
    using bpf_array.aggregate_out [OF assms(1) _ assms(4,5)] assms(2,3) by (simp add: aggregate_wf_def)
  then have lines: "latencies (map snd (delivered deliver es out)) =
      map (\<lambda>((t0, t1, p), d). Latency (t1 - t0)) (delivered deliver es out)"
    using assms(4,6) by (rule delivered_latencies)
  let ?ds = "map (\<lambda>(e, d). (d, m)) (delivered deliver es out)"
  have "map (\<lambda>(e, d). Datagram d m) (delivered deliver es out) = map (\<lambda>(d, m). Datagram d m) ?ds"
    "map fst ?ds = map snd (delivered deliver es out)"
    by (simp_all add: case_prod_beta comp_def)
  moreover have "\<exists>l'. plain_stats True fname w (map (\<lambda>(d, m). Datagram d m) ?ds) l = (Waiting, l') \<and>
      ben_file l' = ben_file l @ latencies (map fst ?ds)"
    using assms(7-10) by (simp only: poll_stats_def listen_datagrams if_False if_True option.case id_apply append_Nil2) simp
  ultimately show ?thesis
    using lines by (simp only:)
qed

theorem aggregate_latencies_witness:
  "\<exists>out st' l'. run_xdp (\<lambda>(t0, t1, p). aggregate array_map t0 t1 p) [(5, 9, ones_frame), (20, 27, ones_frame)]
      \<lparr>rxpkt = [0], rxaggr = [7]\<rparr> = Some (out, st') \<and>
    plain_stats True ''f'' easy_world (map (\<lambda>(e, d). Datagram d ())
      (delivered (\<lambda>q. Some (take (unat (payload_len q)) (drop 42 q))) [(5, 9, ones_frame), (20, 27, ones_frame)] out))
      (fresh_loader ()) = (Waiting, l') \<and> ben_file l' = [Latency 4, Latency 7]"
proof -
  let ?st = "\<lparr>rxpkt = [0], rxaggr = [7]\<rparr> :: u32 list aggregate_maps"
  let ?es = "[(5, 9, ones_frame), (20, 27, ones_frame)] :: timed list"
  let ?del = "\<lambda>q. Some (take (unat (payload_len q)) (drop 42 q))"
  obtain out st' where out: "run_xdp (\<lambda>(t0, t1, p). aggregate array_map t0 t1 p) ?es ?st = Some (out, st')"
      "length out = length ?es" "length (filter (\<lambda>r. fst r = XDP_TX) out) = 0"
    using arr.aggregate_runs [of ?st ?es] by (auto simp: aggregate_wf_def pkt_count_array accepted_def job_frame_ones)
  obtain a b where ab: "out = [a, b]"
    using out(2) by (auto simp: length_Suc_conv)
  have "list_all2 (\<lambda>(t0, t1, p) (a, q). a = XDP_TX \<or> a = XDP_PASS \<and> q = refreshed (stamped p t0 t1)) ?es out"
    using arr.aggregate_out [OF _ _ out(1)] by (auto simp: aggregate_wf_def job_frame_ones)
  then have "fst a = XDP_PASS" "fst b = XDP_PASS"
    using out(3) ab by (auto split: if_splits)
  then have "map fst (delivered ?del ?es out) = ?es"
    using ab by (simp add: delivered_def case_prod_beta)
  moreover have "map (\<lambda>((t0, t1, p), d). Latency (t1 - t0)) xs = map (\<lambda>(t0, t1, p). Latency (t1 - t0)) (map fst xs)"
    for xs :: "(timed \<times> bytes) list"
    by (simp add: case_prod_beta comp_def)
  ultimately have "map (\<lambda>((t0, t1, p), d). Latency (t1 - t0)) (delivered ?del ?es out) = map (\<lambda>(t0, t1, p). Latency (t1 - t0)) ?es"
    by metis
  moreover have "map (\<lambda>(t0, t1, p). Latency (t1 - t0)) ?es = [Latency 4, Latency 7]"
    by simp
  ultimately have lines: "map (\<lambda>((t0, t1, p), d). Latency (t1 - t0)) (delivered ?del ?es out) = [Latency 4, Latency 7]"
    by simp
  have hyps: "length (rxaggr ?st) = 1" "length (rxpkt ?st) = 1" "\<forall>(t0, t1, p) \<in> set ?es. job_frame p" "udp_stack ?del"
      "socket_fd easy_world \<noteq> - 1" "bind_result easy_world \<noteq> - 1" "0 \<le> possible_cpus easy_world" "fopen_ok easy_world ''f''"
    by (simp_all add: job_frame_ones udp_stack_def easy_world_def)
  obtain l' where "plain_stats True ''f'' easy_world (map (\<lambda>(e, d). Datagram d ()) (delivered ?del ?es out)) (fresh_loader ()) =
      (Waiting, l')" "ben_file l' = ben_file (fresh_loader ()) @ [Latency 4, Latency 7]"
    using aggregate_latencies [OF arr.bpf_array_axioms hyps(1-3) out(1) hyps(4-8), of "()" "fresh_loader ()"] lines by auto
  moreover have "ben_file (fresh_loader ()) = []"
    by (simp add: fresh_loader_def)
  ultimately show ?thesis
    using out(1) by (intro exI [of _ out] exI [of _ st'] exI [of _ l']) simp
qed

end
