(* ===== verification/Rtt_Client.thy ===== *)
theory Rtt_Client
  imports Xdp_Loader
begin

text \<open>
  The benchmark clients (\<open>*_stats.c\<close> of \<open>src/ebpf-xdp\<close> and \<open>src/dpdk\<close>): they send a file of 1 MiB in chunks of 1024
  bytes, wait for the answer to each chunk before the next, and write the round-trip times to a file.

  Input of the model: the file, whether the files open, and what each wait brings.  A client that has used
  up its waits is \<open>Waiting\<close>: nothing bounds the time it does so.
\<close>

section \<open>The client\<close>

record timespec =
  tv_sec :: u64
  tv_nsec :: u64

definition ns_of :: "timespec \<Rightarrow> u64" where
  "ns_of t = tv_nsec t + tv_sec t * 1000000000"

text \<open>
  A chunk is sent at the first time; \<open>recvfrom\<close> returns at the second, or fails.  \<open>Interrupted\<close>: a signal comes
  while it waits.
\<close>

datatype wait = Answer timespec timespec | Failed | Interrupted

record rtt_env =
  client_socket :: int
  client_bind :: int
  content :: bytes
  readable :: "nat \<Rightarrow> bool"
  writable :: "nat \<Rightarrow> bool"

record client =
  fdata :: bytes
  pos :: nat
  sent :: "bytes list"
  waits :: "wait list"
  rtt_file :: "u64 list"

definition SIZE :: nat where
  "SIZE = TOT_SIZE_B"

definition chunks :: nat where
  "chunks = MiB div SIZE"

text \<open>\<open>fread(fdata, sizeof(fdata), 1, rfptr)\<close>; at the end of the file the rest of the buffer stays as it is.\<close>

definition read_chunk :: "rtt_env \<Rightarrow> client \<Rightarrow> client" where
  "read_chunk env st = (
     let new = take SIZE (drop (pos st) (content env)) in
     st\<lparr>fdata := new @ drop (length new) (fdata st), pos := pos st + length new\<rparr>)"

text \<open>
  One chunk: the handler of a signal closes both files; the one for writing is not open at that time (a null
  or a closed stream), which is undefined (\<^const>\<open>None\<close>).
\<close>

definition exchange :: "rtt_env \<Rightarrow> nat \<Rightarrow> client \<times> u64 list \<Rightarrow> (ending \<times> client + client \<times> u64 list) option" where
  "exchange env i = (\<lambda>(st, time_diff).
     let st = read_chunk env st;
         st = st\<lparr>sent := sent st @ [fdata st]\<rparr>
     in case waits st of
          [] \<Rightarrow> Some (Inl (Waiting, st))
        | Failed # evs \<Rightarrow> Some (Inl (Exit 1, st))
        | Interrupted # evs \<Rightarrow> None
        | Answer send rec # evs \<Rightarrow> Some (Inr (st\<lparr>waits := evs\<rparr>, time_diff @ [ns_of rec - ns_of send])))"

text \<open>One repetition: the file is read from its start, and the times are written at the end.\<close>

definition repetition :: "rtt_env \<Rightarrow> nat \<Rightarrow> client \<Rightarrow> (ending \<times> client + client) option" where
  "repetition env j st = (
     if \<not> readable env j then Some (Inl (Exit 1, st))
     else do {
       r \<leftarrow> for_each_ret (exchange env) [0..<chunks] (st\<lparr>pos := 0\<rparr>, []);
       case r of
         Inl x \<Rightarrow> Some (Inl x)
       | Inr (st, time_diff) \<Rightarrow>
           if \<not> writable env j then Some (Inl (Exit 1, st))
           else Some (Inr (st\<lparr>rtt_file := rtt_file st @ time_diff\<rparr>))
     })"

definition rtt_stats :: "nat \<Rightarrow> rtt_env \<Rightarrow> client \<Rightarrow> (ending \<times> client) option" where
  "rtt_stats nr_rep env st = (
     if MiB mod SIZE \<noteq> 0 then Some (Exit 1, st)
     else if client_socket env = - 1 then Some (Exit 1, st)
     else if client_bind env = - 1 then Some (Exit 1, st)
     else do {
       r \<leftarrow> for_each_ret (repetition env) [0..<nr_rep] st;
       case r of Inl (e, st) \<Rightarrow> Some (e, st) | Inr st \<Rightarrow> Some (Return 0, st)
     })"

text \<open>The clients; \<open>NR_REP\<close> is 1000 in the XDP benchmarks and 1 in the DPDK ones.\<close>

definition fw_back_stats :: "rtt_env \<Rightarrow> client \<Rightarrow> (ending \<times> client) option" where
  "fw_back_stats = rtt_stats 1000"

definition fw_back_ov_stats :: "rtt_env \<Rightarrow> client \<Rightarrow> (ending \<times> client) option" where
  "fw_back_ov_stats = rtt_stats 1000"

definition xdp_pass_stats :: "rtt_env \<Rightarrow> client \<Rightarrow> (ending \<times> client) option" where
  "xdp_pass_stats = rtt_stats 1000"

definition xdp_no_pass_stats :: "rtt_env \<Rightarrow> client \<Rightarrow> (ending \<times> client) option" where
  "xdp_no_pass_stats = rtt_stats 1000"

definition dpdk_kvstore_stats :: "rtt_env \<Rightarrow> client \<Rightarrow> (ending \<times> client) option" where
  "dpdk_kvstore_stats = rtt_stats 1"

definition dpdk_zuc_stats :: "rtt_env \<Rightarrow> client \<Rightarrow> (ending \<times> client) option" where
  "dpdk_zuc_stats = rtt_stats 1"

section \<open>The client of the XDP ZUC benchmark\<close>

text \<open>
  It sends the whole file first and then logs the times in the packets it receives, as the loaders do; a signal makes
  it close the input file a second time.
\<close>

fun zuc_listen :: "unit net_event list \<Rightarrow> client \<Rightarrow> (ending \<times> client) option" where
  "zuc_listen [] st = Some (Waiting, st)"
| "zuc_listen (Recv_error # evs) st = Some (Exit 1, st)"
| "zuc_listen (Signal # evs) st = None"
| "zuc_listen (Datagram d u # evs) st = (
     let buf = take BUFLEN d in
     zuc_listen evs (if BUFLEN \<le> length buf then st\<lparr>rtt_file := rtt_file st @ [le64 buf 8 - le64 buf 0]\<rparr> else st))"

definition zuc_stats :: "rtt_env \<Rightarrow> unit net_event list \<Rightarrow> client \<Rightarrow> (ending \<times> client) option" where
  "zuc_stats env evs st = (
     if MiB mod SIZE \<noteq> 0 then Some (Exit 1, st)
     else if client_socket env = - 1 then Some (Exit 1, st)
     else if client_bind env = - 1 then Some (Exit 1, st)
     else if \<not> readable env 0 then Some (Exit 1, st)
     else let st = fold (\<lambda>i st. let st = read_chunk env st in st\<lparr>sent := sent st @ [fdata st]\<rparr>) [0..<chunks] (st\<lparr>pos := 0\<rparr>)
     in if \<not> writable env 0 then Some (Exit 1, st)
     else zuc_listen evs st)"

section \<open>Exchanges\<close>

text \<open>Chunk \<open>i\<close> of a file, and the round-trip time of an answer.\<close>

definition chunk :: "bytes \<Rightarrow> nat \<Rightarrow> bytes" where
  "chunk bs i = take 1024 (drop (1024 * i) bs)"

fun rtt :: "wait \<Rightarrow> u64" where
  "rtt (Answer send rec) = ns_of rec - ns_of send"
| "rtt _ = 0"

fun answer :: "wait \<Rightarrow> bool" where
  "answer (Answer send rec) = True"
| "answer _ = False"

lemma size_consts: "SIZE = 1024" "chunks = 1024" "MiB mod 1024 = 0"
  by (simp_all add: SIZE_def chunks_def const_defs)

lemma read_chunk_eq:
  assumes "1024 * Suc i \<le> length (content env)" "length (fdata st) = 1024" "pos st = 1024 * i"
  shows "read_chunk env st = st\<lparr>fdata := chunk (content env) i, pos := 1024 * Suc i\<rparr>"
  using assms by (simp add: read_chunk_def size_consts chunk_def Let_def)

lemma length_chunk: "1024 * Suc i \<le> length bs \<Longrightarrow> length (chunk bs i) = 1024"
  by (simp add: chunk_def)

lemma exchanges:
  assumes "1024 * n \<le> length (content env)" "length (fdata st) = 1024" "pos st = 0" "\<forall>e \<in> set (waits st). answer e"
  shows "if n \<le> length (waits st)
    then \<exists>st'. for_each_ret (exchange env) [0..<n] (st, []) = Some (Inr (st', map rtt (take n (waits st)))) \<and>
      waits st' = drop n (waits st) \<and> sent st' = sent st @ map (chunk (content env)) [0..<n] \<and>
      rtt_file st' = rtt_file st \<and> length (fdata st') = 1024 \<and> pos st' = 1024 * n
    else \<exists>st'. for_each_ret (exchange env) [0..<n] (st, []) = Some (Inl (Waiting, st')) \<and>
      sent st' = sent st @ map (chunk (content env)) [0..<Suc (length (waits st))] \<and> rtt_file st' = rtt_file st"
  using assms(1)
proof (induction n)
  case 0
  then show ?case
    using assms by simp
next
  case (Suc n)
  show ?case
  proof (cases "n \<le> length (waits st)")
    case True
    then obtain st1 where st1: "for_each_ret (exchange env) [0..<n] (st, []) = Some (Inr (st1, map rtt (take n (waits st))))"
        "waits st1 = drop n (waits st)" "sent st1 = sent st @ map (chunk (content env)) [0..<n]"
        "rtt_file st1 = rtt_file st" "length (fdata st1) = 1024" "pos st1 = 1024 * n"
      using Suc by auto
    have r: "read_chunk env st1 = st1\<lparr>fdata := chunk (content env) n, pos := 1024 * Suc n\<rparr>"
      using Suc.prems st1 by (intro read_chunk_eq) auto
    show ?thesis
    proof (cases "Suc n \<le> length (waits st)")
      case True
      then have w: "waits st1 = waits st ! n # drop (Suc n) (waits st)"
        using st1(2) by (simp add: Cons_nth_drop_Suc)
      moreover have "answer (waits st ! n)"
        using assms(4) True by simp
      ultimately obtain a b where ab: "waits st ! n = Answer a b"
        by (cases "waits st ! n") auto
      then have "exchange env n (st1, map rtt (take n (waits st))) =
          Some (Inr (st1\<lparr>fdata := chunk (content env) n, pos := 1024 * Suc n, sent := sent st1 @ [chunk (content env) n],
            waits := drop (Suc n) (waits st)\<rparr>, map rtt (take (Suc n) (waits st))))"
        using True w by (simp add: exchange_def r take_Suc_conv_app_nth)
      then show ?thesis
        using True st1 length_chunk [OF Suc.prems] by (simp add: for_each_ret_append)
    next
      case False
      then have "length (waits st) = n" "waits st1 = []"
        using True st1(2) by auto
      then show ?thesis
        using st1 by (simp add: for_each_ret_append exchange_def r)
    qed
  next
    case False
    then show ?thesis
      using Suc by (auto simp: for_each_ret_append)
  qed
qed

lemma repetition_eq:
  assumes "1048576 \<le> length (content env)" "length (fdata st) = 1024" "\<forall>e \<in> set (waits st). answer e"
    and "readable env j" "writable env j"
  shows "if 1024 \<le> length (waits st)
    then \<exists>st'. repetition env j st = Some (Inr st') \<and> waits st' = drop 1024 (waits st) \<and>
      sent st' = sent st @ map (chunk (content env)) [0..<1024] \<and>
      rtt_file st' = rtt_file st @ map rtt (take 1024 (waits st)) \<and> length (fdata st') = 1024
    else \<exists>st'. repetition env j st = Some (Inl (Waiting, st')) \<and> rtt_file st' = rtt_file st \<and>
      sent st' = sent st @ map (chunk (content env)) [0..<Suc (length (waits st))]"
  using exchanges [of 1024 env "st\<lparr>pos := 0\<rparr>"] assms
  by (auto simp: repetition_def size_consts split: if_splits)


section \<open>Properties\<close>

text \<open>The lines that \<open>n\<close> answers leave in the file: only complete repetitions are written.\<close>

definition whole_repetitions :: "nat \<Rightarrow> nat" where
  "whole_repetitions n = n div 1024 * 1024"

lemma repetitions:
  assumes "1048576 \<le> length (content env)" "length (fdata st) = 1024" "\<forall>e \<in> set (waits st). answer e"
    and "\<forall>j \<in> set js. readable env j \<and> writable env j"
  shows "if 1024 * length js \<le> length (waits st)
    then \<exists>st'. for_each_ret (repetition env) js st = Some (Inr st') \<and>
      rtt_file st' = rtt_file st @ map rtt (take (1024 * length js) (waits st)) \<and>
      sent st' = sent st @ concat (replicate (length js) (map (chunk (content env)) [0..<1024]))
    else \<exists>st'. for_each_ret (repetition env) js st = Some (Inl (Waiting, st')) \<and>
      rtt_file st' = rtt_file st @ map rtt (take (whole_repetitions (length (waits st))) (waits st)) \<and>
      length (sent st') = Suc (length (sent st) + length (waits st))"
  using assms(2-4)
proof (induction js arbitrary: st)
  case Nil
  then show ?case by simp
next
  case (Cons j js)
  have rep: "if 1024 \<le> length (waits st)
    then \<exists>st'. repetition env j st = Some (Inr st') \<and> waits st' = drop 1024 (waits st) \<and>
      sent st' = sent st @ map (chunk (content env)) [0..<1024] \<and>
      rtt_file st' = rtt_file st @ map rtt (take 1024 (waits st)) \<and> length (fdata st') = 1024
    else \<exists>st'. repetition env j st = Some (Inl (Waiting, st')) \<and> rtt_file st' = rtt_file st \<and>
      sent st' = sent st @ map (chunk (content env)) [0..<Suc (length (waits st))]"
    using repetition_eq [OF assms(1) Cons.prems(1,2), of j] Cons.prems(3) by simp
  show ?case
  proof (cases "1024 \<le> length (waits st)")
    case True
    then obtain st1 where st1: "repetition env j st = Some (Inr st1)" "waits st1 = drop 1024 (waits st)"
        "sent st1 = sent st @ map (chunk (content env)) [0..<1024]"
        "rtt_file st1 = rtt_file st @ map rtt (take 1024 (waits st))" "length (fdata st1) = 1024"
      using rep by auto
    have all: "\<forall>e \<in> set (waits st1). answer e"
      using Cons.prems(2) st1(2) by (auto dest: in_set_dropD)
    have len: "length (waits st) = 1024 + length (waits st1)"
      using True st1(2) by simp
    have split: "map rtt (take (1024 + k) (waits st)) = map rtt (take 1024 (waits st)) @ map rtt (take k (waits st1))" for k
      by (simp only: take_add st1(2) map_append)
    have whole: "whole_repetitions (length (waits st)) = 1024 + whole_repetitions (length (waits st1))"
      using div_add_self1 [of 1024 "length (waits st1)"] by (simp add: whole_repetitions_def len)
    show ?thesis
      using Cons.IH [OF st1(5) all] Cons.prems(3) st1(1,3,4) split whole len by (simp split: if_splits)
  next
    case False
    then show ?thesis
      using rep by (auto simp: whole_repetitions_def)
  qed
qed

text \<open>
  C37: a benchmark client whose files open and whose waits all end in an answer: if there are enough answers it ends
  with status 0, has sent the chunks of the file once per repetition, in order, and written the round-trip
  time of each; if one answer is missing it waits for ever, and the times of the repetition in which that happens are
  never written.
\<close>

theorem rtt_stats_runs:
  assumes "1048576 \<le> length (content env)" "length (fdata st) = 1024" "\<forall>e \<in> set (waits st). answer e"
    and "client_socket env \<noteq> - 1" "client_bind env \<noteq> - 1" "\<forall>j<nr_rep. readable env j \<and> writable env j"
  shows "if 1024 * nr_rep \<le> length (waits st)
    then \<exists>st'. rtt_stats nr_rep env st = Some (Return 0, st') \<and>
      rtt_file st' = rtt_file st @ map rtt (take (1024 * nr_rep) (waits st)) \<and>
      sent st' = sent st @ concat (replicate nr_rep (map (chunk (content env)) [0..<1024]))
    else \<exists>st'. rtt_stats nr_rep env st = Some (Waiting, st') \<and>
      rtt_file st' = rtt_file st @ map rtt (take (whole_repetitions (length (waits st))) (waits st)) \<and>
      length (sent st') = Suc (length (sent st) + length (waits st))"
  using repetitions [OF assms(1-3), of "[0..<nr_rep]"] assms(4-6)
  by (auto simp: rtt_stats_def size_consts split: if_splits)

theorem rtt_stats_runs_witness:
  "\<exists>st'. dpdk_kvstore_stats \<lparr>client_socket = 3, client_bind = 0, content = replicate 1048576 7,
        readable = \<lambda>_. True, writable = \<lambda>_. True\<rparr>
      \<lparr>fdata = replicate 1024 0, pos = 0, sent = [],
        waits = [Answer \<lparr>tv_sec = 0, tv_nsec = 5\<rparr> \<lparr>tv_sec = 0, tv_nsec = 9\<rparr>], rtt_file = []\<rparr> = Some (Waiting, st') \<and>
    rtt_file st' = [] \<and> length (sent st') = 2"
proof -
  let ?env = "\<lparr>client_socket = 3, client_bind = 0, content = replicate 1048576 7,
        readable = \<lambda>_. True, writable = \<lambda>_. True\<rparr>"
  let ?st = "\<lparr>fdata = replicate 1024 0, pos = 0, sent = [],
        waits = [Answer \<lparr>tv_sec = 0, tv_nsec = 5\<rparr> \<lparr>tv_sec = 0, tv_nsec = 9\<rparr>], rtt_file = []\<rparr>"
  have "1048576 \<le> length (content ?env)" "length (fdata ?st) = 1024" "\<forall>e \<in> set (waits ?st). answer e"
      "client_socket ?env \<noteq> - 1" "client_bind ?env \<noteq> - 1" "\<forall>j<1. readable ?env j \<and> writable ?env j"
    by (simp_all only: rtt_env.select_convs client.select_convs length_replicate) simp_all
  from rtt_stats_runs [OF this] show ?thesis
    by (simp add: dpdk_kvstore_stats_def whole_repetitions_def numeral_2_eq_2)
qed

end
