(* ===== verification/Dpdk_Forward.thy ===== *)
theory Dpdk_Forward
  imports Dpdk_Batch "HOL-Library.AList"
begin

text \<open>
  \<open>src/dpdk/pingpong\<close> and \<open>src/dpdk/kvstore\<close>: programs that answer every frame in place and send the burst
  back (\<^const>\<open>forward_poll\<close>).
\<close>

section \<open>Sends\<close>

text \<open>What a poll of a forwarding program does when its work meets the contract.\<close>

definition answered :: "(bytes \<Rightarrow> 'a \<Rightarrow> bytes) \<Rightarrow> (bytes \<Rightarrow> 'a \<Rightarrow> 'a) \<Rightarrow> mbuf list \<Rightarrow> 'a \<Rightarrow> mbuf list" where
  "answered out effect ms a = fst (fold (burst_answer out effect) ms ([], a, 0))"

context lcore_job
begin

lemma forward_poll_ok:
  assumes "accepts okay env" "wf (app st)" "file_ok env" "rx env \<noteq> []"
  shows "\<exists>st' es l k. forward_poll timed work scale env st = Some (Inr st') \<and>
    app st' = fold effect (frames env) (app st) \<and> pkt_rec st' = pkt_rec st \<and>
    (let bufs = answered out effect (rx env) (app st) in
     events st' = events st @ replicate k (Log l) @
       Tx_burst (take (length (frames env)) bufs) (taken env) # map (\<lambda>m. Pktmbuf_free (mid m)) (drop (taken env) bufs))"
proof -
  define st0 where "st0 = (if timed then rx_latency (rx_time env) st else st)"
  have st0: "app st0 = app st" "pkt_rec st0 = pkt_rec st" "events st0 = events st"
    by (simp_all add: st0_def rx_latency_def)
  obtain bufs b nb where u: "fold (burst_answer out effect) (rx env) ([], app st, 0) = (bufs, b, nb)"
    by (cases "fold (burst_answer out effect) (rx env) ([], app st, 0)")
  have small: "length (frames env) \<le> 64"
    using burst_ok [OF assms(1,2)] by blast
  have b: "b = fold effect (frames env) (app st)" "nb = of_nat (length (frames env))"
    using answer_fold [OF u] by (simp_all add: frames_def)
  have loop: "burst_loop work (rx env) (app st0) = Some (Inr (bufs, b, nb))"
    using burst_loop_ok [of "rx env" "app st"] assms(1,2) u st0
    by (auto simp: accepts_def in_bounds_def frames_def)
  have len: "length bufs = length (rx env)"
    using arg_cong [OF burst_loop_mids(1) [OF loop], of length] by simp
  obtain st1 where log: "(if timed then calc_latency scale env nb (st0\<lparr>app := b\<rparr>) else Inr (st0\<lparr>app := b\<rparr>)) = Inr st1"
    using calc_latency_ok [OF assms(3)] by metis
  have "unat nb = length (frames env)"
    using b(2) small by (simp add: unat_of_nat take_bit_nat_eq_self)
  then have "forward_poll timed work scale env st = Some (Inr (emit (map (\<lambda>m. Pktmbuf_free (mid m)) (drop (taken env) bufs))
      (emit [Tx_burst (take (length (frames env)) bufs) (taken env)] st1)))"
    using assms(4) loop log len
    by (auto simp: forward_poll_def st0_def [symmetric] Let_def emit_def)
  then show ?thesis
    using calc_latency_cases [OF log] st0 b(1) u by (auto simp: answered_def Let_def)
qed

end

section \<open>Ping-pong\<close>

definition dpdk_pingpong_work :: "unit packet_work" where
  "dpdk_pingpong_work d a = do { d \<leftarrow> dpdk_swap d; Some (Inr (d, a)) }"

definition dpdk_pingpong :: "unit lcore" where
  "dpdk_pingpong scale = lcore_loop (forward_poll True dpdk_pingpong_work scale)"

definition dpdk_pingpong_no_t :: "unit lcore" where
  "dpdk_pingpong_no_t scale = lcore_loop (forward_poll False dpdk_pingpong_work scale)"

interpretation dpdk_ping: lcore_job dpdk_pingpong_work "\<lambda>_. True" "\<lambda>_. True" "\<lambda>d _. swapped d" "\<lambda>_ a. a"
  by unfold_locales (simp_all add: dpdk_pingpong_work_def dpdk_swap_in)

lemma answered_stateless:
  "answered (\<lambda>d _. g d) (\<lambda>_ a. a) ms a = map (\<lambda>m. if dpdk_frame (room m) then m\<lparr>room := g (room m)\<rparr> else m) ms"
proof -
  have "fst (fold (burst_answer (\<lambda>d _. g d) (\<lambda>_ a. a)) ms (xs, a, n)) =
      xs @ map (\<lambda>m. if dpdk_frame (room m) then m\<lparr>room := g (room m)\<rparr> else m) ms" for xs n
    by (induction ms arbitrary: xs n) (auto simp: burst_answer_def)
  then show ?thesis
    by (simp add: answered_def)
qed

section \<open>Key-value store\<close>

text \<open>
  The store is an \<open>rte_hash\<close> with data: \<open>rte_hash_add_key_data\<close>, whose return value the program ignores, and
  \<open>rte_hash_lookup_data\<close>, \<^const>\<open>None\<close> for a negative result.  Adding fails only for a key that is not in the table, and
  then changes nothing; entries are never evicted.
\<close>

locale rte_hash_data =
  fixes add_key_data :: "'h \<Rightarrow> u32 \<Rightarrow> u64 \<Rightarrow> 'h"
    and lookup_data :: "'h \<Rightarrow> u32 \<Rightarrow> u64 option"
  assumes add_known: "lookup_data h k \<noteq> None \<Longrightarrow> lookup_data (add_key_data h k v) = (lookup_data h)(k \<mapsto> v)"
    and add_new: "lookup_data h k = None \<Longrightarrow>
      lookup_data (add_key_data h k v) = (lookup_data h)(k \<mapsto> v) \<or> lookup_data (add_key_data h k v) = lookup_data h"

definition DPDK_SETS_NR :: nat where "DPDK_SETS_NR = 1"

definition DPDK_BUCK :: "u32 \<Rightarrow> int" where
  "DPDK_BUCK v = c_rem v (int DPDK_SETS_NR)"

text \<open>\<open>cache[BUCK(key)]\<close>, undefined past the end.\<close>

definition cache_set :: "'h list \<Rightarrow> u32 \<Rightarrow> 'h option" where
  "cache_set cache key = (let b = DPDK_BUCK key in
     if 0 \<le> b \<and> nat b < length cache then Some (cache ! nat b) else None)"

text \<open>
  A value is stored in place of a data pointer (\<open>T *val = payload[2]\<close>, sign-extended) and read back as
  \<open>(T) data\<close>; a miss is answered with 0.
\<close>

definition dpdk_kv_access :: "('h \<Rightarrow> u32 \<Rightarrow> u64 \<Rightarrow> 'h) \<Rightarrow> ('h \<Rightarrow> u32 \<Rightarrow> u64 option) \<Rightarrow> bytes \<Rightarrow> 'h list \<Rightarrow> (bytes \<times> 'h list) option" where
  "dpdk_kv_access add_key_data lookup_data d cache = do {
     flag \<leftarrow> rd32 d pay_off;
     if flag \<noteq> 0 then do {
       key \<leftarrow> rd32 d (pay_off + 4);
       val \<leftarrow> rd32 d (pay_off + 8);
       set \<leftarrow> cache_set cache key;
       Some (d, cache[nat (DPDK_BUCK key) := add_key_data set key (scast val)])
     }
     else do {
       key \<leftarrow> rd32 d (pay_off + 4);
       set \<leftarrow> cache_set cache key;
       let data = (case lookup_data set key of None \<Rightarrow> 0 | Some data \<Rightarrow> data);
       d \<leftarrow> wr32 d (pay_off + 8) (ucast data);
       Some (d, cache)
     }
   }"

definition dpdk_kv_work :: "('h \<Rightarrow> u32 \<Rightarrow> u64 \<Rightarrow> 'h) \<Rightarrow> ('h \<Rightarrow> u32 \<Rightarrow> u64 option) \<Rightarrow> (bytes \<Rightarrow> u16) \<Rightarrow> 'h list packet_work" where
  "dpdk_kv_work add_key_data lookup_data cksum d cache = do {
     (d, cache) \<leftarrow> dpdk_kv_access add_key_data lookup_data d cache;
     d \<leftarrow> dpdk_swap d;
     d \<leftarrow> dpdk_refresh cksum d;
     Some (Inr (d, cache))
   }"

definition dpdk_kvstore :: "('h \<Rightarrow> u32 \<Rightarrow> u64 \<Rightarrow> 'h) \<Rightarrow> ('h \<Rightarrow> u32 \<Rightarrow> u64 option) \<Rightarrow> (bytes \<Rightarrow> u16) \<Rightarrow> 'h list lcore" where
  "dpdk_kvstore add_key_data lookup_data cksum scale =
     lcore_loop (forward_poll True (dpdk_kv_work add_key_data lookup_data cksum) scale)"

definition dpdk_kvstore_no_t :: "('h \<Rightarrow> u32 \<Rightarrow> u64 \<Rightarrow> 'h) \<Rightarrow> ('h \<Rightarrow> u32 \<Rightarrow> u64 option) \<Rightarrow> (bytes \<Rightarrow> u16) \<Rightarrow> 'h list lcore" where
  "dpdk_kvstore_no_t add_key_data lookup_data cksum scale =
     lcore_loop (forward_poll False (dpdk_kv_work add_key_data lookup_data cksum) scale)"

lemma DPDK_BUCK_0 [simp]: "DPDK_BUCK key = 0"
  by (simp add: DPDK_BUCK_def DPDK_SETS_NR_def c_rem_def signed_modulo_int_def)

lemma cache_set_single [simp]: "cache_set [h] key = Some h"
  by (simp add: cache_set_def Let_def)

lemma ucast_scast [simp]: "(ucast (scast (v :: u32) :: u64) :: u32) = v"
  by (rule bit_word_eqI) (simp add: bit_simps)

text \<open>The request words, and what a request does to the table and answers.\<close>

definition kv_flag :: "bytes \<Rightarrow> u32" where "kv_flag d = payload_word d 0"
definition kv_key :: "bytes \<Rightarrow> u32" where "kv_key d = payload_word d 1"
definition kv_val :: "bytes \<Rightarrow> u32" where "kv_val d = payload_word d 2"

definition kv_content :: "('h \<Rightarrow> u32 \<Rightarrow> u64 option) \<Rightarrow> 'h \<Rightarrow> u32 \<Rightarrow> u32" where
  "kv_content lookup_data h k = (case lookup_data h k of None \<Rightarrow> 0 | Some data \<Rightarrow> ucast data)"

definition kv_table :: "('h \<Rightarrow> u32 \<Rightarrow> u64 \<Rightarrow> 'h) \<Rightarrow> bytes \<Rightarrow> 'h \<Rightarrow> 'h" where
  "kv_table add_key_data d h = (if kv_flag d \<noteq> 0 then add_key_data h (kv_key d) (scast (kv_val d)) else h)"

definition kv_out :: "('h \<Rightarrow> u32 \<Rightarrow> u64 option) \<Rightarrow> (bytes \<Rightarrow> u16) \<Rightarrow> bytes \<Rightarrow> 'h \<Rightarrow> bytes" where
  "kv_out lookup_data cksum d h = the (dpdk_refresh cksum (swapped
     (if kv_flag d \<noteq> 0 then d else put32 d 50 (kv_content lookup_data h (kv_key d)))))"

lemma dpdk_kv_work_single:
  assumes "1066 \<le> length d"
  shows "dpdk_kv_work add_key_data lookup_data cksum d [h] =
    Some (Inr (kv_out lookup_data cksum d h, [kv_table add_key_data d h]))"
proof -
  have words: "le32 d 42 = kv_flag d" "le32 d 46 = kv_key d" "le32 d 50 = kv_val d"
    by (simp_all add: kv_flag_def kv_key_def kv_val_def payload_word_def)
  have "ucast (case lookup_data h (kv_key d) of None \<Rightarrow> 0 | Some data \<Rightarrow> data) = kv_content lookup_data h (kv_key d)"
    by (simp add: kv_content_def split: option.split)
  then have "dpdk_kv_access add_key_data lookup_data d [h] = Some
      (if kv_flag d \<noteq> 0 then d else put32 d 50 (kv_content lookup_data h (kv_key d)), [kv_table add_key_data d h])"
    using assms by (simp add: dpdk_kv_access_def load_in store_in words kv_table_def Let_def)
  then show ?thesis
    using assms by (simp add: dpdk_kv_work_def dpdk_swap_in dpdk_refresh_in mem_simps kv_out_def)
qed

lemma length_kv_out [simp]: "1066 \<le> length d \<Longrightarrow> length (kv_out lookup_data cksum d h) = length d"
  by (simp add: kv_out_def dpdk_refresh_in mem_simps)

lemma kv_out_words:
  assumes "1066 \<le> length d" "j < 256"
  shows "payload_word (kv_out lookup_data cksum d h) j =
    (if kv_flag d = 0 \<and> j = 2 then kv_content lookup_data h (kv_key d) else payload_word d j)"
proof (cases "kv_flag d = 0 \<and> j = 2")
  case True
  then show ?thesis
    using assms by (simp add: kv_out_def dpdk_refresh_in payload_word_def mem_simps)
next
  case False
  moreover have "42 + 4 * j + 4 \<le> 50 \<or> 54 \<le> 42 + 4 * j" if "j \<noteq> 2"
    using that by arith
  ultimately show ?thesis
    using assms by (auto simp: kv_out_def dpdk_refresh_in payload_word_def mem_simps)
qed

interpretation dpdk_kv: lcore_job "dpdk_kv_work add_key_data lookup_data cksum" "\<lambda>a. length a = 1" "\<lambda>_. True"
  "\<lambda>d a. kv_out lookup_data cksum d (hd a)" "\<lambda>d a. [kv_table add_key_data d (hd a)]" for add_key_data lookup_data cksum
proof (unfold_locales, goal_cases)
  case (1 d a)
  then show "dpdk_kv_work add_key_data lookup_data cksum d a =
      Some (Inr (kv_out lookup_data cksum d (hd a), [kv_table add_key_data d (hd a)]))"
    using dpdk_kv_work_single [of d add_key_data lookup_data cksum "hd a"] by (cases a) auto
qed simp_all

section \<open>The store as a map\<close>

text \<open>The values last written, starting from those in the table.\<close>

definition kv_write :: "bytes \<Rightarrow> (u32 \<Rightarrow> u32 option) \<Rightarrow> u32 \<Rightarrow> u32 option" where
  "kv_write d w = (if kv_flag d \<noteq> 0 then w(kv_key d \<mapsto> kv_val d) else w)"

definition kv_written :: "bytes list \<Rightarrow> (u32 \<Rightarrow> u32 option) \<Rightarrow> u32 \<Rightarrow> u32 option" where
  "kv_written ds w = fold kv_write ds w"

lemma kv_written_simps [simp]:
  "kv_written [] w = w" "kv_written (d # ds) w = kv_written ds (kv_write d w)"
  by (simp_all add: kv_written_def)

definition kv_values :: "('h \<Rightarrow> u32 \<Rightarrow> u64 option) \<Rightarrow> 'h \<Rightarrow> u32 \<Rightarrow> u32 option" where
  "kv_values lookup_data h k = map_option ucast (lookup_data h k)"

text \<open>What an answer may be: a read returns the value last written, or misses if its key was not there at the start.\<close>

definition kv_answer_ok :: "(u32 \<Rightarrow> u32 option) \<Rightarrow> (u32 \<Rightarrow> u32 option) \<Rightarrow> bytes \<Rightarrow> bytes \<Rightarrow> bool" where
  "kv_answer_ok w0 w d r \<longleftrightarrow>
     (\<forall>j<256. (j = 2 \<and> kv_flag d = 0) \<or> payload_word r j = payload_word d j) \<and>
     (kv_flag d \<noteq> 0 \<or> w (kv_key d) = Some (payload_word r 2) \<or> w0 (kv_key d) = None \<and> payload_word r 2 = 0)"

text \<open>The table never holds anything but the value last written, and keeps the keys it had.\<close>

definition kv_inv :: "(u32 \<Rightarrow> u32 option) \<Rightarrow> (u32 \<Rightarrow> u32 option) \<Rightarrow> (u32 \<Rightarrow> u32 option) \<Rightarrow> bool" where
  "kv_inv w0 w t \<longleftrightarrow> (\<forall>k. (\<forall>v. t k = Some v \<longrightarrow> w k = Some v) \<and> (t k = None \<longrightarrow> w0 k = None))"

context rte_hash_data
begin

lemma kv_inv_table:
  assumes "kv_inv w0 w (kv_values lookup_data h)"
  shows "kv_inv w0 (kv_write d w) (kv_values lookup_data (kv_table add_key_data d h))"
proof (cases "kv_flag d = 0")
  case True
  then show ?thesis
    using assms by (simp add: kv_write_def kv_table_def)
next
  case False
  let ?h = "add_key_data h (kv_key d) (scast (kv_val d))"
  have "lookup_data ?h = (lookup_data h)(kv_key d \<mapsto> scast (kv_val d)) \<or>
      lookup_data ?h = lookup_data h \<and> lookup_data h (kv_key d) = None"
    using add_known [of h "kv_key d"] add_new [of h "kv_key d"] by (cases "lookup_data h (kv_key d)") auto
  then have "kv_values lookup_data ?h = (kv_values lookup_data h)(kv_key d \<mapsto> kv_val d) \<or>
      kv_values lookup_data ?h = kv_values lookup_data h \<and> kv_values lookup_data h (kv_key d) = None"
    by (auto simp: kv_values_def fun_eq_iff)
  then show ?thesis
    using assms False by (auto simp: kv_inv_def kv_write_def kv_table_def)
qed

lemma kv_out_ok:
  assumes "kv_inv w0 w (kv_values lookup_data h)" "1066 \<le> length d"
  shows "kv_answer_ok w0 w d (kv_out lookup_data cksum d h)"
proof -
  have "w (kv_key d) = Some (kv_content lookup_data h (kv_key d)) \<or>
      w0 (kv_key d) = None \<and> kv_content lookup_data h (kv_key d) = 0"
    using assms(1) by (cases "lookup_data h (kv_key d)") (auto simp: kv_inv_def kv_values_def kv_content_def)
  then show ?thesis
    using kv_out_words [OF assms(2), of _ lookup_data cksum h] by (auto simp: kv_answer_ok_def)
qed

lemma kv_answers:
  assumes "kv_inv w0 w (kv_values lookup_data h)" "\<forall>m \<in> set ms. 1066 \<le> length (room m)"
  shows "\<exists>rs h' nb'. fold (burst_answer (\<lambda>d a. kv_out lookup_data cksum d (hd a)) (\<lambda>d a. [kv_table add_key_data d (hd a)]))
      ms (bufs, [h], nb) = (bufs @ rs, [h'], nb') \<and> length rs = length ms \<and>
    (\<forall>i<length ms. if dpdk_frame (room (ms ! i))
       then kv_answer_ok w0 (kv_written (filter dpdk_frame (map room (take i ms))) w) (room (ms ! i)) (room (rs ! i))
       else rs ! i = ms ! i)"
  using assms
proof (induction ms arbitrary: bufs h nb w)
  case Nil
  then show ?case by simp
next
  case (Cons m ms)
  let ?h = "if dpdk_frame (room m) then kv_table add_key_data (room m) h else h"
  let ?w = "if dpdk_frame (room m) then kv_write (room m) w else w"
  let ?r = "if dpdk_frame (room m) then m\<lparr>room := kv_out lookup_data cksum (room m) h\<rparr> else m"
  let ?n = "if dpdk_frame (room m) then nb + 1 else nb"
  have "kv_inv w0 ?w (kv_values lookup_data ?h)"
    using kv_inv_table [OF Cons.prems(1)] Cons.prems(1) by simp
  then obtain rs h' nb' where rs: "fold (burst_answer (\<lambda>d a. kv_out lookup_data cksum d (hd a))
        (\<lambda>d a. [kv_table add_key_data d (hd a)])) ms (bufs @ [?r], [?h], ?n) = ((bufs @ [?r]) @ rs, [h'], nb')"
      "length rs = length ms"
      "\<forall>i<length ms. if dpdk_frame (room (ms ! i))
        then kv_answer_ok w0 (kv_written (filter dpdk_frame (map room (take i ms))) ?w) (room (ms ! i)) (room (rs ! i))
        else rs ! i = ms ! i"
    using Cons.IH [of ?w ?h "bufs @ [?r]" ?n] Cons.prems(2) by auto
  have "\<forall>i<length (m # ms). if dpdk_frame (room ((m # ms) ! i))
      then kv_answer_ok w0 (kv_written (filter dpdk_frame (map room (take i (m # ms)))) w) (room ((m # ms) ! i)) (room ((?r # rs) ! i))
      else (?r # rs) ! i = (m # ms) ! i"
  proof (intro allI impI)
    fix i
    assume "i < length (m # ms)"
    then show "if dpdk_frame (room ((m # ms) ! i))
      then kv_answer_ok w0 (kv_written (filter dpdk_frame (map room (take i (m # ms)))) w) (room ((m # ms) ! i)) (room ((?r # rs) ! i))
      else (?r # rs) ! i = (m # ms) ! i"
      using rs(3) kv_out_ok [OF Cons.prems(1), of "room m" cksum] Cons.prems(2)
      by (cases "dpdk_frame (room m)"; cases i) auto
  qed
  moreover have "fold (burst_answer (\<lambda>d a. kv_out lookup_data cksum d (hd a)) (\<lambda>d a. [kv_table add_key_data d (hd a)]))
      (m # ms) (bufs, [h], nb) = (bufs @ ?r # rs, [h'], nb')"
    using rs(1) by (simp add: burst_answer_def split: if_splits)
  ultimately show ?case
    using rs(2) by (intro exI [of _ "?r # rs"] exI [of _ h'] exI [of _ nb']) simp
qed

end

section \<open>A reference table\<close>

definition assoc_add :: "nat \<Rightarrow> (u32 \<times> u64) list \<Rightarrow> u32 \<Rightarrow> u64 \<Rightarrow> (u32 \<times> u64) list" where
  "assoc_add n h k v = (if map_of h k \<noteq> None \<or> length h < n then AList.update k v h else h)"

interpretation assoc: rte_hash_data "assoc_add n" map_of for n
  by unfold_locales (auto simp: assoc_add_def update_conv')

section \<open>Properties\<close>

text \<open>
  C34: a poll of the DPDK ping-pong turns every frame of the burst around in place, then offers the driver the first
  \<open>n\<close> buffers, where \<open>n\<close> is the number of frames, and frees what was not taken: exactly the turned frames are offered
  only if they come first in the burst.
\<close>

theorem dpdk_pingpong_poll:
  assumes "good_burst env" "rx env \<noteq> []"
  shows "\<exists>st' k l. forward_poll True dpdk_pingpong_work scale env st = Some (Inr st') \<and>
    (let bufs = map (\<lambda>m. if dpdk_frame (room m) then m\<lparr>room := swapped (room m)\<rparr> else m) (rx env) in
     events st' = events st @ replicate k (Log l) @
       Tx_burst (take (length (filter (dpdk_frame \<circ> room) (rx env))) bufs) (taken env) #
       map (\<lambda>m. Pktmbuf_free (mid m)) (drop (taken env) bufs))"
proof -
  have "length (frames env) = length (filter (dpdk_frame \<circ> room) (rx env))"
    by (simp add: frames_def filter_map)
  moreover have "accepts (\<lambda>_. True) env" "file_ok env"
    using assms(1) by (simp_all add: good_burst_def accepts_def)
  ultimately show ?thesis
    using dpdk_ping.forward_poll_ok [of env True scale st] assms(2) unfolding answered_stateless by fastforce
qed

text \<open>A burst of a packet that is not a frame and a frame: the frame is answered but freed, the other is offered.\<close>

theorem dpdk_pingpong_poll_witness:
  "\<exists>st' k l. forward_poll True dpdk_pingpong_work id
      \<lparr>rx = [\<lparr>mid = 1, room = replicate 1066 0\<rparr>, \<lparr>mid = 2, room = dpdk_frame_of (replicate 256 7)\<rparr>],
       rx_time = 5, now = 9, file_ok = True, taken = 1\<rparr>
      \<lparr>app = (), pkt_rec = 0, per_lcore_cycles = 0, events = []\<rparr> = Some (Inr st') \<and>
    events st' = replicate k (Log l) @ [Tx_burst [\<lparr>mid = 1, room = replicate 1066 0\<rparr>] 1, Pktmbuf_free 2]"
proof -
  let ?env = "\<lparr>rx = [\<lparr>mid = 1, room = replicate 1066 0\<rparr>, \<lparr>mid = 2, room = dpdk_frame_of (replicate 256 7)\<rparr>],
       rx_time = 5, now = 9, file_ok = True, taken = 1\<rparr>"
  have "get_bytes (replicate 1066 (0::u8)) 12 2 = replicate 2 0"
    by (simp add: get_bytes_def)
  moreover have "word_of_le (replicate 2 0) = (0::u16)"
    by code_simp
  ultimately have "\<not> dpdk_frame (replicate 1066 0)"
    by (simp add: dpdk_frame_def)
  moreover have "dpdk_frame (dpdk_frame_of (replicate 256 7))" "length (dpdk_frame_of (replicate 256 7)) = 1066"
    by (simp_all add: dpdk_frame_of_facts)
  ultimately show ?thesis
    using dpdk_pingpong_poll [of ?env id "\<lparr>app = (), pkt_rec = 0, per_lcore_cycles = 0, events = []\<rparr>"]
    by (auto simp: good_burst_def in_bounds_def Let_def)
qed

text \<open>
  C3: the DPDK \<open>kvstore\<close> refines a map: on any burst of in-bounds packets, from any table, every read is answered with
  the value last written under its key (in the table at the start or earlier in the burst), or with 0 if its key was
  not in the table at the start; all other payload words, and packets that are not frames, are left as they are.
\<close>

theorem dpdk_kv_sound:
  assumes "rte_hash_data add_key_data lookup_data" "\<forall>m \<in> set ms. 1066 \<le> length (room m)"
  shows "\<exists>rs h' nb. burst_loop (dpdk_kv_work add_key_data lookup_data cksum) ms [h] = Some (Inr (rs, [h'], nb)) \<and>
    length rs = length ms \<and>
    (\<forall>i<length ms. if dpdk_frame (room (ms ! i))
       then kv_answer_ok (kv_values lookup_data h)
         (kv_written (filter dpdk_frame (map room (take i ms))) (kv_values lookup_data h)) (room (ms ! i)) (room (rs ! i))
       else rs ! i = ms ! i)"
proof -
  have "kv_inv (kv_values lookup_data h) (kv_values lookup_data h) (kv_values lookup_data h)"
    by (simp add: kv_inv_def)
  then show ?thesis
    using rte_hash_data.kv_answers [OF assms(1) _ assms(2), where cksum = cksum and bufs = "[]" and nb = 0] assms(2)
      dpdk_kv.burst_loop_ok [of ms "[h]" add_key_data lookup_data cksum]
    by fastforce
qed

theorem dpdk_kv_sound_witness:
  "\<exists>rs h' nb. burst_loop (dpdk_kv_work (assoc_add 504) map_of (\<lambda>_. 0))
      [\<lparr>mid = 1, room = dpdk_frame_of (1 # 5 # 77 # replicate 253 0)\<rparr>, \<lparr>mid = 2, room = dpdk_frame_of (0 # 5 # 0 # replicate 253 0)\<rparr>]
      [[(5, 3)]] = Some (Inr (rs, [h'], nb)) \<and> payload_word (room (rs ! 1)) 2 = 77"
proof -
  let ?w = "dpdk_frame_of (1 # 5 # 77 # replicate 253 0)" and ?r = "dpdk_frame_of (0 # 5 # 0 # replicate 253 0)"
  let ?ms = "[\<lparr>mid = 1, room = ?w\<rparr>, \<lparr>mid = 2, room = ?r\<rparr>]"
  have frames: "dpdk_frame ?w" "dpdk_frame ?r" "length ?w = 1066" "length ?r = 1066"
    by (simp_all add: dpdk_frame_of_facts)
  have words: "kv_flag ?w = 1" "kv_key ?w = 5" "kv_val ?w = 77" "kv_flag ?r = 0" "kv_key ?r = 5"
    by (simp_all add: kv_flag_def kv_key_def kv_val_def dpdk_frame_of_facts)
  obtain rs h' nb where rs: "burst_loop (dpdk_kv_work (assoc_add 504) map_of (\<lambda>_. 0)) ?ms [[(5, 3)]] = Some (Inr (rs, [h'], nb))"
      "\<forall>i<length ?ms. if dpdk_frame (room (?ms ! i))
       then kv_answer_ok (kv_values map_of [(5, 3)])
         (kv_written (filter dpdk_frame (map room (take i ?ms))) (kv_values map_of [(5, 3)])) (room (?ms ! i)) (room (rs ! i))
       else rs ! i = ?ms ! i"
    using dpdk_kv_sound [OF assoc.rte_hash_data_axioms, of ?ms 504 "\<lambda>_. 0" "[(5, 3)]"] frames by auto
  have "payload_word (room (rs ! 1)) 2 = 77"
    using spec [OF rs(2), of 1] frames words by (auto simp: kv_answer_ok_def kv_write_def kv_values_def)
  with rs(1) show ?thesis by blast
qed

end
