(* ===== verification/Dpdk_Zuc.thy ===== *)
theory Dpdk_Zuc
  imports Dpdk_Forward Zuc_Props
begin

text \<open>
  \<open>src/dpdk/zuc/zuc.c\<close>: encrypts the payload of every frame with the key at its start and sends it back.  The shared
  state is the registers of the cipher.  \<open>blk d st\<close> is what the block that \<open>rte_malloc\<close> returns for \<open>C\<close> holds, in
  words, up to its end; \<open>rte_malloc\<close> may return a longer block than asked for and does not clear it.
\<close>

section \<open>The program\<close>

definition le_words :: "bytes \<Rightarrow> u32 list" where
  "le_words bs = map (\<lambda>i. word_of_le (get_bytes bs (4 * i) 4)) [0..<length bs div 4]"

text \<open>
  \<open>memcpy(payload + 1, C + 1, LENGTH)\<close> reads from the second word of \<open>C\<close>: one word past the \<open>LENGTH\<close> bytes that were
  allocated.
\<close>

definition dpdk_zuc_cipher :: "(nat \<Rightarrow> zuc \<Rightarrow> u32) \<Rightarrow> (bytes \<Rightarrow> zuc \<Rightarrow> u32 list) \<Rightarrow> bytes \<Rightarrow> zuc \<Rightarrow> (bytes \<times> zuc) option" where
  "dpdk_zuc_cipher junk blk d st = do {
     let IV = drop pay_off d;
     let LEN = (of_nat TOT_SIZE_B - 4 :: u32);
     M \<leftarrow> rd_bytes d (pay_off + 4) (unat LEN);
     (C, st') \<leftarrow> EEA3 junk IV LEN (le_words M) (blk d st) st;
     bs \<leftarrow> rd_bytes (concat (map (le_of_word 4) C)) 4 (unat LEN);
     d \<leftarrow> wr_bytes d (pay_off + 4) bs;
     Some (d, st')
   }"

definition dpdk_zuc_work :: "(nat \<Rightarrow> zuc \<Rightarrow> u32) \<Rightarrow> (bytes \<Rightarrow> zuc \<Rightarrow> u32 list) \<Rightarrow> (bytes \<Rightarrow> u16) \<Rightarrow> zuc packet_work" where
  "dpdk_zuc_work junk blk cksum d st = do {
     (d, st) \<leftarrow> dpdk_zuc_cipher junk blk d st;
     d \<leftarrow> dpdk_swap d;
     d \<leftarrow> dpdk_refresh cksum d;
     Some (Inr (d, st))
   }"

definition dpdk_zuc :: "(nat \<Rightarrow> zuc \<Rightarrow> u32) \<Rightarrow> (bytes \<Rightarrow> zuc \<Rightarrow> u32 list) \<Rightarrow> (bytes \<Rightarrow> u16) \<Rightarrow> zuc lcore" where
  "dpdk_zuc junk blk cksum scale = lcore_loop (forward_poll True (dpdk_zuc_work junk blk cksum) scale)"

section \<open>The cipher text\<close>

lemma length_le_words [simp]: "length (le_words bs) = length bs div 4"
  by (simp add: le_words_def)

lemma nth_le_words: "i < length bs div 4 \<Longrightarrow> le_words bs ! i = le32 bs (4 * i)"
  by (simp add: le_words_def)

lemma zuc_message:
  assumes "1066 \<le> length d" "i < 255"
  shows "le_words (get_bytes d 46 1020) ! i = payload_word d (Suc i)"
proof -
  have "le_words (get_bytes d 46 1020) ! i = le32 d (46 + 4 * i)"
    using assms by (simp add: nth_le_words mem_simps get_bytes_get_bytes)
  then show ?thesis
    by (simp add: payload_word_def add.commute add.left_commute)
qed

lemma EEA3_blocks:
  assumes "16 \<le> length CK" "eea3_words len \<le> length M" "eea3_words len \<le> length C"
  shows "\<exists>z st'. ZUC junk CK eea3_iv (eea3_words len) st = Some (z, st') \<and> length z = eea3_words len \<and>
    EEA3 junk CK len M C st = Some (map (\<lambda>i. M ! i XOR z ! i) [0..<eea3_words len] @ drop (eea3_words len) C, st')"
proof -
  obtain st1 where z: "ZUC junk CK eea3_iv (eea3_words len) st = Some (GenerateKeystream (eea3_words len) st1)"
    using ZUC_eq [OF assms(1), of eea3_iv junk "eea3_words len"] by auto
  obtain zs st2 where g: "GenerateKeystream (eea3_words len) st1 = (zs, st2)"
    by (cases "GenerateKeystream (eea3_words len) st1")
  have "length zs = eea3_words len"
    using length_keystream [of "eea3_words len" st1] by (simp add: g)
  then show ?thesis
    using z g assms(2,3) by (simp add: EEA3_def Let_def xor_loop)
qed

lemma zuc_words: "eea3_words 1020 = 32"
  by (simp add: eea3_words_def)

lemma dpdk_zuc_cipher_eq:
  assumes "1066 \<le> length d" "32 \<le> length (blk d st)"
  shows "\<exists>z st'. ZUC junk (drop 42 d) eea3_iv 32 st = Some (z, st') \<and> length z = 32 \<and>
    dpdk_zuc_cipher junk blk d st =
      (if length (blk d st) < 256 then None
       else Some (put_bytes d 46 (get_bytes (concat (map (le_of_word 4)
         (map (\<lambda>i. payload_word d (Suc i) XOR z ! i) [0..<32] @ drop 32 (blk d st)))) 4 1020), st'))"
proof -
  let ?M = "le_words (get_bytes d 46 1020)"
  have M: "length ?M = 255"
    using assms(1) by (simp add: mem_simps)
  have key: "16 \<le> length (drop 42 d)"
    using assms(1) by simp
  obtain z st' where z: "ZUC junk (drop 42 d) eea3_iv 32 st = Some (z, st')" "length z = 32"
      "EEA3 junk (drop 42 d) 1020 ?M (blk d st) st =
        Some (map (\<lambda>i. ?M ! i XOR z ! i) [0..<32] @ drop 32 (blk d st), st')"
    using EEA3_blocks [OF key, of 1020 ?M "blk d st" junk st] assms(2) M unfolding zuc_words by auto
  have xs: "map (\<lambda>i. ?M ! i XOR z ! i) [0..<32] = map (\<lambda>i. payload_word d (Suc i) XOR z ! i) [0..<32]"
    using assms(1) by (simp add: zuc_message)
  have len: "length (concat (map (le_of_word 4) (map (\<lambda>i. payload_word d (Suc i) XOR z ! i) [0..<32] @ drop 32 (blk d st)))) =
      4 * length (blk d st)"
    using assms(2) by (simp only: length_concat_words) simp
  have LEN: "(of_nat TOT_SIZE_B - 4 :: u32) = 1020"
    by (simp add: const_defs)
  have "dpdk_zuc_cipher junk blk d st = do {
      bs \<leftarrow> rd_bytes (concat (map (le_of_word 4) (map (\<lambda>i. payload_word d (Suc i) XOR z ! i) [0..<32] @ drop 32 (blk d st)))) 4 1020;
      d \<leftarrow> wr_bytes d 46 bs;
      Some (d, st') }"
    using assms(1) z(3) unfolding dpdk_zuc_cipher_def LEN xs by (simp add: rd_bytes_in Let_def)
  then show ?thesis
    using z(1,2) len assms(1) by (intro exI [of _ z] exI [of _ st']) (simp add: rd_bytes_def wr_bytes_def mem_simps del: map_append)
qed

lemma get_put_far:
  assumes "off + length bs \<le> length p" "o' + n \<le> off \<or> off + length bs \<le> o'"
  shows "get_bytes (put_bytes p off bs) o' n = get_bytes p o' n"
  using assms by (auto simp: get_bytes_def put_bytes_def min_def drop_take add.commute)

lemma dpdk_zuc_cipher_words:
  assumes "1066 \<le> length d" "256 \<le> length C"
  shows "payload_word (put_bytes d 46 (get_bytes (concat (map (le_of_word 4) C)) 4 1020)) j =
    (if 1 \<le> j \<and> j < 256 then C ! j else payload_word d j)"
proof -
  have len: "length (get_bytes (concat (map (le_of_word 4) C)) 4 1020) = 1020"
    using assms(2) by (simp add: mem_simps)
  show ?thesis
  proof (cases "1 \<le> j \<and> j < 256")
    case True
    then have j: "42 + 4 * j = 46 + 4 * (j - 1)" "4 + 4 * (j - 1) = 4 * j" "4 * (j - 1) + 4 \<le> 1020"
      by arith+
    have "get_bytes (put_bytes d 46 (get_bytes (concat (map (le_of_word 4) C)) 4 1020)) (46 + 4 * (j - 1)) 4 =
        get_bytes (get_bytes (put_bytes d 46 (get_bytes (concat (map (le_of_word 4) C)) 4 1020)) 46 1020) (4 * (j - 1)) 4"
      using j(3) by (simp add: get_bytes_get_bytes)
    also have "\<dots> = get_bytes (concat (map (le_of_word 4) C)) (4 * j) 4"
      using assms(1) len j by (simp add: get_put_same get_bytes_get_bytes)
    also have "\<dots> = le_of_word 4 (C ! j)"
      using True assms(2) by (simp add: get_bytes_concat_words)
    finally show ?thesis
      using True j(1) by (simp add: payload_word_def word_of_le_le_of_word)
  next
    case False
    then have "42 + 4 * j + 4 \<le> 46 \<or> 1066 \<le> 42 + 4 * j"
      by arith
    then have "get_bytes (put_bytes d 46 (get_bytes (concat (map (le_of_word 4) C)) 4 1020)) (42 + 4 * j) 4 =
        get_bytes d (42 + 4 * j) 4"
      using assms(1) len by (intro get_put_far) auto
    then show ?thesis
      using False by (auto simp: payload_word_def)
  qed
qed

lemma reply_words:
  "1066 \<le> length q \<Longrightarrow> j < 256 \<Longrightarrow> payload_word (put16 (put16 (swapped q) 40 0) 40 c) j = payload_word q j"
  by (simp add: payload_word_def mem_simps)

section \<open>Properties\<close>

text \<open>
  C24: what the requester gets back: unless \<open>rte_malloc\<close> returned more room than the \<open>LENGTH\<close> bytes asked for, the
  last copy reads past the block (undefined); with more room, the reply has the first word as it was, the 31 words
  after it are the message words one further on, encrypted, and the last 224 words are whatever the block
  held before: the message words 32 to 255 are not encrypted but lost, and memory of the process is sent out.
\<close>

theorem dpdk_zuc_reply:
  assumes "1066 \<le> length d" "32 \<le> length (blk d st)"
  shows "if length (blk d st) < 256 then dpdk_zuc_work junk blk cksum d st = None
    else \<exists>z st' r. ZUC junk (drop 42 d) eea3_iv 32 st = Some (z, st') \<and> length z = 32 \<and>
      dpdk_zuc_work junk blk cksum d st = Some (Inr (r, st')) \<and>
      (\<forall>j<256. payload_word r j = (if j = 0 then payload_word d 0
         else if j < 32 then payload_word d (Suc j) XOR z ! j else blk d st ! j))"
proof -
  obtain z st' where z: "ZUC junk (drop 42 d) eea3_iv 32 st = Some (z, st')" "length z = 32"
    and c: "dpdk_zuc_cipher junk blk d st = (if length (blk d st) < 256 then None
       else Some (put_bytes d 46 (get_bytes (concat (map (le_of_word 4)
         (map (\<lambda>i. payload_word d (Suc i) XOR z ! i) [0..<32] @ drop 32 (blk d st)))) 4 1020), st'))"
    using dpdk_zuc_cipher_eq [of d blk st junk, OF assms] by blast
  show ?thesis
  proof (cases "length (blk d st) < 256")
    case True
    then show ?thesis
      using c by (simp add: dpdk_zuc_work_def)
  next
    case False
    let ?C = "map (\<lambda>i. payload_word d (Suc i) XOR z ! i) [0..<32] @ drop 32 (blk d st)"
    let ?d = "put_bytes d 46 (get_bytes (concat (map (le_of_word 4) ?C)) 4 1020)"
    have C: "256 \<le> length ?C" "\<And>j. j < 256 \<Longrightarrow> ?C ! j = (if j < 32 then payload_word d (Suc j) XOR z ! j else blk d st ! j)"
      using False by (auto simp: nth_append)
    have len: "length ?d = length d"
      using assms(1) C(1) by (simp only: length_put_bytes length_get_bytes length_concat_words) 
    obtain r where r: "dpdk_refresh cksum (swapped ?d) = Some r" "r = put16 (put16 (swapped ?d) 40 0) 40 (cksum (drop 14 (put16 (swapped ?d) 40 0)))"
      using dpdk_refresh_in [of "swapped ?d" cksum] assms(1) len by simp
    have "dpdk_zuc_work junk blk cksum d st = Some (Inr (r, st'))"
      using c False assms(1) len r(1) by (simp add: dpdk_zuc_work_def dpdk_swap_in del: map_append)
    moreover have "payload_word r j = payload_word ?d j" if "j < 256" for j
      unfolding r(2) using that assms(1) len by (intro reply_words) simp_all
    ultimately show ?thesis
      using z False C dpdk_zuc_cipher_words [OF assms(1) C(1)] by auto
  qed
qed

theorem dpdk_zuc_reply_witness:
  "dpdk_zuc_work (\<lambda>_. LFSR_S0) (\<lambda>_ _. replicate 255 9) (\<lambda>_. 0) (dpdk_frame_of (replicate 256 5)) some_registers = None \<and>
   (\<exists>r st'. dpdk_zuc_work (\<lambda>_. LFSR_S0) (\<lambda>_ _. replicate 256 9) (\<lambda>_. 0) (dpdk_frame_of (replicate 256 5)) some_registers =
      Some (Inr (r, st')) \<and> payload_word r 255 = 9)"
  using dpdk_zuc_reply [of "dpdk_frame_of (replicate 256 5)" "\<lambda>_ _. replicate 255 9" some_registers "\<lambda>_. LFSR_S0" "\<lambda>_. 0"]
    dpdk_zuc_reply [of "dpdk_frame_of (replicate 256 5)" "\<lambda>_ _. replicate 256 9" some_registers "\<lambda>_. LFSR_S0" "\<lambda>_. 0"]
  by (auto simp: dpdk_frame_of_facts)

end
