(* ===== verification/Dpdk_Port.thy ===== *)
theory Dpdk_Port
  imports Dpdk_Env
begin

text \<open>
  \<open>port_init\<close> of the programs of \<open>src/dpdk\<close>.  Every program has a copy of it; the copies differ in the callbacks that
  are added at the end (none in the untimed programs, one on receive in the timed batch programs, one on receive and
  one on transmit in the timed forwarding programs) and in that \<open>zuc.c\<close> turns promiscuous mode off.

  The driver is not code of the repository: it is a parameter, and what a call to it returns may depend on the calls
  before.  The calls made so far are part of the state.
\<close>

unbundle bit_operations_syntax

section \<open>The driver\<close>

record eth_conf =
  rx_mq_mode :: u32
  split_hdr_size :: u16
  rx_offloads :: u64
  rss_key :: "bytes option"
  rss_hf :: u64
  tx_mq_mode :: u32
  tx_offloads :: u64

text \<open>\<open>other_txconf\<close> stands for the fields of \<open>struct rte_eth_txconf\<close> that the programs copy and never look at.\<close>

record eth_txconf =
  other_txconf :: bytes
  txconf_offloads :: u64

record dev_info =
  tx_offload_capa :: u64
  flow_type_rss_offloads :: u64
  max_rx_queues :: u16
  default_txconf :: eth_txconf

datatype eth_call =
    Is_valid_port u16
  | Dev_info_get u16
  | Dev_configure u16 u16 u16 eth_conf
  | Adjust_nb_desc u16 u16 u16
  | Rx_queue_setup u16 u16 u16
  | Tx_queue_setup u16 u16 u16 eth_txconf
  | Dev_start u16
  | Macaddr_get u16
  | Promiscuous_enable u16
  | Promiscuous_disable u16
  | Add_rx_callback u16 u16
  | Add_tx_callback u16 u16

text \<open>
  \<open>reply h c\<close>: what the call \<open>c\<close> returns after the calls \<open>h\<close>; \<open>info\<close> and \<open>adjusted\<close>: what \<open>rte_eth_dev_info_get\<close> and
  \<open>rte_eth_dev_adjust_nb_rx_tx_desc\<close> store.  The fields after them are the flags of \<open>rte_ethdev.h\<close>.
\<close>

record eth_driver =
  reply :: "eth_call list \<Rightarrow> eth_call \<Rightarrow> int"
  info :: "u16 \<Rightarrow> dev_info"
  adjusted :: "u16 \<Rightarrow> u16 \<times> u16 \<Rightarrow> u16 \<times> u16"
  MQ_RX_RSS :: u32
  MQ_RX_NONE :: u32
  MQ_TX_NONE :: u32
  RX_OFFLOAD_CHECKSUM :: u64
  RSS_IP :: u64
  TX_OFFLOAD_MBUF_FAST_FREE :: u64

text \<open>The globals of a program that its start-up code uses, the calls made, and the arguments of the RSS message.\<close>

record proc =
  port_conf :: eth_conf
  core_que_nr :: u16
  force_quit :: bool
  calls :: "eth_call list"
  rss_msgs :: "(u64 \<times> u64) list"

section \<open>Configuration\<close>

text \<open>The initial \<open>port_conf\<close> of \<open>helpers.h\<close>, and the one after \<open>memset\<close>.\<close>

definition port_conf_init :: "eth_driver \<Rightarrow> eth_conf" where
  "port_conf_init drv = \<lparr>rx_mq_mode = MQ_RX_RSS drv, split_hdr_size = 0, rx_offloads = RX_OFFLOAD_CHECKSUM drv,
     rss_key = None, rss_hf = RSS_IP drv, tx_mq_mode = MQ_TX_NONE drv, tx_offloads = 0\<rparr>"

definition zero_conf :: eth_conf where
  "zero_conf = \<lparr>rx_mq_mode = 0, split_hdr_size = 0, rx_offloads = 0, rss_key = None, rss_hf = 0, tx_mq_mode = 0,
     tx_offloads = 0\<rparr>"

definition RING_SIZE :: u16 where
  "RING_SIZE = 1024"

text \<open>What \<open>port_init\<close> makes of its local copy of \<open>port_conf\<close>.\<close>

definition local_conf :: "eth_driver \<Rightarrow> dev_info \<Rightarrow> eth_conf \<Rightarrow> eth_conf" where
  "local_conf drv dev conf = (
     let conf = (if tx_offload_capa dev AND TX_OFFLOAD_MBUF_FAST_FREE drv \<noteq> 0
           then conf\<lparr>tx_offloads := tx_offloads conf OR TX_OFFLOAD_MBUF_FAST_FREE drv\<rparr> else conf);
         conf = conf\<lparr>rss_hf := rss_hf conf AND flow_type_rss_offloads dev\<rparr>
     in if max_rx_queues dev = 1 then conf\<lparr>rx_mq_mode := MQ_RX_NONE drv\<rparr> else conf)"

section \<open>Calls\<close>

text \<open>
  A call, and the return if its result is bad; \<open>eth_all\<close> is a loop of such calls.
\<close>

definition eth :: "eth_driver \<Rightarrow> (int \<Rightarrow> bool) \<Rightarrow> eth_call \<Rightarrow> (proc \<Rightarrow> int \<times> proc) \<Rightarrow> proc \<Rightarrow> int \<times> proc" where
  "eth drv bad c k s = (
     let retval = reply drv (calls s) c;
         s = s\<lparr>calls := calls s @ [c]\<rparr>
     in if bad retval then (retval, s) else k s)"

primrec eth_all :: "eth_driver \<Rightarrow> (int \<Rightarrow> bool) \<Rightarrow> eth_call list \<Rightarrow> (proc \<Rightarrow> int \<times> proc) \<Rightarrow> proc \<Rightarrow> int \<times> proc" where
  "eth_all drv bad [] k s = k s"
| "eth_all drv bad (c # cs) k s = eth drv bad c (eth_all drv bad cs k) s"

text \<open>The queues, or the \<open>i\<close> of \<open>for(int i = 0; i < core_que_nr; i++)\<close>.\<close>

definition queues :: "u16 \<Rightarrow> u16 list" where
  "queues n = map of_nat [0..<unat n]"

section \<open>The function\<close>

definition port_init :: "(u16 \<Rightarrow> eth_call) \<Rightarrow> (u16 \<Rightarrow> u16 \<Rightarrow> eth_call) list \<Rightarrow> eth_driver \<Rightarrow> u16 \<Rightarrow> proc \<Rightarrow> int \<times> proc" where
  "port_init promiscuous callbacks drv port s = (
     let local_port_conf = port_conf s;
         rx_rings = core_que_nr s;
         tx_rings = core_que_nr s;
         valid = reply drv (calls s) (Is_valid_port port);
         s = s\<lparr>calls := calls s @ [Is_valid_port port]\<rparr>
     in if valid = 0 then (- 1, s)
     else let s = s\<lparr>port_conf := zero_conf\<rparr> in
     eth drv (\<lambda>r. r \<noteq> 0) (Dev_info_get port) (\<lambda>s.
       let dev = info drv port;
           local_port_conf = local_conf drv dev local_port_conf;
           s = (if rss_hf local_port_conf \<noteq> rss_hf local_port_conf
             then s\<lparr>rss_msgs := rss_msgs s @ [(rss_hf (port_conf s), rss_hf local_port_conf)]\<rparr> else s)
       in eth drv (\<lambda>r. r \<noteq> 0) (Dev_configure port rx_rings tx_rings (port_conf s)) (
       eth drv (\<lambda>r. r \<noteq> 0) (Adjust_nb_desc port RING_SIZE RING_SIZE) (\<lambda>s.
       let (nb_rxd, nb_txd) = adjusted drv port (RING_SIZE, RING_SIZE)
       in eth_all drv (\<lambda>r. r < 0) (map (\<lambda>q. Rx_queue_setup port q nb_rxd) (queues rx_rings)) (\<lambda>s.
       let txconf = (default_txconf dev)\<lparr>txconf_offloads := tx_offloads (port_conf s)\<rparr>
       in eth_all drv (\<lambda>r. r < 0) (map (\<lambda>q. Tx_queue_setup port q nb_txd txconf) (queues tx_rings)) (
       eth drv (\<lambda>r. r < 0) (Dev_start port) (
       eth drv (\<lambda>r. r \<noteq> 0) (Macaddr_get port) (
       eth drv (\<lambda>r. r \<noteq> 0) (promiscuous port) (
       eth_all drv (\<lambda>_. False) (concat (map (\<lambda>i. map (\<lambda>cb. cb port i) callbacks) (queues (core_que_nr s))))
       (\<lambda>s. (0, s)))))) s) s)) s) s)"

text \<open>The copies of the programs.\<close>

definition aggregate_port_init :: "eth_driver \<Rightarrow> u16 \<Rightarrow> proc \<Rightarrow> int \<times> proc" where
  "aggregate_port_init = port_init Promiscuous_enable [Add_rx_callback]"

definition aggregate_no_t_port_init :: "eth_driver \<Rightarrow> u16 \<Rightarrow> proc \<Rightarrow> int \<times> proc" where
  "aggregate_no_t_port_init = port_init Promiscuous_enable []"

definition reduce_port_init :: "eth_driver \<Rightarrow> u16 \<Rightarrow> proc \<Rightarrow> int \<times> proc" where
  "reduce_port_init = port_init Promiscuous_enable [Add_rx_callback]"

definition reduce_no_t_port_init :: "eth_driver \<Rightarrow> u16 \<Rightarrow> proc \<Rightarrow> int \<times> proc" where
  "reduce_no_t_port_init = port_init Promiscuous_enable []"

definition histogram_port_init :: "eth_driver \<Rightarrow> u16 \<Rightarrow> proc \<Rightarrow> int \<times> proc" where
  "histogram_port_init = port_init Promiscuous_enable [Add_rx_callback]"

definition histogram_no_t_port_init :: "eth_driver \<Rightarrow> u16 \<Rightarrow> proc \<Rightarrow> int \<times> proc" where
  "histogram_no_t_port_init = port_init Promiscuous_enable []"

definition copy_to_host_port_init :: "eth_driver \<Rightarrow> u16 \<Rightarrow> proc \<Rightarrow> int \<times> proc" where
  "copy_to_host_port_init = port_init Promiscuous_enable [Add_rx_callback]"

definition copy_to_host_no_t_port_init :: "eth_driver \<Rightarrow> u16 \<Rightarrow> proc \<Rightarrow> int \<times> proc" where
  "copy_to_host_no_t_port_init = port_init Promiscuous_enable []"

definition copy_from_host_port_init :: "eth_driver \<Rightarrow> u16 \<Rightarrow> proc \<Rightarrow> int \<times> proc" where
  "copy_from_host_port_init = port_init Promiscuous_enable [Add_rx_callback]"

definition copy_from_host_no_t_port_init :: "eth_driver \<Rightarrow> u16 \<Rightarrow> proc \<Rightarrow> int \<times> proc" where
  "copy_from_host_no_t_port_init = port_init Promiscuous_enable []"

definition filter_port_init :: "eth_driver \<Rightarrow> u16 \<Rightarrow> proc \<Rightarrow> int \<times> proc" where
  "filter_port_init = port_init Promiscuous_enable [Add_rx_callback]"

definition filter_no_t_port_init :: "eth_driver \<Rightarrow> u16 \<Rightarrow> proc \<Rightarrow> int \<times> proc" where
  "filter_no_t_port_init = port_init Promiscuous_enable []"

definition kvstore_port_init :: "eth_driver \<Rightarrow> u16 \<Rightarrow> proc \<Rightarrow> int \<times> proc" where
  "kvstore_port_init = port_init Promiscuous_enable [Add_rx_callback, Add_tx_callback]"

definition kvstore_no_t_port_init :: "eth_driver \<Rightarrow> u16 \<Rightarrow> proc \<Rightarrow> int \<times> proc" where
  "kvstore_no_t_port_init = port_init Promiscuous_enable []"

definition pingpong_port_init :: "eth_driver \<Rightarrow> u16 \<Rightarrow> proc \<Rightarrow> int \<times> proc" where
  "pingpong_port_init = port_init Promiscuous_enable [Add_rx_callback, Add_tx_callback]"

definition pingpong_no_t_port_init :: "eth_driver \<Rightarrow> u16 \<Rightarrow> proc \<Rightarrow> int \<times> proc" where
  "pingpong_no_t_port_init = port_init Promiscuous_enable []"

definition zuc_port_init :: "eth_driver \<Rightarrow> u16 \<Rightarrow> proc \<Rightarrow> int \<times> proc" where
  "zuc_port_init = port_init Promiscuous_disable [Add_rx_callback, Add_tx_callback]"

definition clock_port_init :: "eth_driver \<Rightarrow> u16 \<Rightarrow> proc \<Rightarrow> int \<times> proc" where
  "clock_port_init = port_init Promiscuous_enable [Add_rx_callback]"

section \<open>The plan\<close>

text \<open>
  The reference: \<open>port_init\<close> makes a fixed sequence of calls and gives up at the first that is refused.
\<close>

definition port_plan :: "(u16 \<Rightarrow> eth_call) \<Rightarrow> (u16 \<Rightarrow> u16 \<Rightarrow> eth_call) list \<Rightarrow> eth_driver \<Rightarrow> u16 \<Rightarrow> u16 \<Rightarrow> eth_call list" where
  "port_plan promiscuous callbacks drv n port =
     [Is_valid_port port, Dev_info_get port, Dev_configure port n n zero_conf, Adjust_nb_desc port 1024 1024] @
     map (\<lambda>q. Rx_queue_setup port q (fst (adjusted drv port (1024, 1024)))) (queues n) @
     map (\<lambda>q. Tx_queue_setup port q (snd (adjusted drv port (1024, 1024)))
       ((default_txconf (info drv port))\<lparr>txconf_offloads := 0\<rparr>)) (queues n) @
     [Dev_start port, Macaddr_get port, promiscuous port] @
     concat (map (\<lambda>q. map (\<lambda>cb. cb port q) callbacks) (queues n))"

fun refused :: "eth_call \<Rightarrow> int \<Rightarrow> bool" where
  "refused (Is_valid_port p) r = (r = 0)"
| "refused (Rx_queue_setup p q n) r = (r < 0)"
| "refused (Tx_queue_setup p q n c) r = (r < 0)"
| "refused (Dev_start p) r = (r < 0)"
| "refused (Add_rx_callback p q) r = False"
| "refused (Add_tx_callback p q) r = False"
| "refused c r = (r \<noteq> 0)"

text \<open>The calls made, and the refused one with its result.\<close>

fun attempt :: "eth_driver \<Rightarrow> eth_call list \<Rightarrow> eth_call list \<Rightarrow> eth_call list \<times> (eth_call \<times> int) option" where
  "attempt drv h [] = ([], None)"
| "attempt drv h (c # cs) = (
     if refused c (reply drv h c) then ([c], Some (c, reply drv h c))
     else let (t, e) = attempt drv (h @ [c]) cs in (c # t, e))"


definition follow :: "eth_driver \<Rightarrow> eth_call list \<Rightarrow> (proc \<Rightarrow> int \<times> proc) \<Rightarrow> proc \<Rightarrow> int \<times> proc" where
  "follow drv cs k s = (case attempt drv (calls s) cs of
     (t, None) \<Rightarrow> k (s\<lparr>calls := calls s @ t\<rparr>)
   | (t, Some (c, r)) \<Rightarrow> (r, s\<lparr>calls := calls s @ t\<rparr>))"

lemma follow_Nil [simp]: "follow drv [] k s = k s"
  by (simp add: follow_def)

lemma follow_Cons:
  "follow drv (c # cs) k s = (let r = reply drv (calls s) c; s = s\<lparr>calls := calls s @ [c]\<rparr> in
     if refused c r then (r, s) else follow drv cs k s)"
  by (auto simp: follow_def Let_def split: prod.split option.split)

lemma follow_append: "follow drv (cs @ ds) k s = follow drv cs (follow drv ds k) s"
  by (induction cs arbitrary: s) (simp_all add: follow_Cons Let_def)

lemma follow_cong:
  "(\<And>t. k (s\<lparr>calls := t\<rparr>) = k' (s\<lparr>calls := t\<rparr>)) \<Longrightarrow> follow drv cs k s = follow drv cs k' s"
  by (simp add: follow_def split: prod.split option.split)

lemma eth_step:
  assumes "bad = refused c" "\<And>t. k (s\<lparr>calls := t\<rparr>) = follow drv ds k' (s\<lparr>calls := t\<rparr>)"
  shows "eth drv bad c k s = follow drv (c # ds) k' s"
  using assms by (simp add: eth_def follow_Cons Let_def)

lemma eth_all_step:
  assumes "\<And>c. c \<in> set cs \<Longrightarrow> bad = refused c" "\<And>t. k (s\<lparr>calls := t\<rparr>) = follow drv ds k' (s\<lparr>calls := t\<rparr>)"
  shows "eth_all drv bad cs k s = follow drv (cs @ ds) k' s"
  using assms
proof (induction cs arbitrary: s)
  case Nil
  then show ?case
    using Nil(2) [of "calls s"] by simp
next
  case (Cons c cs)
  have "eth_all drv bad cs k (s\<lparr>calls := t\<rparr>) = follow drv (cs @ ds) k' (s\<lparr>calls := t\<rparr>)" for t
    using Cons.prems by (intro Cons.IH) auto
  then show ?case
    using Cons.prems(1) [of c] eth_step [of bad c "eth_all drv bad cs k" s drv "cs @ ds" k'] by simp
qed

lemma eth_all_follow: "(\<And>c. c \<in> set cs \<Longrightarrow> bad = refused c) \<Longrightarrow> eth_all drv bad cs k s = follow drv cs k s"
  using eth_all_step [of cs bad k s drv "[]" k] by simp

lemma attempt_all: "attempt drv h cs = (t, None) \<Longrightarrow> t = cs"
  by (induction cs arbitrary: h t) (auto simp: Let_def split: if_splits prod.splits)

lemma attempt_refused: "attempt drv h cs = (t, Some (c, r)) \<Longrightarrow> c \<in> set cs \<and> refused c r"
  by (induction cs arbitrary: h t) (auto simp: Let_def split: if_splits prod.splits)

section \<open>Properties\<close>

lemma port_init_follow:
  assumes "promiscuous \<in> {Promiscuous_enable, Promiscuous_disable}" "set callbacks \<subseteq> {Add_rx_callback, Add_tx_callback}"
  shows "port_init promiscuous callbacks drv port s =
    (if reply drv (calls s) (Is_valid_port port) = 0 then (- 1, s\<lparr>calls := calls s @ [Is_valid_port port]\<rparr>)
     else follow drv (tl (port_plan promiscuous callbacks drv (core_que_nr s) port)) (\<lambda>s. (0, s))
       (s\<lparr>calls := calls s @ [Is_valid_port port], port_conf := zero_conf\<rparr>))"
proof -
  have promisc: "(\<lambda>r. r \<noteq> 0) = refused (promiscuous p)" for p
    using assms(1) by auto
  have refs: "(\<lambda>r. r \<noteq> 0) = refused (Dev_info_get p)" "(\<lambda>r. r \<noteq> 0) = refused (Dev_configure p n m cf)"
      "(\<lambda>r. r \<noteq> 0) = refused (Adjust_nb_desc p n m)" "(\<lambda>r. r < 0) = refused (Dev_start p)"
      "(\<lambda>r. r \<noteq> 0) = refused (Macaddr_get p)" for p n m cf
    by auto
  have upd: "port_conf (t\<lparr>calls := h\<rparr>) = port_conf t" "core_que_nr (t\<lparr>calls := h\<rparr>) = core_que_nr t"
      "port_conf (t\<lparr>port_conf := cf\<rparr>) = cf" "core_que_nr (t\<lparr>port_conf := cf\<rparr>) = core_que_nr t"
      "tx_offloads zero_conf = 0" for t h cf
    by (simp_all add: zero_conf_def)
  obtain a b where ab: "adjusted drv port (1024, 1024) = (a, b)"
    by fastforce
  show ?thesis
    unfolding port_init_def Let_def port_plan_def
    apply (simp only: ab RING_SIZE_def prod.case fst_conv snd_conv append.simps append_Nil2 list.sel refl if_False if_True not_True_eq_False)
    apply (intro if_cong refl)
    apply (rule eth_step [OF refs(1)])
    apply (simp only: upd)
    apply (rule eth_step [OF refs(2)])
    apply (rule eth_step [OF refs(3)])
    apply (rule eth_all_step)
     apply force
    apply (simp only: upd)
    apply (rule eth_all_step)
     apply force
    apply (rule eth_step [OF refs(4)])
    apply (rule eth_step [OF refs(5)])
    apply (rule eth_step [OF promisc])
    apply (rule eth_all_follow)
    using assms(2) apply (force simp: fun_eq_iff)
    done
qed


text \<open>
  C4: \<open>port_init\<close> makes the calls of its plan in order and gives up at the first that is refused, with its result
  (-1 for an invalid port); 0 means that all were accepted.  Whatever \<open>port_conf\<close> holds, the plan configures the
  port with the all-zero configuration, so receive-side scaling is never turned on although one queue is set up per
  lcore, and no message about it is ever printed.
\<close>

theorem port_init_plan:
  assumes "promiscuous \<in> {Promiscuous_enable, Promiscuous_disable}" "set callbacks \<subseteq> {Add_rx_callback, Add_tx_callback}"
  shows "port_init promiscuous callbacks drv port s =
    (case attempt drv (calls s) (port_plan promiscuous callbacks drv (core_que_nr s) port) of
       (t, None) \<Rightarrow> (0, s\<lparr>port_conf := zero_conf, calls := calls s @ t\<rparr>)
     | (t, Some (c, r)) \<Rightarrow>
         if c = Is_valid_port port then (- 1, s\<lparr>calls := calls s @ t\<rparr>)
         else (r, s\<lparr>port_conf := zero_conf, calls := calls s @ t\<rparr>))"
proof -
  let ?plan = "port_plan promiscuous callbacks drv (core_que_nr s) port"
  have plan: "?plan = Is_valid_port port # tl ?plan" "Is_valid_port port \<notin> set (tl ?plan)"
    using assms by (auto simp: port_plan_def)
  have "c \<noteq> Is_valid_port port" if "attempt drv h (tl ?plan) = (t, Some (c, r))" for h t c r
    using attempt_refused [OF that] plan(2) by auto
  then show ?thesis
    unfolding port_init_follow [OF assms] follow_def
    by (subst plan(1)) (auto simp: Let_def split: prod.split option.split)
qed


text \<open>A driver that accepts all calls but those that \<open>no\<close> refuses with -95 (\<open>ENOTSUP\<close>).\<close>

definition easy_driver :: "(eth_call \<Rightarrow> bool) \<Rightarrow> eth_driver" where
  "easy_driver no = \<lparr>reply = \<lambda>h c. if no c then - 95 else case c of Is_valid_port p \<Rightarrow> 1 | _ \<Rightarrow> 0,
     info = \<lambda>p. \<lparr>tx_offload_capa = 0, flow_type_rss_offloads = 0, max_rx_queues = 1,
       default_txconf = \<lparr>other_txconf = [], txconf_offloads = 3\<rparr>\<rparr>,
     adjusted = \<lambda>p d. d, MQ_RX_RSS = 1, MQ_RX_NONE = 0, MQ_TX_NONE = 0, RX_OFFLOAD_CHECKSUM = 14, RSS_IP = 4,
     TX_OFFLOAD_MBUF_FAST_FREE = 65536\<rparr>"

definition fresh_proc :: "eth_driver \<Rightarrow> proc" where
  "fresh_proc drv = \<lparr>port_conf = port_conf_init drv, core_que_nr = 0, force_quit = False, calls = [], rss_msgs = []\<rparr>"

theorem port_init_plan_witness:
  "\<exists>s'. aggregate_port_init (easy_driver (\<lambda>c. c = Dev_start 7)) 7 (fresh_proc (easy_driver (\<lambda>_. False))\<lparr>core_que_nr := 1\<rparr>) =
      (- 95, s') \<and>
    calls s' = [Is_valid_port 7, Dev_info_get 7, Dev_configure 7 1 1 zero_conf, Adjust_nb_desc 7 1024 1024,
      Rx_queue_setup 7 0 1024, Tx_queue_setup 7 0 1024 \<lparr>other_txconf = [], txconf_offloads = 0\<rparr>, Dev_start 7]"
  using port_init_plan [of Promiscuous_enable "[Add_rx_callback]" "easy_driver (\<lambda>c. c = Dev_start 7)" 7
      "fresh_proc (easy_driver (\<lambda>_. False))\<lparr>core_que_nr := 1\<rparr>"]
  by (simp add: aggregate_port_init_def port_plan_def queues_def easy_driver_def fresh_proc_def)

end
