(* ===== verification/Dpdk_Main.thy ===== *)
theory Dpdk_Main
  imports Dpdk_Port Dpdk_Filter Dpdk_Forward Dpdk_Zuc
begin

text \<open>
  \<open>main\<close> of the programs of \<open>src/dpdk\<close>: starting the environment layer and the ports, allocating what the lcores
  share, and running \<open>lcore_main\<close> on every lcore.  What the lcores do with the shared data is the parameter \<open>run\<close>; on
  one lcore it is the loop of the program.
\<close>

section \<open>Starting\<close>

text \<open>
  The machine the program is started on: what the calls of \<open>main\<close> return.  \<open>stray_ports\<close> is what \<open>nb_ports\<close> holds in
  the programs that never assign it; \<open>rte_malloc_ok k\<close> says whether the \<open>k\<close>th allocation succeeds.
\<close>

record host =
  eal_init :: int
  count_avail :: u32
  stray_ports :: u32
  lcore_count :: u32
  pool_create :: "u32 \<Rightarrow> bool"
  eth_ports :: "u16 list"
  driver :: eth_driver
  hash_create :: "nat \<Rightarrow> bool"
  rte_malloc_ok :: "nat \<Rightarrow> bool"

datatype start_error = No_eal | Need_one_port | No_pool | No_port u16 | No_hash | Stopped exit_reason

text \<open>
  The macro of \<open>helpers.h\<close> for the number of buffers of the pool, in \<open>unsigned\<close> arithmetic.
\<close>

definition NB_MBUF :: "u32 \<Rightarrow> u16 \<Rightarrow> u32" where
  "NB_MBUF nports nb_lcores = max
     (nports * ucast nb_lcores * 1024 + nports * ucast nb_lcores * 64 + nports * ucast nb_lcores * 1024 +
      ucast nb_lcores * 250) 8191"

primrec init_ports :: "(eth_driver \<Rightarrow> u16 \<Rightarrow> proc \<Rightarrow> int \<times> proc) \<Rightarrow> eth_driver \<Rightarrow> u16 list \<Rightarrow> proc \<Rightarrow>
    (start_error + unit) \<times> proc" where
  "init_ports init drv [] s = (Inr (), s)"
| "init_ports init drv (port # ports) s = (
     let (r, s) = init drv port s in if r \<noteq> 0 then (Inl (No_port port), s) else init_ports init drv ports s)"

text \<open>\<open>main\<close> up to the ports; \<open>one_port\<close>: the program insists on a single port.\<close>

definition start :: "(eth_driver \<Rightarrow> u16 \<Rightarrow> proc \<Rightarrow> int \<times> proc) \<Rightarrow> (host \<Rightarrow> u32) \<Rightarrow> bool \<Rightarrow> host \<Rightarrow> proc \<Rightarrow>
    (start_error + unit) \<times> proc" where
  "start init nb_ports one_port h s = (
     if eal_init h < 0 then (Inl No_eal, s)
     else let s = s\<lparr>force_quit := False\<rparr>
     in if one_port \<and> nb_ports h \<noteq> 1 then (Inl Need_one_port, s)
     else let s = s\<lparr>core_que_nr := ucast (lcore_count h)\<rparr>
     in if \<not> pool_create h (NB_MBUF (nb_ports h) (core_que_nr s)) then (Inl No_pool, s)
     else init_ports init (driver h) (eth_ports h) s)"

section \<open>Shared data\<close>

text \<open>The result of \<open>rte_malloc\<close> is not checked: writing through a null pointer is undefined (\<^const>\<open>None\<close>).\<close>

definition new_cell :: "host \<Rightarrow> nat \<Rightarrow> u32 option" where
  "new_cell h k = (if rte_malloc_ok h k then Some 0 else None)"

definition new_lock :: "host \<Rightarrow> nat \<Rightarrow> unit option" where
  "new_lock h k = (if rte_malloc_ok h k then Some () else None)"

definition new_cells :: "host \<Rightarrow> nat \<Rightarrow> nat \<Rightarrow> u32 list option" where
  "new_cells h k n = for_each (\<lambda>i cs. do { c \<leftarrow> new_cell h (k + i); Some (cs @ [c]) }) [0..<n] []"

definition first_state :: "'a \<Rightarrow> 'a dpdk" where
  "first_state a = \<lparr>app = a, pkt_rec = 0, per_lcore_cycles = 0, events = []\<rparr>"

text \<open>The counter \<open>pkt_rec\<close>, \<open>n\<close> cells, the lock.\<close>

definition share_cells :: "nat \<Rightarrow> host \<Rightarrow> (start_error + u32 list dpdk) option" where
  "share_cells n h = do {
     pkt \<leftarrow> new_cell h 0;
     cs \<leftarrow> new_cells h 1 n;
     _ \<leftarrow> new_lock h (Suc n);
     Some (Inr ((first_state cs)\<lparr>pkt_rec := pkt\<rparr>))
   }"

text \<open>\<open>final_histog\<close> is a global.\<close>

definition share_bins :: "host \<Rightarrow> (start_error + u32 list dpdk) option" where
  "share_bins h = do {
     pkt \<leftarrow> new_cell h 0;
     bins \<leftarrow> for_each (\<lambda>i bins. atomic32_set bins i 0) [0..<HISTOG_NR] (replicate 1024 0);
     _ \<leftarrow> new_lock h 1;
     Some (Inr ((first_state bins)\<lparr>pkt_rec := pkt\<rparr>))
   }"

text \<open>The table of the filter, created empty and filled, then as above.\<close>

definition share_filter :: "('h \<Rightarrow> u32 \<Rightarrow> int \<times> 'h) \<Rightarrow> 'h \<Rightarrow> host \<Rightarrow> (start_error + 'h \<times> u32 list dpdk) option" where
  "share_filter add_key fresh h = (
     if \<not> hash_create h 0 then Some (Inl No_hash)
     else do {
       r \<leftarrow> dpdk_fill_htable add_key fresh (of_nat HASH_ENTRIES);
       case r of
         Inl x \<Rightarrow> Some (Inl (Stopped x))
       | Inr hash \<Rightarrow> do {
           r \<leftarrow> share_cells (TOT_SIZE_B div DATA_SIZE_B) h;
           Some (map_sum id (Pair hash) r)
         }
     })"

definition share_caches :: "'h \<Rightarrow> host \<Rightarrow> (start_error + 'h list dpdk) option" where
  "share_caches fresh h = do {
     r \<leftarrow> for_each_ret (\<lambda>i caches. Some (if hash_create h i then Inr (caches @ [fresh]) else Inl No_hash)) [0..<DPDK_SETS_NR] [];
     case r of
       Inl x \<Rightarrow> Some (Inl x)
     | Inr caches \<Rightarrow> do { _ \<leftarrow> new_lock h 0; Some (Inr (first_state caches)) }
   }"

definition share_nothing :: "'a \<Rightarrow> host \<Rightarrow> (start_error + 'a dpdk) option" where
  "share_nothing a h = do { _ \<leftarrow> new_lock h 0; Some (Inr (first_state a)) }"

text \<open>The globals of \<open>zuc.h\<close> start as zero.\<close>

definition zero_registers :: zuc where
  "zero_registers = \<lparr>LFSR_S0 = 0, LFSR_S1 = 0, LFSR_S2 = 0, LFSR_S3 = 0, LFSR_S4 = 0, LFSR_S5 = 0, LFSR_S6 = 0,
     LFSR_S7 = 0, LFSR_S8 = 0, LFSR_S9 = 0, LFSR_S10 = 0, LFSR_S11 = 0, LFSR_S12 = 0, LFSR_S13 = 0, LFSR_S14 = 0,
     LFSR_S15 = 0, F_R1 = 0, F_R2 = 0, BRC_X0 = 0, BRC_X1 = 0, BRC_X2 = 0, BRC_X3 = 0\<rparr>"

section \<open>The programs\<close>

type_synonym ('d, 'a) lcores = "'d \<Rightarrow> (exit_reason + 'a dpdk) option"
type_synonym 'a main = "host \<Rightarrow> proc \<Rightarrow> (start_error + 'a dpdk) option \<times> proc"

definition dpdk_main :: "(eth_driver \<Rightarrow> u16 \<Rightarrow> proc \<Rightarrow> int \<times> proc) \<Rightarrow> (host \<Rightarrow> u32) \<Rightarrow> bool \<Rightarrow>
    (host \<Rightarrow> (start_error + 'd) option) \<Rightarrow> ('d, 'a) lcores \<Rightarrow> 'a main" where
  "dpdk_main init nb_ports one_port share run h s = (
     case start init nb_ports one_port h s of
       (Inl x, s) \<Rightarrow> (Some (Inl x), s)
     | (Inr _, s) \<Rightarrow> (do {
         r \<leftarrow> share h;
         case r of
           Inl x \<Rightarrow> Some (Inl x)
         | Inr d \<Rightarrow> do { r \<leftarrow> run d; Some (map_sum Stopped id r) }
       }, s))"

definition aggregate_main :: "(u32 list dpdk, u32 list) lcores \<Rightarrow> u32 list main" where
  "aggregate_main = dpdk_main aggregate_port_init stray_ports False (share_cells 1)"

definition aggregate_no_t_main :: "(u32 list dpdk, u32 list) lcores \<Rightarrow> u32 list main" where
  "aggregate_no_t_main = dpdk_main aggregate_no_t_port_init stray_ports False (share_cells 1)"

definition reduce_main :: "(u32 list dpdk, u32 list) lcores \<Rightarrow> u32 list main" where
  "reduce_main = dpdk_main reduce_port_init count_avail False (share_cells 256)"

definition reduce_no_t_main :: "(u32 list dpdk, u32 list) lcores \<Rightarrow> u32 list main" where
  "reduce_no_t_main = dpdk_main reduce_no_t_port_init count_avail False (share_cells 256)"

definition histogram_main :: "(u32 list dpdk, u32 list) lcores \<Rightarrow> u32 list main" where
  "histogram_main = dpdk_main histogram_port_init count_avail False share_bins"

definition histogram_no_t_main :: "(u32 list dpdk, u32 list) lcores \<Rightarrow> u32 list main" where
  "histogram_no_t_main = dpdk_main histogram_no_t_port_init count_avail False share_bins"

definition copy_to_host_main :: "(u32 list dpdk, u32 list) lcores \<Rightarrow> u32 list main" where
  "copy_to_host_main = dpdk_main copy_to_host_port_init stray_ports False (share_cells 256)"

definition copy_to_host_no_t_main :: "(u32 list dpdk, u32 list) lcores \<Rightarrow> u32 list main" where
  "copy_to_host_no_t_main = dpdk_main copy_to_host_no_t_port_init stray_ports False (share_cells 256)"

definition copy_from_host_main :: "(u32 list dpdk, u32 list) lcores \<Rightarrow> u32 list main" where
  "copy_from_host_main = dpdk_main copy_from_host_port_init stray_ports False (share_cells 256)"

definition copy_from_host_no_t_main :: "(u32 list dpdk, u32 list) lcores \<Rightarrow> u32 list main" where
  "copy_from_host_no_t_main = dpdk_main copy_from_host_no_t_port_init stray_ports False (share_cells 256)"

definition filter_main :: "('h \<Rightarrow> u32 \<Rightarrow> int \<times> 'h) \<Rightarrow> 'h \<Rightarrow> ('h \<times> u32 list dpdk, u32 list) lcores \<Rightarrow> u32 list main" where
  "filter_main add_key fresh = dpdk_main filter_port_init count_avail False (share_filter add_key fresh)"

definition filter_no_t_main :: "('h \<Rightarrow> u32 \<Rightarrow> int \<times> 'h) \<Rightarrow> 'h \<Rightarrow> ('h \<times> u32 list dpdk, u32 list) lcores \<Rightarrow> u32 list main" where
  "filter_no_t_main add_key fresh = dpdk_main filter_no_t_port_init count_avail False (share_filter add_key fresh)"

definition kvstore_main :: "'h \<Rightarrow> ('h list dpdk, 'h list) lcores \<Rightarrow> 'h list main" where
  "kvstore_main fresh = dpdk_main kvstore_port_init count_avail False (share_caches fresh)"

definition kvstore_no_t_main :: "'h \<Rightarrow> ('h list dpdk, 'h list) lcores \<Rightarrow> 'h list main" where
  "kvstore_no_t_main fresh = dpdk_main kvstore_no_t_port_init count_avail False (share_caches fresh)"

definition pingpong_main :: "(unit dpdk, unit) lcores \<Rightarrow> unit main" where
  "pingpong_main = dpdk_main pingpong_port_init count_avail False (share_nothing ())"

definition pingpong_no_t_main :: "(unit dpdk, unit) lcores \<Rightarrow> unit main" where
  "pingpong_no_t_main = dpdk_main pingpong_no_t_port_init count_avail False (share_nothing ())"

definition zuc_main :: "(zuc dpdk, zuc) lcores \<Rightarrow> zuc main" where
  "zuc_main = dpdk_main zuc_port_init count_avail True (share_nothing zero_registers)"

definition clock_main :: "(u32 list dpdk, u32 list) lcores \<Rightarrow> u32 list main" where
  "clock_main = dpdk_main clock_port_init stray_ports False (share_cells 1)"


section \<open>Starting up\<close>

lemma attempt_append:
  "attempt drv h (cs @ ds) = (case attempt drv h cs of
     (t, None) \<Rightarrow> (let (u, e) = attempt drv (h @ cs) ds in (t @ u, e))
   | (t, Some e) \<Rightarrow> (t, Some e))"
  by (induction cs arbitrary: h) (auto simp: Let_def split: prod.split option.split)

text \<open>\<open>port_init\<close> of a program succeeds exactly when its plan is carried out, and only touches these fields.\<close>

lemma port_init_zero:
  assumes "promiscuous \<in> {Promiscuous_enable, Promiscuous_disable}" "set callbacks \<subseteq> {Add_rx_callback, Add_tx_callback}"
  shows "\<exists>r s'. port_init promiscuous callbacks drv port s = (r, s') \<and>
    (r = 0 \<longleftrightarrow> snd (attempt drv (calls s) (port_plan promiscuous callbacks drv (core_que_nr s) port)) = None) \<and>
    (r = 0 \<longrightarrow> calls s' = calls s @ port_plan promiscuous callbacks drv (core_que_nr s) port \<and>
       core_que_nr s' = core_que_nr s)"
proof -
  let ?plan = "port_plan promiscuous callbacks drv (core_que_nr s) port"
  obtain t e where te: "attempt drv (calls s) ?plan = (t, e)"
    by fastforce
  have "Is_valid_port p \<in> set ?plan \<Longrightarrow> p = port" for p
    using assms by (auto simp: port_plan_def)
  then have "r \<noteq> 0" if "e = Some (c, r)" "c \<noteq> Is_valid_port port" for c r
    using attempt_refused [OF te [unfolded that(1)]] that(2) by (cases c) auto
  then show ?thesis
    using attempt_all [of drv "calls s" ?plan t] te
    by (cases e) (auto simp: port_init_plan [OF assms])
qed

lemma init_ports_plans:
  assumes "promiscuous \<in> {Promiscuous_enable, Promiscuous_disable}" "set callbacks \<subseteq> {Add_rx_callback, Add_tx_callback}"
  shows "\<exists>r s'. init_ports (port_init promiscuous callbacks) drv ports s = (r, s') \<and>
    (r = Inr () \<longleftrightarrow> snd (attempt drv (calls s) (concat (map (port_plan promiscuous callbacks drv (core_que_nr s)) ports))) = None) \<and>
    (r = Inr () \<longrightarrow> calls s' = calls s @ concat (map (port_plan promiscuous callbacks drv (core_que_nr s)) ports) \<and>
       core_que_nr s' = core_que_nr s)"
proof (induction ports arbitrary: s)
  case Nil
  then show ?case by simp
next
  case (Cons port ports)
  let ?plan = "port_plan promiscuous callbacks drv (core_que_nr s)"
  obtain r s1 where r: "port_init promiscuous callbacks drv port s = (r, s1)"
      "r = 0 \<longleftrightarrow> snd (attempt drv (calls s) (?plan port)) = None"
      "r = 0 \<Longrightarrow> calls s1 = calls s @ ?plan port \<and> core_que_nr s1 = core_que_nr s"
    using port_init_zero [OF assms, of drv port s] by metis
  show ?case
  proof (cases "r = 0")
    case True
    then have "attempt drv (calls s) (?plan port) = (?plan port, None)"
      using r(2) attempt_all by (metis prod.collapse)
    then show ?thesis
      using True r Cons.IH [of s1] by (auto simp: attempt_append Let_def split: prod.splits)
  next
    case False
    then show ?thesis
      using r by (auto simp: attempt_append Let_def split: prod.splits)
  qed
qed

section \<open>Shared data\<close>

lemma new_cells_ok: "\<forall>i<n. rte_malloc_ok h (k + i) \<Longrightarrow> new_cells h k n = Some (replicate n 0)"
  unfolding new_cells_def
  by (induction n) (simp_all add: for_each_append new_cell_def replicate_append_same)

lemma share_cells_ok: "\<forall>k<n + 2. rte_malloc_ok h k \<Longrightarrow> share_cells n h = Some (Inr (first_state (replicate n 0)))"
  using new_cells_ok [of n h 1] by (simp add: share_cells_def new_cell_def new_lock_def first_state_def)

lemma fill_total:
  "\<exists>r. dpdk_fill_htable add_key fresh n = Some r \<and> (\<forall>x. r = Inl x \<longrightarrow> x = Cannot_add)"
proof -
  have one: "\<exists>r. add_or_exit add_key k h = Some r \<and> (\<forall>x. r = Inl x \<longrightarrow> x = Cannot_add)" for k h
    by (simp add: add_or_exit_def split: prod.split)
  have loop: "\<exists>r. for_each_ret (\<lambda>i. add_or_exit add_key (f i)) ks h = Some r \<and> (\<forall>x. r = Inl x \<longrightarrow> x = Cannot_add)" for f :: "nat \<Rightarrow> u32" and ks h
  proof (induction ks arbitrary: h)
    case (Cons i ks)
    obtain r where r: "add_or_exit add_key (f i) h = Some r" "\<forall>x. r = Inl x \<longrightarrow> x = Cannot_add"
      using one by blast
    then show ?case
      using Cons.IH by (cases r) auto
  qed simp
  then obtain r where "for_each_ret (\<lambda>i. add_or_exit add_key (ucast (dpdk_hashmult (of_nat i)))) [0..<unat (n - 1)] fresh = Some r"
      "\<forall>x. r = Inl x \<longrightarrow> x = Cannot_add"
    using loop [of "\<lambda>i. ucast (dpdk_hashmult (of_nat i))" "[0..<unat (n - 1)]" fresh] by blast
  then show ?thesis
    using one by (cases r) (auto simp: dpdk_fill_htable_def)
qed

section \<open>Properties\<close>

lemma start_plans:
  assumes "promiscuous \<in> {Promiscuous_enable, Promiscuous_disable}" "set callbacks \<subseteq> {Add_rx_callback, Add_tx_callback}"
  shows "\<exists>r s'. start (port_init promiscuous callbacks) nb_ports one_port h s = (r, s') \<and>
    (let cores = ucast (lcore_count h); plans = concat (map (port_plan promiscuous callbacks (driver h) cores) (eth_ports h)) in
     (r = Inr () \<longleftrightarrow> 0 \<le> eal_init h \<and> (one_port \<longrightarrow> nb_ports h = 1) \<and> pool_create h (NB_MBUF (nb_ports h) cores) \<and>
        snd (attempt (driver h) (calls s) plans) = None) \<and>
     (r = Inr () \<longrightarrow> calls s' = calls s @ plans \<and> core_que_nr s' = cores))"
  using init_ports_plans [OF assms, of "driver h" "eth_ports h" "s\<lparr>force_quit := False, core_que_nr := ucast (lcore_count h)\<rparr>"]
  by (auto simp: start_def Let_def)


text \<open>A machine with the ports \<open>ports\<close> and one lcore on which everything works.\<close>

definition easy_host :: "u16 list \<Rightarrow> host" where
  "easy_host ports = \<lparr>eal_init = 3, count_avail = of_nat (length ports), stray_ports = 0, lcore_count = 1,
     pool_create = \<lambda>n. 8191 \<le> n, eth_ports = ports, driver = easy_driver (\<lambda>_. False), hash_create = \<lambda>_. True,
     rte_malloc_ok = \<lambda>_. True\<rparr>"

lemma easy_start:
  assumes "promiscuous \<in> {Promiscuous_enable, Promiscuous_disable}" "set callbacks \<subseteq> {Add_rx_callback, Add_tx_callback}"
  shows "\<exists>s'. start (port_init promiscuous callbacks) nb_ports False (easy_host [7])
    (fresh_proc (easy_driver (\<lambda>_. False))) = (Inr (), s')"
proof -
  have "\<not> refused c (reply (easy_driver (\<lambda>_. False)) h c)" for c h
    by (cases c) (simp_all add: easy_driver_def)
  then have "snd (attempt (easy_driver (\<lambda>_. False)) h cs) = None" for h cs
    by (induction cs arbitrary: h) (simp_all add: case_prod_beta)
  moreover have "8191 \<le> NB_MBUF n c" for n c
    by (simp add: NB_MBUF_def)
  ultimately show ?thesis
    using start_plans [OF assms, of nb_ports False "easy_host [7]" "fresh_proc (easy_driver (\<lambda>_. False))"]
    by (auto simp: easy_host_def Let_def)
qed





text \<open>
  From process start to the end of \<open>lcore_main\<close>: once the ports are up and if the three allocations succeed, the
  DPDK \<open>aggregate\<close> on one lcore returns, its counter holding the sum of all payload integers of the frames received
  and \<open>pkt_rec\<close> their number.
\<close>

theorem aggregate_process:
  assumes "start aggregate_port_init stray_ports False h s = (Inr (), s')" "\<forall>k<3. rte_malloc_ok h k"
    and "\<forall>env \<in> set envs. good_burst env"
  shows "\<exists>st. aggregate_main (dpdk_aggregate scale envs) h s = (Some (Inr st), s') \<and>
    app st ! 0 = (\<Sum>d\<leftarrow>all_frames envs. payload_sum d) \<and> pkt_rec st = of_nat (length (all_frames envs))"
  using share_cells_ok [of 1 h] assms(1,2) dpdk_aggregate_sums [OF assms(3), of "first_state (replicate 1 0)" scale]
  by (auto simp: aggregate_main_def dpdk_main_def first_state_def numeral_3_eq_3)

theorem aggregate_process_witness:
  "\<exists>st s'. aggregate_main (dpdk_aggregate id [burst_of (map dpdk_frame_of [replicate 256 1, replicate 256 2])]) (easy_host [7])
      (fresh_proc (easy_driver (\<lambda>_. False))) = (Some (Inr st), s') \<and> pkt_rec st = 2"
proof -
  obtain s' where s': "start aggregate_port_init stray_ports False (easy_host [7]) (fresh_proc (easy_driver (\<lambda>_. False))) = (Inr (), s')"
    using easy_start [of Promiscuous_enable "[Add_rx_callback]" stray_ports] by (auto simp: aggregate_port_init_def)
  let ?env = "burst_of (map dpdk_frame_of [replicate 256 1, replicate 256 2])"
  have env: "\<forall>env \<in> set [?env]. good_burst env" "length (all_frames [?env]) = 2"
    using burst_of_facts [of "[replicate 256 1, replicate 256 2]"] by auto
  have "\<forall>k<3. rte_malloc_ok (easy_host [7]) k"
    by (simp add: easy_host_def)
  from aggregate_process [OF s' this env(1), of id] show ?thesis
    unfolding env(2) by auto
qed

text \<open>
  C19: from process start to the end of \<open>lcore_main\<close>: once the ports are up, the table is created and the allocations
  succeed, the DPDK \<open>filter\<close> on one lcore ends with the error that a key
  cannot be added if the table refuses one, and else the host cells end with
  the integers of the last frame sent to 0.0.0.0 .. 0.0.31.223 or to 10.0.3.0, zero if there was none.
\<close>

theorem filter_process:
  assumes "rte_hash_keys add_key lookup" "\<And>k. lookup fresh k < 0"
    and "start filter_port_init count_avail False h s = (Inr (), s')" "hash_create h 0" "\<forall>k<258. rte_malloc_ok h k"
    and "\<forall>env \<in> set envs. good_burst env"
  shows "\<exists>r. filter_main add_key fresh (\<lambda>(hash, st). dpdk_filter lookup hash scale envs st) h s = (Some r, s') \<and>
    (case r of
       Inl x \<Rightarrow> x = Stopped Cannot_add \<and> (\<forall>hash. dpdk_fill_htable add_key fresh (of_nat HASH_ENTRIES) \<noteq> Some (Inr hash))
     | Inr st \<Rightarrow> app st =
         (let hits = filter (\<lambda>d. unat (dst_key d) \<le> 8159 \<or> dst_key d = 167772928) (all_frames envs)
          in if hits = [] then replicate 256 0 else payload_words (last hits)))"
proof -
  obtain r where r: "dpdk_fill_htable add_key fresh (of_nat HASH_ENTRIES) = Some r" "\<forall>x. r = Inl x \<longrightarrow> x = Cannot_add"
    using fill_total [of add_key fresh "of_nat HASH_ENTRIES"] by (elim exE conjE) rule
  show ?thesis
  proof (cases r)
    case (Inl x)
    then show ?thesis
      using r by (simp add: filter_main_def dpdk_main_def share_filter_def assms(3,4))
  next
    case (Inr hash)
    have keys: "0 \<le> lookup hash k \<longleftrightarrow> unat k \<le> 8159 \<or> k = 167772928" for k
      using filled_keys [OF assms(1,2) r(1) [unfolded Inr]] by blast
    have cells: "share_cells (TOT_SIZE_B div DATA_SIZE_B) h = Some (Inr (first_state (replicate 256 0)))"
    proof -
      have "TOT_SIZE_B div DATA_SIZE_B = 256" "(256::nat) + 2 = 258"
        by (simp_all add: const_defs)
      then show ?thesis
        using share_cells_ok [of 256 h] assms(5) by metis
    qed
    have run: "filter_main add_key fresh (\<lambda>(hash, st). dpdk_filter lookup hash scale envs st) h s =
        (do { r \<leftarrow> dpdk_filter lookup hash scale envs (first_state (replicate 256 0)); Some (map_sum Stopped id r) }, s')"
      using r(1) Inr by (simp only: filter_main_def dpdk_main_def share_filter_def assms(3,4) cells) simp
    have st0: "length (app (first_state (replicate 256 0) :: u32 list dpdk)) = 256"
        "app (first_state (replicate 256 0) :: u32 list dpdk) = replicate 256 0"
      by (simp_all only: first_state_def dpdk.select_convs length_replicate)
    obtain st where st: "dpdk_filter lookup hash scale envs (first_state (replicate 256 0)) = Some (Inr st)"
        "app st = (let hits = filter (\<lambda>d. 0 \<le> lookup hash (dst_key d)) (all_frames envs)
          in if hits = [] then replicate 256 0 else payload_words (last hits))"
      using dpdk_filter_hits [OF assms(6) st0(1), of lookup hash scale] unfolding st0(2) by blast
    show ?thesis
      unfolding run st(1) using st(2) unfolding keys by simp
  qed
qed


theorem filter_process_witness:
  "\<exists>st s'. filter_main (key_list_add 65536) [] (\<lambda>(hash, st). dpdk_filter key_list_lookup hash id
      [burst_of [dpdk_frame_of (replicate 256 3)]] st) (easy_host [7]) (fresh_proc (easy_driver (\<lambda>_. False))) = (Some (Inr st), s') \<and>
    app st = replicate 256 3"
proof -
  obtain s' where s': "start filter_port_init count_avail False (easy_host [7]) (fresh_proc (easy_driver (\<lambda>_. False))) = (Inr (), s')"
    using easy_start [of Promiscuous_enable "[Add_rx_callback]" count_avail] by (auto simp: filter_port_init_def)
  let ?env = "burst_of (map dpdk_frame_of [replicate 256 3])"
  have env: "\<forall>env \<in> set [?env]. good_burst env" "all_frames [?env] = [dpdk_frame_of (replicate 256 3)]"
    using burst_of_facts [of "[replicate 256 3]"] by auto
  have ok: "hash_create (easy_host [7]) 0" "\<forall>k<258. rte_malloc_ok (easy_host [7]) k" "\<And>k. key_list_lookup [] k < 0"
    by (simp_all add: easy_host_def key_list_lookup_def)
  obtain r where r: "filter_main (key_list_add 65536) [] (\<lambda>(hash, st). dpdk_filter key_list_lookup hash id [?env] st)
        (easy_host [7]) (fresh_proc (easy_driver (\<lambda>_. False))) = (Some r, s')"
      "case r of Inl x \<Rightarrow> x = Stopped Cannot_add
         \<and> (\<forall>hash. dpdk_fill_htable (key_list_add 65536) [] (of_nat HASH_ENTRIES) \<noteq> Some (Inr hash))
       | Inr st \<Rightarrow> app st = (let hits = filter (\<lambda>d. unat (dst_key d) \<le> 8159 \<or> dst_key d = 167772928) (all_frames [?env])
          in if hits = [] then replicate 256 0 else payload_words (last hits))"
    using filter_process [OF key_list.rte_hash_keys_axioms ok(3) s' ok(1,2) env(1), of 65536 id] by blast
  obtain h where h: "dpdk_fill_htable (key_list_add 65536) [] (of_nat HASH_ENTRIES) = Some (Inr h)"
    using key_list_fill by (auto simp: HASH_ENTRIES_def)
  then obtain st where st: "r = Inr st"
    using r(2) by (cases r) auto
  show ?thesis
    using r st env(2) dst_key_zero by (auto simp: payload_words_frame)
qed

end
