(* ===== verification/Dpdk_Clock.thy ===== *)
theory Dpdk_Clock
  imports Dpdk_Poll
begin

text \<open>
  \<open>src/dpdk/clock_overhead/aggregate.c\<close>: measures the cost of reading the cycle counter.  No packets are received: the
  lcore on queue 0 calls \<open>calc_latency\<close> a million times per pass with a growing packet count.
\<close>

section \<open>The program\<close>

text \<open>What one call of \<open>calc_latency\<close> reads from the counter, twice, and whether the benchmark file opens.\<close>

record clock_env =
  first_read :: u64
  second_read :: u64
  clock_file_ok :: bool

definition clock_calc_latency :: "(u64 \<Rightarrow> u64) \<Rightarrow> clock_env \<Rightarrow> u16 \<Rightarrow> 'a dpdk \<Rightarrow> exit_reason + 'a dpdk" where
  "clock_calc_latency scale env nb_pkts st = (
     let st = st\<lparr>per_lcore_cycles := first_read env\<rparr>;
         latency = scale (second_read env - per_lcore_cycles st)
     in if \<not> clock_file_ok env then Inl No_file
        else Inr (emit (replicate (unat nb_pkts) (Log latency)) st))"

definition clock_passes :: nat where
  "clock_passes = 1000000"

text \<open>One pass over a port; \<open>env i\<close> is what the \<open>i\<close>th call reads.\<close>

definition clock_poll :: "(u64 \<Rightarrow> u64) \<Rightarrow> u16 \<Rightarrow> (nat \<Rightarrow> clock_env) \<Rightarrow> 'a dpdk \<Rightarrow> (exit_reason + 'a dpdk) option" where
  "clock_poll scale core_que_id env st = (
     if core_que_id \<noteq> 0 then Some (Inr st)
     else do {
       r \<leftarrow> for_each_ret (\<lambda>i (nb_mng_rx, st). Some (
           let nb_mng_rx = nb_mng_rx + 1 in
           case clock_calc_latency scale (env i) nb_mng_rx st of
             Inl x \<Rightarrow> Inl x
           | Inr st \<Rightarrow> Inr (nb_mng_rx, st))) [0..<clock_passes] (0, st);
       Some (map_sum id snd r)
     })"

definition clock_overhead :: "(u64 \<Rightarrow> u64) \<Rightarrow> u16 \<Rightarrow> (nat \<Rightarrow> clock_env) list \<Rightarrow> 'a dpdk \<Rightarrow> (exit_reason + 'a dpdk) option" where
  "clock_overhead scale core_que_id envs st = for_each_ret (clock_poll scale core_que_id) envs st"

section \<open>Counting the lines\<close>

definition lines_after :: "nat \<Rightarrow> nat" where
  "lines_after n = (\<Sum>i<n. Suc i mod 65536)"

lemma lines_after_closed:
  "lines_after n = n div 65536 * 2147450880 + (n mod 65536) * Suc (n mod 65536) div 2"
proof (induction n)
  case 0
  then show ?case
    by (simp add: lines_after_def)
next
  case (Suc n)
  let ?r = "n mod 65536"
  have step: "lines_after (Suc n) = lines_after n + Suc n mod 65536"
    by (simp add: lines_after_def)
  show ?case
  proof (cases "?r = 65535")
    case True
    then have "Suc n mod 65536 = 0" "Suc n div 65536 = Suc (n div 65536)"
      by (simp_all add: mod_Suc div_Suc)
    then show ?thesis
      using Suc True by (simp add: step)
  next
    case False
    then have *: "Suc n mod 65536 = Suc ?r" "Suc n div 65536 = n div 65536"
      by (simp_all add: mod_Suc div_Suc)
    have half: "(a + 2 * b) div 2 = a div 2 + b" for a b :: nat
      by simp
    have "Suc r * Suc (Suc r) = r * Suc r + 2 * Suc r" for r
      by simp
    then have "Suc ?r * Suc (Suc ?r) div 2 = ?r * Suc ?r div 2 + Suc ?r"
      by (simp only: half)
    then show ?thesis
      using Suc by (simp only: step *) 
  qed
qed

lemma clock_loop:
  assumes "\<forall>i<n. clock_file_ok (env i)"
  shows "\<exists>st'. for_each_ret (\<lambda>i (nb_mng_rx, st). Some (
           let nb_mng_rx = nb_mng_rx + 1 in
           case clock_calc_latency scale (env i) nb_mng_rx st of
             Inl x \<Rightarrow> Inl x
           | Inr st \<Rightarrow> Inr (nb_mng_rx, st))) [0..<n] (0, st) = Some (Inr (of_nat n, st')) \<and>
     length (events st') = length (events st) + lines_after n \<and> app st' = app st"
  using assms
proof (induction n)
  case 0
  then show ?case
    by (simp add: lines_after_def)
next
  case (Suc n)
  let ?body = "\<lambda>i (nb_mng_rx, st). Some (let nb_mng_rx = nb_mng_rx + 1 in
     case clock_calc_latency scale (env i) nb_mng_rx st of Inl x \<Rightarrow> Inl x | Inr st \<Rightarrow> Inr (nb_mng_rx, st))"
  obtain st1 where st1: "for_each_ret ?body [0..<n] (0, st) = Some (Inr (of_nat n, st1))"
      "length (events st1) = length (events st) + lines_after n" "app st1 = app st"
    using Suc by auto
  have w: "unat (of_nat n + 1 :: u16) = Suc n mod 65536"
    using unat_of_nat [of "Suc n", where 'a = 16] by (simp only: of_nat_Suc take_bit_eq_mod add.commute) simp
  obtain st2 where st2: "clock_calc_latency scale (env n) (of_nat n + 1) st1 = Inr st2"
      "length (events st2) = length (events st1) + Suc n mod 65536" "app st2 = app st1"
    using Suc.prems by (simp add: clock_calc_latency_def emit_def Let_def w del: unat_plus_simple)
  have "for_each_ret ?body [0..<Suc n] (0, st) = Some (Inr (of_nat (Suc n), st2))"
    using st1(1) st2(1) by (simp add: for_each_ret_append add.commute)
  then show ?case
    using st1 st2 by (auto simp: lines_after_def)
qed

section \<open>Properties\<close>

text \<open>
  One pass of the lcore on queue 0 writes 32355592480 lines to the benchmark file: the packet count is a
  \<open>uint16_t\<close> and wraps around 15 times in the million calls (it would be 500000500000 lines otherwise); all other
  lcores do nothing.
\<close>

theorem clock_log_size:
  assumes "\<forall>i<clock_passes. clock_file_ok (env i)"
  shows "\<exists>st'. clock_poll scale core_que_id env st = Some (Inr st') \<and> app st' = app st \<and>
    length (events st') = length (events st) + (if core_que_id = 0 then 32355592480 else 0)"
proof (cases "core_que_id = 0")
  case True
  have "lines_after clock_passes = 32355592480"
    by (simp add: lines_after_closed clock_passes_def)
  then show ?thesis
    using clock_loop [OF assms, of scale st] True by (auto simp: clock_poll_def)
next
  case False
  then show ?thesis
    by (simp add: clock_poll_def)
qed

theorem clock_log_size_witness:
  "\<exists>st'. clock_poll id 0 (\<lambda>i. \<lparr>first_read = 5, second_read = 9, clock_file_ok = True\<rparr>)
      \<lparr>app = (), pkt_rec = 0, per_lcore_cycles = 0, events = []\<rparr> = Some (Inr st') \<and> length (events st') = 32355592480"
  using clock_log_size [of "\<lambda>i. \<lparr>first_read = 5, second_read = 9, clock_file_ok = True\<rparr>" id 0
      "\<lparr>app = (), pkt_rec = 0, per_lcore_cycles = 0, events = []\<rparr>"] by simp

end
