(* ===== verification/Dpdk_Quit.thy ===== *)
theory Dpdk_Quit
  imports Dpdk_Batch
begin

text \<open>
  How a DPDK program ends: \<open>main\<close> installs \<open>signal_handler\<close> for \<open>SIGINT\<close> and \<open>SIGTERM\<close>, and every lcore looks at \<open>force_quit\<close>
  before it polls all ports once more.  The other theories run \<open>lcore_main\<close> over a list of polls; here is what that
  list is.
\<close>

section \<open>The loop with its flag\<close>

text \<open>The signals that arrive before the flag is looked at, and then one poll per port.\<close>

type_synonym poll_round = "int list \<times> poll_env list"

text \<open>
  \<open>while(!force_quit) RTE_ETH_FOREACH_DEV(port)\<close>.  The flag in the result says whether \<open>lcore_main\<close> has returned or is
  still running when the list of rounds ends.
\<close>

primrec lcore_rounds :: "(poll_env \<Rightarrow> 'a dpdk \<Rightarrow> (exit_reason + 'a dpdk) option) \<Rightarrow> poll_round list \<Rightarrow> bool \<Rightarrow> 'a dpdk \<Rightarrow>
    (exit_reason + bool \<times> 'a dpdk) option" where
  "lcore_rounds poll [] force_quit st = Some (Inr (False, st))"
| "lcore_rounds poll (round # rounds) force_quit st = (
     let force_quit = fold signal_handler (fst round) force_quit in
     if force_quit then Some (Inr (True, st))
     else do {
       r \<leftarrow> lcore_loop poll (snd round) st;
       case r of
         Inl x \<Rightarrow> Some (Inl x)
       | Inr st \<Rightarrow> lcore_rounds poll rounds force_quit st
     })"

section \<open>Signals\<close>

definition quits :: "poll_round \<Rightarrow> bool" where
  "quits r \<longleftrightarrow> (\<exists>signum \<in> set (fst r). signum = 2 \<or> signum = 15)"

lemma fold_signal_handler: "fold signal_handler sigs b \<longleftrightarrow> b \<or> (\<exists>signum \<in> set sigs. signum = 2 \<or> signum = 15)"
  by (induction sigs arbitrary: b) (simp_all add: signal_handler_def disj_ac)

lemma lcore_loop_append:
  "lcore_loop poll (xs @ ys) st = do {
     r \<leftarrow> lcore_loop poll xs st;
     case r of Inl x \<Rightarrow> Some (Inl x) | Inr st \<Rightarrow> lcore_loop poll ys st
   }"
  unfolding lcore_loop_def by (rule for_each_ret_append)

text \<open>
  C32: an lcore works through its rounds until the first one before which \<open>SIGINT\<close> or \<open>SIGTERM\<close> arrived, and then returns
  without another poll; other signals change nothing.  So \<open>lcore_main\<close> is \<open>lcore_loop\<close> on the polls of these rounds.
\<close>

theorem quit_at_signal:
  "lcore_rounds poll rounds False st =
    map_option (map_sum id (Pair (\<exists>r \<in> set rounds. quits r)))
      (lcore_loop poll (concat (map snd (takeWhile (\<lambda>r. \<not> quits r) rounds))) st)"
proof (induction rounds arbitrary: st)
  case Nil
  then show ?case
    by (simp add: lcore_loop_def)
next
  case (Cons r rounds)
  have flag: "fold signal_handler (fst r) False = quits r"
    by (simp add: fold_signal_handler quits_def)
  show ?case
    using Cons.IH
    by (cases "quits r") (auto simp: flag lcore_loop_append lcore_loop_def [of poll "[]"] split: Option.bind_splits sum.splits)
qed

text \<open>For example aggregate: whatever is on the wire, it ends at the signal with the sum of what it polled before.\<close>

lemma aggregate_quits:
  assumes "\<forall>r \<in> set rounds. \<forall>env \<in> set (snd r). good_burst env" "length (app st) = 1" "\<exists>r \<in> set rounds. quits r"
  shows "\<exists>st'. lcore_rounds (batch_poll True dpdk_aggregate_work Some scale) rounds False st = Some (Inr (True, st')) \<and>
    app st' ! 0 = app st ! 0 +
      (\<Sum>d\<leftarrow>all_frames (concat (map snd (takeWhile (\<lambda>r. \<not> quits r) rounds))). payload_sum d)"
proof -
  let ?envs = "concat (map snd (takeWhile (\<lambda>r. \<not> quits r) rounds))"
  have "\<forall>env \<in> set ?envs. good_burst env"
    using assms(1) by (auto dest: set_takeWhileD)
  then show ?thesis
    using dpdk_aggregate_sums [of ?envs st scale] assms(2,3) by (auto simp: quit_at_signal dpdk_aggregate_def)
qed

end
