(* ===== verification/Dpdk_Lcores_Forward.thy ===== *)
theory Dpdk_Lcores_Forward
  imports Dpdk_Forward
begin

text \<open>
  \<open>kvstore.c\<close> on several lcores at once (\<open>rte_eal_mp_remote_launch\<close>).  The hash table is created with
  \<open>RTE_HASH_EXTRA_FLAGS_RW_CONCURRENCY\<close>, so that one call of the hash library is one step; all else a lcore does for a
  packet is in its own buffer.
\<close>

section \<open>The key-value store\<close>

record kv_event =
  lcore_id :: nat
  request :: bytes
  answer :: bytes

text \<open>The table, the frames each lcore has still to handle, and what has been done so far, in order.\<close>

record 'h kv_lcores =
  hash_table :: 'h
  waiting :: "bytes list list"
  served :: "kv_event list"

inductive kv_step :: "('h \<Rightarrow> u32 \<Rightarrow> u64 \<Rightarrow> 'h) \<Rightarrow> ('h \<Rightarrow> u32 \<Rightarrow> u64 option) \<Rightarrow> (bytes \<Rightarrow> u16) \<Rightarrow> 'h kv_lcores \<Rightarrow> 'h kv_lcores \<Rightarrow> bool"
  for add_key_data lookup_data cksum where
  kv_serve: "i < length (waiting s) \<Longrightarrow> waiting s ! i = d # ds \<Longrightarrow>
    dpdk_kv_work add_key_data lookup_data cksum d [hash_table s] = Some (Inr (r, [h])) \<Longrightarrow>
    kv_step add_key_data lookup_data cksum s
      \<lparr>hash_table = h, waiting = (waiting s)[i := ds], served = served s @ [\<lparr>lcore_id = i, request = d, answer = r\<rparr>]\<rparr>"

inductive_cases kv_stepE: "kv_step add_key_data lookup_data cksum s t"

definition kv_start :: "'h \<Rightarrow> poll_env list list \<Rightarrow> 'h kv_lcores" where
  "kv_start h envss = \<lparr>hash_table = h, waiting = map all_frames envss, served = []\<rparr>"

definition handled :: "nat \<Rightarrow> kv_event list \<Rightarrow> bytes list" where
  "handled i es = map request (filter (\<lambda>e. lcore_id e = i) es)"

lemma handled_simps [simp]:
  "handled i [] = []"
  "handled i (es @ [e]) = handled i es @ (if lcore_id e = i then [request e] else [])"
  by (simp_all add: handled_def)

text \<open>What the lcores have done and have still to do are, lcore by lcore, the frames they received.\<close>

definition in_order :: "bytes list list \<Rightarrow> 'h kv_lcores \<Rightarrow> bool" where
  "in_order dss s \<longleftrightarrow> length (waiting s) = length dss \<and>
     (\<forall>i<length dss. handled i (served s) @ waiting s ! i = dss ! i)"

definition answers_ok :: "(u32 \<Rightarrow> u32 option) \<Rightarrow> kv_event list \<Rightarrow> bool" where
  "answers_ok w es \<longleftrightarrow> (\<forall>n<length es.
     kv_answer_ok w (kv_written (map request (take n es)) w) (request (es ! n)) (answer (es ! n)))"

lemma answers_ok_snoc:
  "answers_ok w es \<Longrightarrow> kv_answer_ok w (kv_written (map request es) w) (request e) (answer e) \<Longrightarrow> answers_ok w (es @ [e])"
  by (auto simp: answers_ok_def nth_append less_Suc_eq)

lemma kv_written_snoc: "kv_written (ds @ [d]) w = kv_write d (kv_written ds w)"
  by (simp add: kv_written_def)

lemma in_order_start: "in_order (map all_frames envss) (kv_start h envss)"
  by (simp add: in_order_def kv_start_def)

lemma in_order_step: "kv_step add_key_data lookup_data cksum s t \<Longrightarrow> in_order dss s \<Longrightarrow> in_order dss t"
  by (erule kv_stepE) (auto simp: in_order_def nth_list_update)

lemma in_order_waiting:
  "in_order dss s \<Longrightarrow> i < length (waiting s) \<Longrightarrow> waiting s ! i = d # ds \<Longrightarrow> \<exists>ds \<in> set dss. d \<in> set ds"
  unfolding in_order_def by (metis in_set_conv_decomp nth_mem)

context rte_hash_data
begin

lemma kv_lcores_step:
  assumes "kv_step add_key_data lookup_data cksum s t" "in_order dss s" "\<forall>ds \<in> set dss. \<forall>d \<in> set ds. 1066 \<le> length d"
    and "answers_ok w (served s)" "kv_inv w (kv_written (map request (served s)) w) (kv_values lookup_data (hash_table s))"
  shows "answers_ok w (served t)" "kv_inv w (kv_written (map request (served t)) w) (kv_values lookup_data (hash_table t))"
proof -
  obtain i d ds r h where i: "i < length (waiting s)" "waiting s ! i = d # ds"
      "dpdk_kv_work add_key_data lookup_data cksum d [hash_table s] = Some (Inr (r, [h]))"
      "t = \<lparr>hash_table = h, waiting = (waiting s)[i := ds], served = served s @ [\<lparr>lcore_id = i, request = d, answer = r\<rparr>]\<rparr>"
    using assms(1) by (rule kv_stepE)
  have d: "1066 \<le> length d"
    using in_order_waiting [OF assms(2) i(1,2)] assms(3) by blast
  have r: "r = kv_out lookup_data cksum d (hash_table s)" "h = kv_table add_key_data d (hash_table s)"
    using i(3) by (simp_all add: dpdk_kv_work_single [OF d])
  show "answers_ok w (served t)"
    using answers_ok_snoc [OF assms(4)] kv_out_ok [OF assms(5) d] i(4) r by simp
  show "kv_inv w (kv_written (map request (served t)) w) (kv_values lookup_data (hash_table t))"
    using kv_inv_table [OF assms(5)] i(4) r by (simp add: kv_written_snoc)
qed

lemma kv_lcores_run:
  assumes "(kv_step add_key_data lookup_data cksum)\<^sup>*\<^sup>* s t" "in_order dss s" "\<forall>ds \<in> set dss. \<forall>d \<in> set ds. 1066 \<le> length d"
    and "answers_ok w (served s)" "kv_inv w (kv_written (map request (served s)) w) (kv_values lookup_data (hash_table s))"
  shows "in_order dss t \<and> answers_ok w (served t) \<and>
    kv_inv w (kv_written (map request (served t)) w) (kv_values lookup_data (hash_table t))"
  using assms(1)
proof (induction rule: rtranclp_induct)
  case base
  show ?case using assms by simp
next
  case (step t u)
  then show ?case
    using kv_lcores_step [OF step.hyps(2) _ assms(3)] in_order_step by blast
qed

lemma kv_lcores_progress:
  assumes "in_order dss s" "\<forall>ds \<in> set dss. \<forall>d \<in> set ds. 1066 \<le> length d" "i < length (waiting s)" "waiting s ! i \<noteq> []"
  shows "\<exists>t. kv_step add_key_data lookup_data cksum s t"
proof -
  obtain d ds where d: "waiting s ! i = d # ds"
    using assms(4) by (auto simp: neq_Nil_conv)
  then have "1066 \<le> length d"
    using in_order_waiting [OF assms(1,3) d] assms(2) by blast
  then show ?thesis
    using kv_serve [OF assms(3) d dpdk_kv_work_single] by blast
qed

end

lemma good_frames:
  assumes "\<forall>envs \<in> set envss. \<forall>env \<in> set envs. good_burst env"
  shows "\<forall>ds \<in> set (map all_frames envss). \<forall>d \<in> set ds. 1066 \<le> length d"
  using assms by (auto simp: good_burst_def in_bounds_def frames_def)



end
