(* ===== verification/Zuc_Lcores.thy ===== *)
theory Zuc_Lcores
  imports Dpdk_Lcores_Forward Dpdk_Zuc Dpdk_Main
begin

text \<open>
  \<open>zuc.c\<close> on several lcores at once.  The registers of the cipher are globals of \<open>zuc.h\<close> that no lock protects, while
  \<open>w\<close> and the key stream belong to the call.  Here \<open>ZUC\<close> is the sequence of its calls of \<open>BitReorganization\<close>, \<open>F\<close> and the
  two \<open>LFSR\<close> functions, which are interleaved with those of the other lcores.
\<close>

section \<open>ZUC as a sequence of calls\<close>

text \<open>
  \<open>Expand\<close> is the key expansion at the start of \<open>Initialization\<close>, \<open>Init_mode j\<close> the call with \<open>w >> 1\<close> in the round with \<open>j\<close>
  rounds to go, \<open>Emit\<close> the exclusive-or with \<open>BRC_X3\<close> whose result is stored in the key stream.
\<close>

datatype zuc_call = Expand bytes | Reorganize | Call_F | Init_mode nat | Work_mode | Emit

fun do_zuc_call :: "(nat \<Rightarrow> zuc \<Rightarrow> u32) \<Rightarrow> zuc_call \<Rightarrow> u32 \<times> u32 list \<times> zuc \<Rightarrow> (u32 \<times> u32 list \<times> zuc) option" where
  "do_zuc_call junk (Expand k) (w, ks, st) = (if length k < 16 then None else Some (w, ks, expand_key k eea3_iv st))"
| "do_zuc_call junk Reorganize (w, ks, st) = Some (w, ks, BitReorganization st)"
| "do_zuc_call junk Call_F (w, ks, st) = (let (w, st) = F st in Some (w, ks, st))"
| "do_zuc_call junk (Init_mode j) (w, ks, st) =
     Some (w, ks, LFSRWithInitialisationMode (junk j st) (drop_bit 1 w) st)"
| "do_zuc_call junk Work_mode (w, ks, st) = Some (w, ks, LFSRWithWorkMode st)"
| "do_zuc_call junk Emit (w, ks, st) = Some (w, ks @ [w XOR BRC_X3 st], st)"

definition init_calls :: "nat \<Rightarrow> zuc_call list" where
  "init_calls n = concat (map (\<lambda>j. [Reorganize, Call_F, Init_mode j]) (rev [0..<n]))"

definition stream_calls :: "nat \<Rightarrow> zuc_call list" where
  "stream_calls n = [Reorganize, Call_F, Work_mode] @ concat (replicate n [Reorganize, Call_F, Emit, Work_mode])"

definition zuc_calls :: "nat \<Rightarrow> bytes \<Rightarrow> zuc_call list" where
  "zuc_calls n k = (Expand k # init_calls 32) @ stream_calls n"

text \<open>Without interruption the calls compute \<open>ZUC\<close>.\<close>

lemma run_init_calls: "\<exists>w'. for_each (do_zuc_call junk) (init_calls n) (w, ks, st) = Some (w', ks, init_rounds junk n st)"
proof (induction n arbitrary: w st)
  case 0
  then show ?case by (simp add: init_calls_def)
next
  case (Suc n)
  show ?case
    using Suc.IH by (auto simp: init_calls_def Let_def split: prod.split)
qed

lemma run_initialization:
  assumes "Initialization junk k eea3_iv st = Some st'"
  shows "\<exists>w'. for_each (do_zuc_call junk) (Expand k # init_calls 32) (w, ks, st) = Some (w', ks, st')"
  using assms run_init_calls [of junk 32 w ks "expand_key k eea3_iv st"] by (auto simp: Initialization_def split: if_splits)

lemma run_emits:
  "keystream_loop n st = (z, st') \<Longrightarrow>
     \<exists>w'. for_each (do_zuc_call junk) (concat (replicate n [Reorganize, Call_F, Emit, Work_mode])) (w, ks, st) = Some (w', ks @ z, st')"
proof (induction n arbitrary: w ks st z)
  case 0
  then show ?case by simp
next
  case (Suc n)
  obtain v st1 where f: "F (BitReorganization st) = (v, st1)"
    by fastforce
  obtain z1 where z: "keystream_loop n (LFSRWithWorkMode st1) = (z1, st')" "z = (v XOR BRC_X3 st1) # z1"
    using Suc.prems by (auto simp: f Let_def split: prod.splits)
  show ?case
    using Suc.IH [OF z(1), of v "ks @ [v XOR BRC_X3 st1]"] by (simp add: f z(2))
qed

lemma run_stream_calls:
  assumes "GenerateKeystream n st = (z, st')"
  shows "\<exists>w'. for_each (do_zuc_call junk) (stream_calls n) (w, ks, st) = Some (w', ks @ z, st')"
proof -
  obtain v st1 where f: "F (BitReorganization st) = (v, st1)"
    by fastforce
  then show ?thesis
    using assms run_emits [of n "LFSRWithWorkMode st1" z st' junk v ks] by (simp add: GenerateKeystream_def stream_calls_def)
qed

section \<open>Interleaving\<close>

text \<open>Of every lcore: the calls it has still to make, its \<open>w\<close>, and the key stream words it has generated.\<close>

type_synonym zuc_lcore = "zuc_call list \<times> u32 \<times> u32 list"

record zuc_lcores =
  registers :: zuc
  locals :: "zuc_lcore list"

inductive zuc_step :: "(nat \<Rightarrow> zuc \<Rightarrow> u32) \<Rightarrow> zuc_lcores \<Rightarrow> zuc_lcores \<Rightarrow> bool" for junk where
  zuc_access: "i < length (locals s) \<Longrightarrow> locals s ! i = (c # cs, w, ks) \<Longrightarrow>
    do_zuc_call junk c (w, ks, registers s) = Some (w', ks', st) \<Longrightarrow>
    zuc_step junk s \<lparr>registers = st, locals = (locals s)[i := (cs, w', ks')]\<rparr>"

inductive_cases zuc_stepE: "zuc_step junk s t"

text \<open>The calls for a frame: its key is at the start of the payload, and \<open>EEA3\<close> asks for \<open>L\<close> words.\<close>

definition zuc_frame_calls :: "bytes \<Rightarrow> zuc_call list" where
  "zuc_frame_calls d = zuc_calls (eea3_words (of_nat TOT_SIZE_B - 4)) (drop pay_off d)"

definition zuc_start :: "zuc \<Rightarrow> poll_env list list \<Rightarrow> zuc_lcores" where
  "zuc_start st envss =
     \<lparr>registers = st, locals = map (\<lambda>envs. (concat (map zuc_frame_calls (all_frames envs)), 0, [])) envss\<rparr>"

lemma zuc_frame_calls_eq: "zuc_frame_calls d = zuc_calls 32 (drop 42 d)"
  by (simp add: zuc_frame_calls_def const_defs zuc_words)

text \<open>A stretch in which only lcore \<open>i\<close> runs.\<close>

lemma zuc_runs:
  assumes "i < length (locals s)" "locals s ! i = (xs @ ys, w, ks)"
    and "for_each (do_zuc_call junk) xs (w, ks, registers s) = Some (w', ks', st)"
  shows "(zuc_step junk)\<^sup>*\<^sup>* s \<lparr>registers = st, locals = (locals s)[i := (ys, w', ks')]\<rparr>"
  using assms
proof (induction xs arbitrary: s w ks)
  case Nil
  then have "(locals s)[i := (ys, w', ks')] = locals s"
    using list_update_id [of "locals s" i] by simp
  then show ?case
    using Nil by (cases s) simp
next
  case (Cons x xs)
  obtain w1 ks1 st1 where x: "do_zuc_call junk x (w, ks, registers s) = Some (w1, ks1, st1)"
      "for_each (do_zuc_call junk) xs (w1, ks1, st1) = Some (w', ks', st)"
    using Cons.prems(3) by (auto simp: bind_Some_iff)
  let ?s = "\<lparr>registers = st1, locals = (locals s)[i := (xs @ ys, w1, ks1)]\<rparr>"
  have "zuc_step junk s ?s"
    using zuc_access [OF Cons.prems(1) _ x(1)] Cons.prems(2) by simp
  moreover have "(zuc_step junk)\<^sup>*\<^sup>* ?s \<lparr>registers = st, locals = (locals s)[i := (ys, w', ks')]\<rparr>"
    using Cons.IH [of ?s w1 ks1] Cons.prems(1) x(2) by simp
  ultimately show ?case
    by (rule converse_rtranclp_into_rtranclp)
qed

section \<open>Two lcores\<close>

text \<open>Two lcores one after the other, and with both keys loaded before the first key stream is generated.\<close>

lemma zuc_run_separate:
  assumes "ZUC junk K eea3_iv n st = Some (z, st1)" "ZUC junk K' eea3_iv n st1 = Some (z', st2)"
  shows "\<exists>v v'. (zuc_step junk)\<^sup>*\<^sup>* \<lparr>registers = st, locals = [(zuc_calls n K, 0, []), (zuc_calls n K', 0, [])]\<rparr>
    \<lparr>registers = st2, locals = [([], v, z), ([], v', z')]\<rparr>"
proof -
  have alone: "\<exists>v. for_each (do_zuc_call junk) (zuc_calls n k) (0, [], r) = Some (v, z, r')"
    if "ZUC junk k eea3_iv n r = Some (z, r')" for k r z r'
  proof -
    obtain a where a: "Initialization junk k eea3_iv r = Some a" "GenerateKeystream n a = (z, r')"
      using \<open>ZUC junk k eea3_iv n r = Some (z, r')\<close> by (auto simp: ZUC_def bind_Some_iff)
    obtain w where "for_each (do_zuc_call junk) (Expand k # init_calls 32) (0, [], r) = Some (w, [], a)"
      using run_initialization [OF a(1)] by blast
    then show ?thesis
      using run_stream_calls [OF a(2), of junk w "[]"] by (simp only: zuc_calls_def for_each_append) simp
  qed
  obtain v v' where v: "for_each (do_zuc_call junk) (zuc_calls n K) (0, [], st) = Some (v, z, st1)"
      "for_each (do_zuc_call junk) (zuc_calls n K') (0, [], st1) = Some (v', z', st2)"
    using alone [OF assms(1)] alone [OF assms(2)] by blast
  let ?s = "\<lparr>registers = st1, locals = [([], v, z), (zuc_calls n K', 0, [])]\<rparr>"
  have "(zuc_step junk)\<^sup>*\<^sup>* \<lparr>registers = st, locals = [(zuc_calls n K, 0, []), (zuc_calls n K', 0, [])]\<rparr> ?s"
    using zuc_runs [of 0 "\<lparr>registers = st, locals = [(zuc_calls n K, 0, []), (zuc_calls n K', 0, [])]\<rparr>" "zuc_calls n K" "[]"]
      v(1) by simp
  also have "(zuc_step junk)\<^sup>*\<^sup>* ?s \<lparr>registers = st2, locals = [([], v, z), ([], v', z')]\<rparr>"
    using zuc_runs [of 1 ?s "zuc_calls n K'" "[]"] v(2) by simp
  finally show ?thesis
    by blast
qed

lemma zuc_run_mixed:
  assumes "Initialization junk K eea3_iv st = Some a" "ZUC junk K' eea3_iv n a = Some (z, st1)"
    and "GenerateKeystream n st1 = (z', st2)"
  shows "\<exists>v v'. (zuc_step junk)\<^sup>*\<^sup>* \<lparr>registers = st, locals = [(zuc_calls n K, 0, []), (zuc_calls n K', 0, [])]\<rparr>
    \<lparr>registers = st2, locals = [([], v, z), ([], v', z')]\<rparr>"
proof -
  obtain b where b: "Initialization junk K' eea3_iv a = Some b" "GenerateKeystream n b = (z, st1)"
    using assms(2) by (auto simp: ZUC_def bind_Some_iff)
  obtain w where w: "for_each (do_zuc_call junk) (Expand K # init_calls 32) (0, [], st) = Some (w, [], a)"
    using run_initialization [OF assms(1)] by blast
  obtain w' where w': "for_each (do_zuc_call junk) (Expand K' # init_calls 32) (0, [], a) = Some (w', [], b)"
    using run_initialization [OF b(1)] by blast
  obtain v where v: "for_each (do_zuc_call junk) (stream_calls n) (w, [], b) = Some (v, z, st1)"
    using run_stream_calls [OF b(2), of junk w "[]"] by auto
  obtain v' where v': "for_each (do_zuc_call junk) (stream_calls n) (w', [], st1) = Some (v', z', st2)"
    using run_stream_calls [OF assms(3), of junk w' "[]"] by auto
  let ?start = "\<lparr>registers = st, locals = [(zuc_calls n K, 0, []), (zuc_calls n K', 0, [])]\<rparr>"
  let ?s = "\<lparr>registers = a, locals = [(stream_calls n, w, []), (zuc_calls n K', 0, [])]\<rparr>"
  let ?t = "\<lparr>registers = b, locals = [(stream_calls n, w, []), (stream_calls n, w', [])]\<rparr>"
  let ?u = "\<lparr>registers = st1, locals = [([], v, z), (stream_calls n, w', [])]\<rparr>"
  have "(zuc_step junk)\<^sup>*\<^sup>* ?start ?s"
    using zuc_runs [of 0 ?start "Expand K # init_calls 32" "stream_calls n" 0 "[]" junk w "[]" a] w
    by (simp only: zuc_calls_def) simp
  also have "(zuc_step junk)\<^sup>*\<^sup>* ?s ?t"
    using zuc_runs [of 1 ?s "Expand K' # init_calls 32" "stream_calls n" 0 "[]" junk w' "[]" b] w'
    by (simp only: zuc_calls_def) simp
  also have "(zuc_step junk)\<^sup>*\<^sup>* ?t ?u"
    using zuc_runs [of 0 ?t "stream_calls n" "[]"] v by simp
  also have "(zuc_step junk)\<^sup>*\<^sup>* ?u \<lparr>registers = st2, locals = [([], v, z), ([], v', z')]\<rparr>"
    using zuc_runs [of 1 ?u "stream_calls n" "[]"] v' by simp
  finally show ?thesis
    by blast
qed

text \<open>
  C14: two lcores that encrypt a frame each can end with the key streams of the two keys, but also with lcore 0 having
  encrypted its message under the key of the other frame, and lcore 1 its own with a stretch of that key stream from further on.
\<close>

theorem zuc_lcores_wrong_key:
  assumes "good_burst e" "frames e = [d]" "good_burst e'" "frames e' = [d']"
  shows "\<exists>z z' st1 st1'. ZUC junk (drop 42 d) eea3_iv 32 st = Some (z, st1) \<and> ZUC junk (drop 42 d') eea3_iv 32 st = Some (z', st1') \<and>
    (\<exists>s v v'. (zuc_step junk)\<^sup>*\<^sup>* (zuc_start st [[e], [e']]) s \<and> locals s = [([], v, z), ([], v', z')]) \<and>
    (\<exists>s v v'. (zuc_step junk)\<^sup>*\<^sup>* (zuc_start st [[e], [e']]) s \<and>
       locals s = [([], v, z'), ([], v', fst (GenerateKeystream 32 st1'))])"
proof -
  have "1066 \<le> length d" "1066 \<le> length d'"
    using good_frames [of "[[e], [e']]"] assms by simp_all
  then have key: "16 \<le> length (drop 42 d)" "16 \<le> length (drop 42 d')" "16 \<le> length eea3_iv"
    by simp_all
  have start: "zuc_start st [[e], [e']] = \<lparr>registers = st, locals = [(zuc_calls 32 (drop 42 d), 0, []), (zuc_calls 32 (drop 42 d'), 0, [])]\<rparr>"
    by (simp add: zuc_start_def assms zuc_frame_calls_eq)
  obtain a where a: "Initialization junk (drop 42 d) eea3_iv st = Some a"
    using Initialization_eq [OF key(1,3), of junk] by metis
  obtain z st1 where z: "ZUC junk (drop 42 d) eea3_iv 32 st = Some (z, st1)"
    using a by (cases "GenerateKeystream 32 a") (simp add: ZUC_def)
  obtain z' st1' where z': "\<And>st. ZUC junk (drop 42 d') eea3_iv 32 st = Some (z', st1')"
    using ZUC_eq [OF key(2,3), of junk 32] by (metis surj_pair)
  obtain v v' where separate: "(zuc_step junk)\<^sup>*\<^sup>* (zuc_start st [[e], [e']]) \<lparr>registers = st1', locals = [([], v, z), ([], v', z')]\<rparr>"
    using zuc_run_separate [OF z z'] unfolding start by blast
  obtain u u' where mixed: "(zuc_step junk)\<^sup>*\<^sup>* (zuc_start st [[e], [e']]) \<lparr>registers = snd (GenerateKeystream 32 st1'),
      locals = [([], u, z'), ([], u', fst (GenerateKeystream 32 st1'))]\<rparr>"
    using zuc_run_mixed [OF a z' prod.collapse [symmetric]] unfolding start by blast
  from z z' [of st] separate mixed show ?thesis
    by (metis zuc_lcores.select_convs(2))
qed

theorem zuc_lcores_wrong_key_witness:
  "\<exists>s v v' z st1 ks. (zuc_step (\<lambda>_. LFSR_S0))\<^sup>*\<^sup>* (zuc_start some_registers
      [[burst_of [dpdk_frame_of (replicate 256 1)]], [burst_of [dpdk_frame_of (replicate 256 2)]]]) s \<and>
    ZUC (\<lambda>_. LFSR_S0) (drop 42 (dpdk_frame_of (replicate 256 2))) eea3_iv 32 some_registers = Some (z, st1) \<and>
    locals s = [([], v, z), ([], v', ks)]"
  using zuc_lcores_wrong_key [of "burst_of [dpdk_frame_of (replicate 256 1)]" "dpdk_frame_of (replicate 256 1)"
      "burst_of [dpdk_frame_of (replicate 256 2)]" "dpdk_frame_of (replicate 256 2)" "\<lambda>_. LFSR_S0" some_registers]
    burst_of_facts [of "[replicate 256 1]"] burst_of_facts [of "[replicate 256 2]"]
  by fastforce

section \<open>Any number of lcores\<close>

text \<open>What is never lost in spite of the interleaving: keys are long enough, and the words to come.\<close>

definition zuc_calls_ok :: "zuc_call list \<Rightarrow> bool" where
  "zuc_calls_ok cs \<longleftrightarrow> (\<forall>k. Expand k \<in> set cs \<longrightarrow> 16 \<le> length k)"

definition zuc_lcore_ok :: "nat \<Rightarrow> zuc_lcore \<Rightarrow> bool" where
  "zuc_lcore_ok n l \<longleftrightarrow> zuc_calls_ok (fst l) \<and> length (snd (snd l)) + count_list (fst l) Emit = n"

definition zuc_wf :: "nat list \<Rightarrow> zuc_lcores \<Rightarrow> bool" where
  "zuc_wf ns s \<longleftrightarrow> length (locals s) = length ns \<and>
     (\<forall>i<length ns. zuc_lcore_ok (ns ! i) (locals s ! i))"

lemma do_zuc_call_wf:
  assumes "do_zuc_call junk c (w, ks, st) = Some (w', ks', st')"
  shows "length ks' = length ks + count_list [c] Emit"
  using assms by (cases c) (auto simp: Let_def split: if_splits prod.splits)

lemma do_zuc_call_defined: "zuc_calls_ok (c # cs) \<Longrightarrow> \<exists>w' ks' st'. do_zuc_call junk c (w, ks, st) = Some (w', ks', st')"
  by (cases c) (auto simp: zuc_calls_ok_def Let_def split: prod.splits)

lemma do_zuc_call_ok:
  assumes "do_zuc_call junk c (w, ks, st) = Some (w', ks', st')" "lfsr_ok st \<or> (\<exists>k. c = Expand k)"
    and "\<And>n st. lfsr_ok st \<Longrightarrow> unat (junk n st) \<le> zp"
  shows "lfsr_ok st'"
proof (cases c)
  case (Expand k)
  then show ?thesis
    using assms(1) loaded_ok [OF loaded_expand_key] by (auto split: if_splits)
next
  case Call_F
  then have "st' = snd (F st)"
    using assms(1) by (auto simp: Let_def split: prod.splits)
  then show ?thesis
    using assms(2) Call_F by simp
next
  case (Init_mode j)
  then show ?thesis
    using assms(1,2) init_mode_ok [OF _ assms(3) unat_half, of st st j w] by auto
qed (use assms(1,2) work_mode_ok [of st] in auto)

lemma zuc_wf_step:
  assumes "zuc_step junk s t" "zuc_wf ns s"
  shows "zuc_wf ns t"
  using assms(1)
proof (rule zuc_stepE)
  fix i c cs w ks w' ks' st
  assume i: "t = \<lparr>registers = st, locals = (locals s)[i := (cs, w', ks')]\<rparr>" "i < length (locals s)"
    "locals s ! i = (c # cs, w, ks)" "do_zuc_call junk c (w, ks, registers s) = Some (w', ks', st)"
  have len: "length (locals s) = length ns" and each: "\<And>j. j < length ns \<Longrightarrow> zuc_lcore_ok (ns ! j) (locals s ! j)"
    using assms(2) by (simp_all add: zuc_wf_def)
  have "zuc_lcore_ok (ns ! i) (c # cs, w, ks)"
    using each [of i] i(2,3) len by simp
  then have "zuc_lcore_ok (ns ! i) (cs, w', ks')"
    using do_zuc_call_wf [OF i(4)] by (auto simp: zuc_lcore_ok_def zuc_calls_ok_def split: if_splits)
  then have "zuc_lcore_ok (ns ! j) ((locals s)[i := (cs, w', ks')] ! j)" if "j < length ns" for j
    using each [OF that] that len by (cases "j = i") simp_all
  then show ?thesis
    using len by (simp add: zuc_wf_def i(1))
qed

lemma zuc_wf_start:
  assumes "\<forall>envs \<in> set envss. \<forall>env \<in> set envs. good_burst env"
  shows "zuc_wf (map (\<lambda>envs. 32 * length (all_frames envs)) envss) (zuc_start st envss)"
proof -
  have calls: "Emit \<notin> set (init_calls n)" "Expand k \<notin> set (init_calls n)" "Expand k \<notin> set (stream_calls n)"
      "count_list (stream_calls n) Emit = n" for n k
    by (induction n) (auto simp: init_calls_def stream_calls_def)
  have "zuc_lcore_ok (32 * length ds) (concat (map zuc_frame_calls ds), 0, [])" if "\<forall>d \<in> set ds. 1066 \<le> length d" for ds
    using that calls
    by (induction ds) (auto simp: zuc_lcore_ok_def zuc_calls_ok_def zuc_frame_calls_eq zuc_calls_def count_list_0_iff)
  moreover have "\<forall>d \<in> set (all_frames (envss ! i)). 1066 \<le> length d" if "i < length envss" for i
    using good_frames [OF assms] nth_mem [OF that] by (auto simp del: nth_mem)
  ultimately show ?thesis
    by (simp add: zuc_wf_def zuc_start_def)
qed

text \<open>Every call in the start state that can be made is a key expansion.\<close>

lemma zuc_start_expands:
  assumes "i < length envss" "locals (zuc_start st envss) ! i = (c # cs, w, ks)"
  shows "\<exists>k. c = Expand k"
  using assms
  by (cases "all_frames (envss ! i)") (auto simp: zuc_start_def zuc_frame_calls_eq zuc_calls_def)



end
