(* ===== verification/Dpdk_Log.thy ===== *)
theory Dpdk_Log
  imports Dpdk_Env
begin

text \<open>
  \<open>calc_latency\<close> of the timed DPDK programs on several lcores.  All lcores append their latencies to one file through one
  global \<open>FILE *wfptr\<close>, which every call opens and closes again under the lock \<open>rwl\<close>.  In \<open>Dpdk_Env\<close> a call is one
  step; here it is the sequence of its calls to the library, interleaved with those of the other lcores.  The lock is
  \<open>rte_rwlock_t\<close>: \<open>rte_rwlock_write_lock\<close> waits until no other lcore holds it.
\<close>

section \<open>The calls\<close>

datatype log_call = Write_lock | Fopen | Fprintf u64 | Fclose | Write_unlock

definition calc_latency_calls :: "u64 \<Rightarrow> u16 \<Rightarrow> log_call list" where
  "calc_latency_calls latency nb_pkts =
     [Write_lock, Fopen] @ map (\<lambda>i. Fprintf (latency div ucast nb_pkts)) [0..<unat nb_pkts] @ [Fclose, Write_unlock]"

text \<open>
  The lock, the lines in the buffer of the open stream (\<^const>\<open>None\<close>: \<open>wfptr\<close> refers to no open stream), the file, and whether
  the process has ended; the calls that each lcore has still to make; and who has closed the stream with which lines.
\<close>

record log_state =
  lock_owner :: "nat option"
  wfptr :: "u64 list option"
  log_file :: "u64 list"
  exited :: bool
  pending :: "log_call list list"
  logged :: "(nat \<times> u64 list) list"

text \<open>\<^const>\<open>None\<close>: the lcore has to wait for the lock, or uses a stream that is not open, which is undefined.\<close>

fun do_log :: "nat \<Rightarrow> log_call \<Rightarrow> log_state \<Rightarrow> log_state option" where
  "do_log i Write_lock s = (if lock_owner s = None then Some (s\<lparr>lock_owner := Some i\<rparr>) else None)"
| "do_log i Fopen s = Some (s\<lparr>wfptr := Some []\<rparr>)"
| "do_log i (Fprintf v) s = (case wfptr s of None \<Rightarrow> None | Some b \<Rightarrow> Some (s\<lparr>wfptr := Some (b @ [v])\<rparr>))"
| "do_log i Fclose s = (case wfptr s of None \<Rightarrow> None
     | Some b \<Rightarrow> Some (s\<lparr>wfptr := None, log_file := log_file s @ b, logged := logged s @ [(i, b)]\<rparr>))"
| "do_log i Write_unlock s = Some (s\<lparr>lock_owner := None\<rparr>)"

text \<open>\<open>fopen\<close> may fail: \<open>exit(1)\<close>, which ends the process with all its lcores.\<close>

inductive log_step :: "log_state \<Rightarrow> log_state \<Rightarrow> bool" where
  log_call: "\<not> exited s \<Longrightarrow> i < length (pending s) \<Longrightarrow> pending s ! i = c # cs \<Longrightarrow> do_log i c s = Some t \<Longrightarrow>
    log_step s (t\<lparr>pending := (pending s)[i := cs]\<rparr>)"
| log_no_file: "\<not> exited s \<Longrightarrow> i < length (pending s) \<Longrightarrow> pending s ! i = Fopen # cs \<Longrightarrow> log_step s (s\<lparr>exited := True\<rparr>)"

code_pred log_step .

definition log_start :: "u64 list \<Rightarrow> (u64 \<times> u16) list list \<Rightarrow> log_state" where
  "log_start file calls = \<lparr>lock_owner = None, wfptr = None, log_file = file, exited = False,
     pending = map (\<lambda>cs. concat (map (\<lambda>(latency, nb). calc_latency_calls latency nb) cs)) calls, logged = []\<rparr>"

section \<open>Blocks\<close>

text \<open>The lines of one call.\<close>

definition log_block :: "u64 \<times> u16 \<Rightarrow> u64 list" where
  "log_block = (\<lambda>(latency, nb). replicate (unat nb) (latency div ucast nb))"

lemma calc_latency_block:
  "calc_latency scale env nb st =
    (if file_ok env then Inr (emit (map Log (log_block (scale (now env - per_lcore_cycles st), nb))) st) else Inl No_file)"
  by (simp add: calc_latency_def log_block_def)

definition log_calls :: "u64 list list \<Rightarrow> log_call list" where
  "log_calls bs = concat (map (\<lambda>vs. [Write_lock, Fopen] @ map Fprintf vs @ [Fclose, Write_unlock]) bs)"

lemma log_calls_simps [simp]:
  "log_calls [] = []"
  "log_calls (vs # bs) = Write_lock # Fopen # map Fprintf vs @ [Fclose, Write_unlock] @ log_calls bs"
  by (simp_all add: log_calls_def)

lemma calc_latency_calls_block: "concat (map (\<lambda>(latency, nb). calc_latency_calls latency nb) cs) = log_calls (map log_block cs)"
  by (induction cs) (auto simp: calc_latency_calls_def log_block_def map_replicate_const)

definition written_by :: "nat \<Rightarrow> (nat \<times> u64 list) list \<Rightarrow> u64 list list" where
  "written_by i es = map snd (filter (\<lambda>e. fst e = i) es)"

lemma written_by_simps [simp]:
  "written_by i [] = []"
  "written_by i (es @ [(j, b)]) = written_by i es @ (if j = i then [b] else [])"
  by (simp_all add: written_by_def)

section \<open>Mutual exclusion\<close>

text \<open>Where an lcore that holds the lock can be, with the blocks it has still to write.\<close>

inductive log_busy :: "u64 list list \<Rightarrow> u64 list option \<Rightarrow> log_call list \<Rightarrow> bool" where
  busy_open: "log_busy (vs # bs) None (Fopen # map Fprintf vs @ [Fclose, Write_unlock] @ log_calls bs)"
| busy_print: "log_busy ((us @ vs) # bs) (Some us) (map Fprintf vs @ [Fclose, Write_unlock] @ log_calls bs)"
| busy_unlock: "log_busy bs None (Write_unlock # log_calls bs)"

definition log_at :: "log_state \<Rightarrow> nat \<Rightarrow> u64 list list \<Rightarrow> bool" where
  "log_at s i bs \<longleftrightarrow> (if lock_owner s = Some i then log_busy bs (wfptr s) (pending s ! i) else pending s ! i = log_calls bs)"

text \<open>The stream is open only while its lcore holds the lock; all other lcores are between two calls.\<close>

definition log_inv :: "u64 list \<Rightarrow> u64 list list list \<Rightarrow> log_state \<Rightarrow> bool" where
  "log_inv old bss s \<longleftrightarrow> length (pending s) = length bss \<and> log_file s = old @ concat (map snd (logged s)) \<and>
     (\<forall>i<length bss. \<exists>bs. written_by i (logged s) @ bs = bss ! i \<and> log_at s i bs) \<and>
     (lock_owner s = None \<longrightarrow> wfptr s = None) \<and> (\<forall>h. lock_owner s = Some h \<longrightarrow> h < length bss)"

lemma log_inv_start: "log_inv old (map (map log_block) calls) (log_start old calls)"
  by (simp add: log_inv_def log_at_def log_start_def calc_latency_calls_block)

text \<open>The next call of an lcore that has one is possible, unless it waits for the lock.\<close>

lemma busy_next:
  assumes "log_busy bs w xs"
  obtains (at_open) vs bs' cs where "w = None" "xs = Fopen # cs" "bs = vs # bs'"
      "log_busy bs (Some []) cs"
  | (at_print) us v cs where "w = Some us" "xs = Fprintf v # cs" "log_busy bs (Some (us @ [v])) cs"
  | (at_close) us bs' cs where "w = Some us" "xs = Fclose # cs" "bs = us # bs'" "log_busy bs' None cs"
  | (at_unlock) "w = None" "xs = Write_unlock # log_calls bs"
  using assms
proof cases
  case (busy_open vs bs')
  then show ?thesis
    using at_open log_busy.busy_print [of "[]" vs bs'] by simp
next
  case (busy_print us vs bs')
  show ?thesis
  proof (cases vs)
    case Nil
    then show ?thesis
      using busy_print at_close log_busy.busy_unlock [of bs'] by simp
  next
    case (Cons v vs')
    then show ?thesis
      using busy_print at_print log_busy.busy_print [of "us @ [v]" vs' bs'] by simp
  qed
next
  case busy_unlock
  then show ?thesis
    using at_unlock by simp
qed

lemma log_inv_call:
  assumes "log_inv old bss s" "i < length (pending s)" "pending s ! i = c # cs" "do_log i c s = Some t"
  shows "log_inv old bss (t\<lparr>pending := (pending s)[i := cs]\<rparr>)"
proof -
  have i: "i < length bss" and len: "length (pending s) = length bss"
    and old: "log_file s = old @ concat (map snd (logged s))"
    and each: "\<And>j. j < length bss \<Longrightarrow> \<exists>bs. written_by j (logged s) @ bs = bss ! j \<and> log_at s j bs"
    using assms(1,2) by (simp_all add: log_inv_def)
  obtain bs where bs: "written_by i (logged s) @ bs = bss ! i" "log_at s i bs"
    using each [OF i] by blast
  let ?t = "t\<lparr>pending := (pending s)[i := cs]\<rparr>"
  have other: "\<exists>bs. written_by j (logged s) @ bs = bss ! j \<and> log_at ?t j bs"
    if "j < length bss" "j \<noteq> i" "lock_owner s \<noteq> Some j" "lock_owner t \<noteq> Some j" for j
    using each [OF that(1)] that by (simp add: log_at_def)
  show ?thesis
  proof (cases "lock_owner s = Some i")
    case False
    then obtain vs bs' where b: "bs = vs # bs'" "c = Write_lock" "cs = Fopen # map Fprintf vs @ [Fclose, Write_unlock] @ log_calls bs'"
      using bs(2) assms(3) by (cases bs) (auto simp: log_at_def)
    then have t: "lock_owner s = None" "t = s\<lparr>lock_owner := Some i\<rparr>"
      using assms(4) by (auto split: if_splits)
    then have "log_at ?t i bs"
      using assms(1) busy_open [of vs bs'] len i by (simp add: log_at_def log_inv_def b)
    then have "\<exists>bs. written_by j (logged s) @ bs = bss ! j \<and> log_at ?t j bs" if "j < length bss" for j
      using other [OF that] bs(1) t by (cases "j = i") auto
    then show ?thesis
      using len old i by (simp add: log_inv_def t)
  next
    case True
    then have own: "lock_owner s \<noteq> Some j" if "j \<noteq> i" for j
      using that by simp
    have "log_busy bs (wfptr s) (c # cs)"
      using bs(2) True assms(3) by (simp add: log_at_def)
    then obtain e bs' where t: "log_file t = log_file s @ concat (map snd e)" "logged t = logged s @ e"
        "written_by i (logged t) @ bs' = bss ! i" "log_at ?t i bs'" "\<forall>x \<in> set e. fst x = i"
        "lock_owner t = Some i \<or> lock_owner t = None \<and> wfptr t = None" "length (pending t) = length (pending s)"
    proof (cases rule: busy_next)
      case at_open
      with assms(4) True bs(1) i len show ?thesis
        by (intro that [of "[]" bs]) (auto simp: log_at_def)
    next
      case (at_print us v cs)
      with assms(4) True bs(1) i len show ?thesis
        by (intro that [of "[]" bs]) (auto simp: log_at_def)
    next
      case (at_close us bs' cs)
      with assms(4) True bs(1) i len show ?thesis
        by (intro that [of "[(i, us)]" bs']) (auto simp: log_at_def)
    next
      case at_unlock
      with assms(4) True bs(1) i len show ?thesis
        by (intro that [of "[]" bs]) (auto simp: log_at_def)
    qed
    have "written_by j (logged t) = written_by j (logged s)" if "j \<noteq> i" for j
      using t(2,5) that by (auto simp: written_by_def filter_empty_conv)
    then have "\<exists>bs. written_by j (logged t) @ bs = bss ! j \<and> log_at ?t j bs" if "j < length bss" for j
      using other [OF that] own [of j] t(3,4,6) by (cases "j = i") auto
    then show ?thesis
      using len old i t(1,2,6) by (auto simp: log_inv_def)
  qed
qed

lemma log_inv_step: "log_step s t \<Longrightarrow> log_inv old bss s \<Longrightarrow> log_inv old bss t"
proof (erule log_step.cases)
  assume inv: "log_inv old bss s"
  fix u i cs
  assume "s = u" "t = u\<lparr>exited := True\<rparr>"
  then have "log_at t j bs = log_at s j bs" for j bs
    by (simp add: log_at_def)
  with inv \<open>s = u\<close> \<open>t = u\<lparr>exited := True\<rparr>\<close> show "log_inv old bss t"
    by (simp add: log_inv_def)
qed (auto intro: log_inv_call)

lemma log_inv_steps: "log_step\<^sup>*\<^sup>* s t \<Longrightarrow> log_inv old bss s \<Longrightarrow> log_inv old bss t"
  by (induction rule: rtranclp_induct) (auto intro: log_inv_step)

lemma log_inv_enabled:
  assumes "log_inv old bss s" "i < length (pending s)" "pending s ! i = c # cs" "c \<noteq> Write_lock"
  shows "lock_owner s = Some i \<and> (\<exists>t. do_log i c s = Some t)"
proof -
  obtain bs where bs: "log_at s i bs"
    using assms(1,2) by (auto simp: log_inv_def)
  have own: "lock_owner s = Some i"
    using bs assms(3,4) by (cases bs) (auto simp: log_at_def split: if_splits)
  with bs have "log_busy bs (wfptr s) (c # cs)"
    using assms(3) by (simp add: log_at_def)
  then show ?thesis
    by (cases rule: busy_next) (use own in auto)
qed

lemma log_inv_progress:
  assumes "log_inv old bss s" "\<not> exited s" "\<exists>xs \<in> set (pending s). xs \<noteq> []"
  shows "\<exists>t. log_step s t"
proof (cases "lock_owner s")
  case None
  obtain i c cs where i: "i < length (pending s)" "pending s ! i = c # cs"
    using assms(3) by (auto simp: in_set_conv_nth neq_Nil_conv)
  have "\<exists>t. do_log i c s = Some t"
    using None log_inv_enabled [OF assms(1) i] by (cases "c = Write_lock") auto
  then show ?thesis
    using log_call [OF assms(2) i] by blast
next
  case (Some h)
  then obtain bs where h: "h < length (pending s)" "log_busy bs (wfptr s) (pending s ! h)"
    using assms(1) by (fastforce simp: log_inv_def log_at_def)
  obtain c cs where c: "pending s ! h = c # cs" "c \<noteq> Write_lock"
    using h(2) by (cases rule: busy_next) auto
  then show ?thesis
    using log_call [OF assms(2) h(1) c(1)] log_inv_enabled [OF assms(1) h(1) c] by blast
qed

text \<open>
  C16: whatever the interleaving of the lcores, and also when \<open>fopen\<close> fails in one of them: the file holds the lines of whole
  calls of \<open>calc_latency\<close>, one after the other, those of every lcore in its order; only the lcore that holds the lock
  uses the stream, and it is open whenever it is used; and as long as the process has not ended and calls are
  outstanding one of them is possible (no deadlock).
\<close>

theorem log_blocks:
  assumes "log_step\<^sup>*\<^sup>* (log_start old calls) s"
  shows "log_file s = old @ concat (map snd (logged s)) \<and>
    (\<forall>i<length calls. \<exists>rest. written_by i (logged s) @ rest = map log_block (calls ! i) \<and> (pending s ! i = [] \<longrightarrow> rest = [])) \<and>
    (\<forall>i<length calls. \<forall>c cs. pending s ! i = c # cs \<and> c \<noteq> Write_lock \<longrightarrow>
      lock_owner s = Some i \<and> (\<exists>t. do_log i c s = Some t)) \<and>
    (\<not> exited s \<and> (\<exists>xs \<in> set (pending s). xs \<noteq> []) \<longrightarrow> (\<exists>t. log_step s t))"
proof -
  have inv: "log_inv old (map (map log_block) calls) s"
    by (rule log_inv_steps [OF assms log_inv_start])
  have "\<exists>rest. written_by i (logged s) @ rest = map log_block (calls ! i) \<and> (pending s ! i = [] \<longrightarrow> rest = [])"
    if i: "i < length calls" for i
  proof -
    obtain bs where "written_by i (logged s) @ bs = map log_block (calls ! i)" "log_at s i bs"
      using inv i by (auto simp: log_inv_def)
    then show ?thesis
      by (intro exI [of _ bs]) (auto elim: log_busy.cases simp: log_at_def log_calls_def split: if_splits)
  qed
  moreover have "log_file s = old @ concat (map snd (logged s))" "length (pending s) = length calls"
    using inv by (simp_all add: log_inv_def)
  ultimately show ?thesis
    using log_inv_enabled [OF inv] log_inv_progress [OF inv] by (intro conjI) auto
qed

text \<open>Two lcores with one packet each; the second waits for the lock.\<close>

theorem log_blocks_witness:
  "\<exists>s. log_step\<^sup>*\<^sup>* (log_start [1] [[(6, 2)], [(5, 1)]]) s \<and> lock_owner s = Some 0 \<and> log_file s = [1] \<and> (\<exists>t. log_step s t)"
proof -
  let ?cs = "[Fopen, Fprintf 3, Fprintf 3, Fclose, Write_unlock]" and ?ds = "[Write_lock, Fopen, Fprintf 5, Fclose, Write_unlock]"
  let ?init = "\<lparr>lock_owner = None, wfptr = None, log_file = [1], exited = False, pending = [Write_lock # ?cs, ?ds], logged = []\<rparr>"
  let ?s = "?init\<lparr>lock_owner := Some 0, pending := [?cs, ?ds]\<rparr>"
  have calls: "calc_latency_calls 6 2 = Write_lock # ?cs" "calc_latency_calls 5 1 = ?ds"
    by code_simp+
  have start: "log_start [1] [[(6, 2)], [(5, 1)]] = ?init"
    unfolding log_start_def by (simp only: list.map concat.simps prod.case calls append_Nil2)
  have "log_step ?init ?s"
    using log_call [of ?init 0 Write_lock ?cs "?init\<lparr>lock_owner := Some 0\<rparr>"] by simp
  then have run: "log_step\<^sup>*\<^sup>* (log_start [1] [[(6, 2)], [(5, 1)]]) ?s"
    unfolding start by blast
  moreover have "\<exists>t. log_step ?s t"
    using log_blocks [OF run] by (elim conjE mp) simp
  ultimately show ?thesis
    by (intro exI [of _ ?s]) simp
qed

end
