(* ===== verification/Dpdk_Loadbalance.thy ===== *)
theory Dpdk_Loadbalance
  imports Dpdk_Main Xdp_Forward
begin

text \<open>
  \<open>src/dpdk/loadbalancing/loadbalancing.c\<close>: a load balancer that was left unfinished.  Two things are missing in its
  \<open>lcore_main\<close>: \<open>rte_que_id\<close>, which is not declared, is a parameter, and the queue argument of
  \<open>rte_eth_tx_burst(port, , &pkt, 1)\<close> is not part of the model.  The other functions are complete.  \<open>sdbm\<close> is that of the XDP
  load balancer.
\<close>

unbundle bit_operations_syntax

section \<open>Latencies\<close>

definition LB_BURST_SIZE :: nat where
  "LB_BURST_SIZE = 32"

text \<open>The global \<open>cycles[BURST_SIZE]\<close>: a write past its end is undefined.\<close>

definition lb_rx_latency :: "u64 \<Rightarrow> nat \<Rightarrow> u64 list \<Rightarrow> u64 list option" where
  "lb_rx_latency t nb_pkts cycles =
     for_each (\<lambda>i cycles. if i < length cycles then Some (cycles[i := t]) else None) [0..<nb_pkts] cycles"

text \<open>
  \<open>calc_latency\<close>, a callback on transmission: the time since the last burst was received, once for every packet sent, is
  written to the file, not divided by their number.
\<close>

definition lb_calc_latency :: "(u64 \<Rightarrow> u64) \<Rightarrow> u64 \<Rightarrow> bool \<Rightarrow> nat \<Rightarrow> u64 list \<Rightarrow> (exit_reason + u64 list) option" where
  "lb_calc_latency scale t can_open nb_pkts cycles = (
     if cycles = [] then None
     else let latency = scale (t - cycles ! 0) in
       if \<not> can_open then Some (Inl No_file) else Some (Inr (replicate nb_pkts latency)))"

section \<open>The port\<close>

text \<open>Unlike the other programs, this one configures the port with the configuration it has prepared.\<close>

definition lb_conf :: "eth_driver \<Rightarrow> dev_info \<Rightarrow> eth_conf" where
  "lb_conf drv dev = (if tx_offload_capa dev AND TX_OFFLOAD_MBUF_FAST_FREE drv \<noteq> 0
     then zero_conf\<lparr>tx_offloads := tx_offloads zero_conf OR TX_OFFLOAD_MBUF_FAST_FREE drv\<rparr> else zero_conf)"

definition lb_port_init :: "eth_driver \<Rightarrow> u16 \<Rightarrow> proc \<Rightarrow> int \<times> proc" where
  "lb_port_init drv port s = (
     let rx_rings = core_que_nr s;
         tx_rings = core_que_nr s;
         valid = reply drv (calls s) (Is_valid_port port);
         s = s\<lparr>calls := calls s @ [Is_valid_port port]\<rparr>
     in if valid = 0 then (- 1, s)
     else eth drv (\<lambda>r. r \<noteq> 0) (Dev_info_get port) (
       let dev = info drv port;
           conf = lb_conf drv dev
       in eth drv (\<lambda>r. r \<noteq> 0) (Dev_configure port rx_rings tx_rings conf) (
       eth drv (\<lambda>r. r \<noteq> 0) (Adjust_nb_desc port RING_SIZE RING_SIZE) (
       let (nb_rxd, nb_txd) = adjusted drv port (RING_SIZE, RING_SIZE)
       in eth_all drv (\<lambda>r. r < 0) (map (\<lambda>q. Rx_queue_setup port q nb_rxd) (queues rx_rings)) (
       let txconf = (default_txconf dev)\<lparr>txconf_offloads := tx_offloads conf\<rparr>
       in eth_all drv (\<lambda>r. r < 0) (map (\<lambda>q. Tx_queue_setup port q nb_txd txconf) (queues tx_rings)) (
       eth drv (\<lambda>r. r < 0) (Dev_start port) (
       eth drv (\<lambda>r. r \<noteq> 0) (Macaddr_get port) (
       eth drv (\<lambda>r. r \<noteq> 0) (Promiscuous_enable port) (
       eth_all drv (\<lambda>_. False) [Add_rx_callback port 0, Add_tx_callback port 0]
       (\<lambda>s. (0, s)))))))))) s)"

section \<open>Polling\<close>

text \<open>
  \<open>uint8_t load_b_queue = sdbm(\<dots>) % core_que_nr\<close>: a signed remainder, cut to 8 bits; no queues at all is a division
  by zero.
\<close>

definition load_b_queue :: "u16 \<Rightarrow> bytes \<Rightarrow> u8 option" where
  "load_b_queue nr src_addr =
     (if nr = 0 then None else Some (of_int (c_rem (sdbm src_addr) (uint nr))))"

text \<open>
  One poll of a port: \<open>sent i\<close> is what the send of packet \<open>i\<close> returns.  Packets of this queue are left as they are.
\<close>

definition lb_poll :: "u16 \<Rightarrow> int \<Rightarrow> (nat \<Rightarrow> u16) \<Rightarrow> mbuf list \<Rightarrow> dpdk_event list option" where
  "lb_poll nr rte_que_id sent bufs = (
     if bufs = [] then Some []
     else do {
       (nb_tx, es) \<leftarrow> for_each (\<lambda>i (nb_tx, es). do {
         ether_type \<leftarrow> rd16 (room (bufs ! i)) 12;
         if ntohs ether_type \<noteq> 0x0800 then Some (nb_tx, es)
         else do {
           src_addr \<leftarrow> rd_bytes (room (bufs ! i)) (ip_off + 12) 4;
           q \<leftarrow> load_b_queue nr src_addr;
           if uint q = rte_que_id then Some (nb_tx, es)
           else Some (nb_tx + sent i, es @ [Tx_burst [bufs ! i] (unat (sent i))])
         }
       }) [0..<length bufs] (0 :: u16, []);
       Some (es @ (if unat nb_tx < length bufs then map (\<lambda>m. Pktmbuf_free (mid m)) (drop (unat nb_tx) bufs) else []))
     })"

text \<open>\<open>for (;;)\<close>: all polls until the process is killed.\<close>

definition lb_lcore :: "u16 \<Rightarrow> int \<Rightarrow> ((nat \<Rightarrow> u16) \<times> mbuf list) list \<Rightarrow> dpdk_event list option" where
  "lb_lcore nr rte_que_id polls =
     for_each (\<lambda>(sent, bufs) es. do { es' \<leftarrow> lb_poll nr rte_que_id sent bufs; Some (es @ es') }) polls []"

section \<open>The process\<close>

definition lb_start :: "host \<Rightarrow> proc \<Rightarrow> (start_error + unit) \<times> proc" where
  "lb_start h s = (
     if eal_init h < 0 then (Inl No_eal, s)
     else if count_avail h \<noteq> 1 then (Inl Need_one_port, s)
     else let s = s\<lparr>core_que_nr := ucast (lcore_count h)\<rparr>
     in if \<not> pool_create h (8191 * count_avail h * ucast (core_que_nr s)) then (Inl No_pool, s)
     else init_ports lb_port_init (driver h) (eth_ports h) s)"

definition lb_main :: "int \<Rightarrow> ((nat \<Rightarrow> u16) \<times> mbuf list) list \<Rightarrow> host \<Rightarrow> proc \<Rightarrow> (start_error + dpdk_event list) option \<times> proc" where
  "lb_main rte_que_id polls h s = (
     case lb_start h s of
       (Inl x, s) \<Rightarrow> (Some (Inl x), s)
     | (Inr _, s) \<Rightarrow> (map_option Inr (lb_lcore (core_que_nr s) rte_que_id polls), s))"

section \<open>The port follows its plan\<close>

definition lb_plan :: "eth_driver \<Rightarrow> u16 \<Rightarrow> u16 \<Rightarrow> eth_call list" where
  "lb_plan drv n port = (let conf = lb_conf drv (info drv port) in
     [Is_valid_port port, Dev_info_get port, Dev_configure port n n conf, Adjust_nb_desc port 1024 1024] @
     map (\<lambda>q. Rx_queue_setup port q (fst (adjusted drv port (1024, 1024)))) (queues n) @
     map (\<lambda>q. Tx_queue_setup port q (snd (adjusted drv port (1024, 1024)))
       ((default_txconf (info drv port))\<lparr>txconf_offloads := tx_offloads conf\<rparr>)) (queues n) @
     [Dev_start port, Macaddr_get port, Promiscuous_enable port, Add_rx_callback port 0, Add_tx_callback port 0])"

lemma lb_port_init_follow:
  "lb_port_init drv port s =
    (if reply drv (calls s) (Is_valid_port port) = 0 then (- 1, s\<lparr>calls := calls s @ [Is_valid_port port]\<rparr>)
     else follow drv (tl (lb_plan drv (core_que_nr s) port)) (\<lambda>s. (0, s)) (s\<lparr>calls := calls s @ [Is_valid_port port]\<rparr>))"
proof -
  have refs: "(\<lambda>r. r \<noteq> 0) = refused (Dev_info_get p)" "(\<lambda>r. r \<noteq> 0) = refused (Dev_configure p n m cf)"
      "(\<lambda>r. r \<noteq> 0) = refused (Adjust_nb_desc p n m)" "(\<lambda>r. r < 0) = refused (Dev_start p)"
      "(\<lambda>r. r \<noteq> 0) = refused (Macaddr_get p)" "(\<lambda>r. r \<noteq> 0) = refused (Promiscuous_enable p)" for p n m cf
    by auto
  obtain a b where ab: "adjusted drv port (1024, 1024) = (a, b)"
    by fastforce
  show ?thesis
    unfolding lb_port_init_def Let_def lb_plan_def
    apply (simp only: ab RING_SIZE_def prod.case fst_conv snd_conv append.simps append_Nil2 list.sel refl if_False if_True not_True_eq_False)
    apply (intro if_cong refl)
    apply (rule eth_step [OF refs(1)])
    apply (rule eth_step [OF refs(2)])
    apply (rule eth_step [OF refs(3)])
    apply (rule eth_all_step)
     apply force
    apply (rule eth_all_step)
     apply force
    apply (rule eth_step [OF refs(4)])
    apply (rule eth_step [OF refs(5)])
    apply (rule eth_step [OF refs(6)])
    apply (rule eth_all_follow)
    apply (force simp: fun_eq_iff)
    done
qed

text \<open>
  \<open>port_init\<close> of the load balancer makes the calls of its plan until one is refused; here the plan configures the port
  with the prepared configuration.
\<close>

theorem lb_port_init_plan:
  "lb_port_init drv port s =
    (case attempt drv (calls s) (lb_plan drv (core_que_nr s) port) of
       (t, None) \<Rightarrow> (0, s\<lparr>calls := calls s @ t\<rparr>)
     | (t, Some (c, r)) \<Rightarrow> (if c = Is_valid_port port then - 1 else r, s\<lparr>calls := calls s @ t\<rparr>))"
proof -
  let ?plan = "lb_plan drv (core_que_nr s) port"
  have plan: "?plan = Is_valid_port port # tl ?plan" "Is_valid_port port \<notin> set (tl ?plan)"
    by (auto simp: lb_plan_def Let_def)
  have "c \<noteq> Is_valid_port port" if "attempt drv h (tl ?plan) = (t, Some (c, r))" for h t c r
    using attempt_refused [OF that] plan(2) by auto
  then show ?thesis
    unfolding lb_port_init_follow follow_def
    by (subst plan(1)) (auto simp: Let_def split: prod.split option.split)
qed

section \<open>The queue\<close>

lemma c_rem_cases:
  assumes "0 < k"
  shows "c_rem v k = (if 0 \<le> sint v \<or> k dvd sint v then sint v mod k else - (- sint v mod k))"
proof (cases "0 \<le> sint v")
  case True
  then show ?thesis
    using assms by (cases "sint v = 0") (auto simp: c_rem_def signed_modulo_int_def)
next
  case False
  then have "c_rem v k = - (- sint v mod k)"
    using assms by (simp add: c_rem_def signed_modulo_int_def)
  then show ?thesis
    using False by auto
qed

text \<open>
  With up to 128 queues, a packet whose hash is not negative, or a multiple of their number, gets the queue of that remainder; any
  other packet gets a number above 128, which is no queue: no lcore ever keeps it.
\<close>

theorem lb_queue:
  assumes "0 < nr" "nr \<le> 128"
  shows "\<exists>q. load_b_queue nr src = Some q \<and>
    (if 0 \<le> sint (sdbm src) \<or> uint nr dvd sint (sdbm src) then uint q = sint (sdbm src) mod uint nr \<and> uint q < uint nr
     else 128 < uint q)"
proof -
  let ?v = "sint (sdbm src)"
  have nr: "0 < uint nr" "uint nr \<le> 128"
    using assms by (simp_all add: word_less_def word_le_def)
  show ?thesis
  proof (cases "0 \<le> ?v \<or> uint nr dvd ?v")
    case True
    have "uint (of_int r :: u8) = r" if "0 \<le> r" "r < 256" for r
      using that by (simp add: uint_word_of_int)
    moreover have "0 \<le> ?v mod uint nr" "?v mod uint nr < uint nr"
      using nr by simp_all
    ultimately have "uint (of_int (?v mod uint nr) :: u8) = ?v mod uint nr"
      using nr(2) by force
    then show ?thesis
      using True nr assms c_rem_cases [OF nr(1), of "sdbm src"] by (auto simp: load_b_queue_def)
  next
    case False
    have "- ?v mod uint nr \<noteq> 0"
      using False by (simp add: mod_eq_0_iff_dvd)
    then have "0 < - ?v mod uint nr" "- ?v mod uint nr \<le> 127"
      using pos_mod_bound [OF nr(1), of "- ?v"] pos_mod_sign [OF nr(1), of "- ?v"] nr(2) by linarith+
    moreover have "uint (of_int (- r) :: u8) = 256 - r" if "0 < r" "r \<le> 128" for r
    proof -
      have "(- r) mod 256 = (256 - r) mod (256 :: int)"
        by (simp add: mod_diff_left_eq [of 256 256 r, symmetric])
      also have "\<dots> = 256 - r"
        using that by (intro mod_pos_pos_trivial) simp_all
      finally show ?thesis
        using uint_word_of_int [of "- r", where ?'a = 8] by simp
    qed
    ultimately have "128 < uint (of_int (- (- ?v mod uint nr)) :: u8)"
      by auto
    then show ?thesis
      using False nr assms c_rem_cases [OF nr(1), of "sdbm src"] by (auto simp: load_b_queue_def)
  qed
qed

theorem lb_queue_witness:
  "\<exists>q. load_b_queue 4 [10, 0, 0, 1] = Some q \<and> 128 < uint q"
proof -
  have "sint (sdbm [10, 0, 0, 1]) = - 784062601"
    by code_simp
  then show ?thesis
    using lb_queue [of 4 "[10, 0, 0, 1]"] by auto
qed

section \<open>The buffers\<close>

definition lb_ipv4 :: "mbuf \<Rightarrow> bool" where
  "lb_ipv4 m \<longleftrightarrow> le16 (room m) 12 = 8"

text \<open>Whether a packet is passed on, and the indices of those the driver took.\<close>

definition lb_passed :: "u16 \<Rightarrow> int \<Rightarrow> mbuf \<Rightarrow> bool" where
  "lb_passed nr rte_que_id m \<longleftrightarrow> lb_ipv4 m \<and>
     map_option uint (load_b_queue nr (get_bytes (room m) 26 4)) \<noteq> Some rte_que_id"

definition lb_taken :: "u16 \<Rightarrow> int \<Rightarrow> (nat \<Rightarrow> u16) \<Rightarrow> mbuf list \<Rightarrow> nat \<Rightarrow> nat list" where
  "lb_taken nr rte_que_id sent bufs n = filter (\<lambda>i. lb_passed nr rte_que_id (bufs ! i) \<and> sent i = 1) [0..<n]"

definition lb_body :: "u16 \<Rightarrow> int \<Rightarrow> (nat \<Rightarrow> u16) \<Rightarrow> mbuf list \<Rightarrow> nat \<Rightarrow> u16 \<times> dpdk_event list \<Rightarrow> (u16 \<times> dpdk_event list) option" where
  "lb_body nr rte_que_id sent bufs i = (\<lambda>(nb_tx, es). do {
     ether_type \<leftarrow> rd16 (room (bufs ! i)) 12;
     if ntohs ether_type \<noteq> 0x0800 then Some (nb_tx, es)
     else do {
       src_addr \<leftarrow> rd_bytes (room (bufs ! i)) (ip_off + 12) 4;
       q \<leftarrow> load_b_queue nr src_addr;
       if uint q = rte_que_id then Some (nb_tx, es)
       else Some (nb_tx + sent i, es @ [Tx_burst [bufs ! i] (unat (sent i))])
     }
   })"

lemma lb_body_eq:
  assumes "0 < nr" "34 \<le> length (room (bufs ! i))"
  shows "lb_body nr rte_que_id sent bufs i (nb_tx, es) = Some (if lb_passed nr rte_que_id (bufs ! i)
    then (nb_tx + sent i, es @ [Tx_burst [bufs ! i] (unat (sent i))]) else (nb_tx, es))"
  using assms by (auto simp: lb_body_def lb_passed_def lb_ipv4_def load_b_queue_def mem_simps ether_type_ipv4)

lemma lb_loop:
  assumes "0 < nr" "\<forall>m \<in> set bufs. 34 \<le> length (room m)" "\<forall>i. sent i = 0 \<or> sent i = 1" "n \<le> length bufs"
  shows "\<exists>es. for_each (lb_body nr rte_que_id sent bufs) [0..<n] (0, []) =
      Some (of_nat (length (lb_taken nr rte_que_id sent bufs n)), es) \<and>
    released es = map (\<lambda>i. mid (bufs ! i)) (lb_taken nr rte_que_id sent bufs n)"
  using assms(4)
proof (induction n)
  case 0
  then show ?case by (simp add: lb_taken_def)
next
  case (Suc n)
  then obtain es where es: "for_each (lb_body nr rte_que_id sent bufs) [0..<n] (0, []) =
        Some (of_nat (length (lb_taken nr rte_que_id sent bufs n)), es)"
      "released es = map (\<lambda>i. mid (bufs ! i)) (lb_taken nr rte_que_id sent bufs n)"
    by auto
  have "34 \<le> length (room (bufs ! n))"
    using Suc.prems assms(2) by simp
  then show ?case
    using es lb_body_eq [OF assms(1), of bufs n rte_que_id sent] assms(3) [rule_format, of n]
    by (auto simp: for_each_append lb_taken_def)
qed

text \<open>
  C27: a poll of the load balancer on a burst of up to 32 packets releases the packets the driver took and, if there are
  \<open>t\<close> of these, all packets from position \<open>t\<close> on, whichever they are: a packet taken at such a position is
  released twice, one not taken before it is never freed.
\<close>

theorem lb_poll_buffers:
  assumes "0 < nr" "\<forall>m \<in> set bufs. 34 \<le> length (room m)" "\<forall>i. sent i = 0 \<or> sent i = 1" "length bufs \<le> LB_BURST_SIZE"
  shows "\<exists>es. lb_poll nr rte_que_id sent bufs = Some es \<and>
    (let taken = lb_taken nr rte_que_id sent bufs (length bufs) in
     released es = map (\<lambda>i. mid (bufs ! i)) taken @ map mid (drop (length taken) bufs))"
proof -
  let ?taken = "lb_taken nr rte_que_id sent bufs (length bufs)"
  have small: "length ?taken \<le> length bufs"
    using length_filter_le [of _ "[0..<length bufs]"] by (simp add: lb_taken_def del: length_filter_le)
  then have nb: "unat (of_nat (length ?taken) :: u16) = length ?taken"
    using assms(4) by (simp add: LB_BURST_SIZE_def unat_of_nat take_bit_nat_eq_self)
  obtain es where "for_each (lb_body nr rte_que_id sent bufs) [0..<length bufs] (0, []) = Some (of_nat (length ?taken), es)"
      "released es = map (\<lambda>i. mid (bufs ! i)) ?taken"
    using lb_loop [OF assms(1-3), of "length bufs"] by blast
  then show ?thesis
    using nb small by (auto simp: lb_poll_def lb_body_def [abs_def] Let_def lb_taken_def)
qed

text \<open>A packet of this queue and one that is passed on: the first is never freed, the second is released twice.\<close>

definition lb_packet :: "nat \<Rightarrow> u8 \<Rightarrow> mbuf" where
  "lb_packet i host = \<lparr>mid = i, room = replicate 12 0 @ [8, 0] @ replicate 12 0 @ [10, 0, 0, host] @ replicate 4 0\<rparr>"

theorem lb_poll_buffers_witness:
  "\<exists>es. lb_poll 4 0 (\<lambda>_. 1) [lb_packet 1 2, lb_packet 2 3] = Some es \<and> released es = [2, 2]"
proof -
  have "\<not> lb_passed 4 0 (lb_packet 1 2)" "lb_passed 4 0 (lb_packet 2 3)"
    by code_simp+
  then have "lb_taken 4 0 (\<lambda>_. 1) [lb_packet 1 2, lb_packet 2 3] (Suc (Suc 0)) = [1]"
    by (simp add: lb_taken_def)
  moreover have "mid (lb_packet i h) = i" "length (room (lb_packet i h)) = 34" for i h
    by (simp_all add: lb_packet_def)
  ultimately show ?thesis
    using lb_poll_buffers [of 4 "[lb_packet 1 2, lb_packet 2 3]" "\<lambda>_. 1" 0] by (simp add: LB_BURST_SIZE_def)
qed

end
