(* ===== verification/Xdp_Zuc.thy ===== *)
theory Xdp_Zuc
  imports Xdp_Steps Zuc_Props
begin

text \<open>
  \<open>src/ebpf-xdp/zuc\<close>: the ZUC server as an XDP program.  Its \<open>zuc.h\<close> differs from that of the DPDK program in three
  functions, which are modelled here; the others are those of \<open>Zuc\<close>.

  The program does not build: its \<open>LFSRWithInitialisationMode\<close> looks up element 0 of a map \<open>LFSR_S\<close> that is declared
  nowhere.  What that lookup finds, by number of the call and current registers, is the parameter \<open>lfsr_s\<close>; \<^const>\<open>None\<close> is a null
  pointer, on which the function calls \<open>exit(0)\<close>.
\<close>

section \<open>The cipher\<close>

datatype zuc_exit = Exit_0

definition xdp_LFSRWithInitialisationMode :: "u32 option \<Rightarrow> u32 \<Rightarrow> zuc \<Rightarrow> zuc_exit + zuc" where
  "xdp_LFSRWithInitialisationMode f u st = (
     case f of
       None \<Rightarrow> Inl Exit_0
     | Some f \<Rightarrow> (
         let v = MulByPow2 f 8;
             f = AddM f v;
             v = MulByPow2 (LFSR_S4 st) 20;
             f = AddM f v;
             v = MulByPow2 (LFSR_S10 st) 21;
             f = AddM f v;
             v = MulByPow2 (LFSR_S13 st) 17;
             f = AddM f v;
             v = MulByPow2 (LFSR_S15 st) 15;
             f = AddM f v;
             f = AddM f u
         in Inr (shift_in f st)))"

primrec xdp_init_rounds :: "(nat \<Rightarrow> zuc \<Rightarrow> u32 option) \<Rightarrow> nat \<Rightarrow> zuc \<Rightarrow> zuc_exit + zuc" where
  "xdp_init_rounds lfsr_s 0 st = Inr st"
| "xdp_init_rounds lfsr_s (Suc n) st = (
     let st = BitReorganization st;
         (w, st) = F st
     in case xdp_LFSRWithInitialisationMode (lfsr_s n st) (drop_bit 1 w) st of
          Inl x \<Rightarrow> Inl x
        | Inr st \<Rightarrow> xdp_init_rounds lfsr_s n st)"

definition xdp_Initialization :: "(nat \<Rightarrow> zuc \<Rightarrow> u32 option) \<Rightarrow> bytes \<Rightarrow> bytes \<Rightarrow> zuc \<Rightarrow> (zuc_exit + zuc) option" where
  "xdp_Initialization lfsr_s k iv st =
     (if length k < 16 \<or> length iv < 16 then None
      else Some (xdp_init_rounds lfsr_s 32 (expand_key k iv st)))"

text \<open>The key stream is written to \<open>pKeystream[i]\<close>: past the end of that buffer this is undefined.\<close>

definition xdp_GenerateKeystream :: "u32 list \<Rightarrow> nat \<Rightarrow> zuc \<Rightarrow> (u32 list \<times> zuc) option" where
  "xdp_GenerateKeystream pKeystream KeystreamLen st = (
     let st = BitReorganization st;
         (_, st) = F st;
         st = LFSRWithWorkMode st
     in for_each (\<lambda>i (ks, st).
       let st = BitReorganization st;
           (w, st) = F st;
           z = w XOR BRC_X3 st;
           st = LFSRWithWorkMode st
       in if i < length ks then Some (ks[i := z], st) else None) [0..<KeystreamLen] (pKeystream, st))"

definition xdp_ZUC :: "(nat \<Rightarrow> zuc \<Rightarrow> u32 option) \<Rightarrow> bytes \<Rightarrow> bytes \<Rightarrow> u32 list \<Rightarrow> nat \<Rightarrow> zuc \<Rightarrow> (zuc_exit + u32 list \<times> zuc) option" where
  "xdp_ZUC lfsr_s k iv ks len st = do {
     r \<leftarrow> xdp_Initialization lfsr_s k iv st;
     case r of
       Inl x \<Rightarrow> Some (Inl x)
     | Inr st \<Rightarrow> do { (ks, st) \<leftarrow> xdp_GenerateKeystream ks len st; Some (Inr (ks, st)) }
   }"

text \<open>
  \<open>u32 z = 0; ZUC(CK,IV,&z,sizeof(z))\<close>: one word for the key stream, and the length 4.  \<open>M\<close> is an offset in the
  packet, \<open>C\<close> the array of the caller.
\<close>

definition xdp_EEA3 :: "(nat \<Rightarrow> zuc \<Rightarrow> u32 option) \<Rightarrow> bytes \<Rightarrow> u32 \<Rightarrow> bytes \<Rightarrow> nat \<Rightarrow> u32 list \<Rightarrow> zuc \<Rightarrow> (zuc_exit + u32 list \<times> zuc) option" where
  "xdp_EEA3 lfsr_s CK len p M C st = (
     let L = eea3_words len in do {
       r \<leftarrow> xdp_ZUC lfsr_s CK eea3_iv [0] 4 st;
       case r of
         Inl x \<Rightarrow> Some (Inl x)
       | Inr (z, st) \<Rightarrow> do {
           C \<leftarrow> for_each (\<lambda>i C. do {
             m \<leftarrow> rd32 p (M + 4 * i);
             if i < length C then Some (C[i := m XOR z ! 0]) else None
           }) [0..<L] C;
           Some (Inr (C, st))
         }
     })"

section \<open>The handler\<close>

text \<open>\<open>HEADER_SIZE_B\<close> is \<open>sizeof(uint64_t)*2\<close>, \<open>PAYLOAD_SIZE_B\<close> is 1024 less the three headers.\<close>

definition HEADER_SIZE_B :: nat where "HEADER_SIZE_B = 16"

definition PAYLOAD_SIZE_B :: nat where "PAYLOAD_SIZE_B = TOT_SIZE_B - 14 - 20 - 8"

text \<open>\<open>out\<close> is an array on the stack; \<open>junk\<close> is what it holds before it is written.\<close>

definition xdp_zuc :: "(nat \<Rightarrow> zuc \<Rightarrow> u32 option) \<Rightarrow> (nat \<Rightarrow> u32) \<Rightarrow> u64 \<Rightarrow> u64 \<Rightarrow> bytes \<Rightarrow> zuc \<Rightarrow>
    (zuc_exit + xdp_action \<times> bytes \<times> zuc) option" where
  "xdp_zuc lfsr_s junk time time' p st =
     with_udp p (Inr (XDP_PASS, p, st)) (with_payload p (Inr (XDP_PASS, p, st)) (\<lambda>n. do {
       c_key \<leftarrow> rd_bytes p pay_off HEADER_SIZE_B;
       let msg_len = of_nat TOT_SIZE_B - of_nat HEADER_SIZE_B;
       r \<leftarrow> xdp_EEA3 lfsr_s c_key msg_len p (pay_off + HEADER_SIZE_B) (map junk [0..<PAYLOAD_SIZE_B]) st;
       case r of
         Inl x \<Rightarrow> Some (Inl x)
       | Inr (out, st) \<Rightarrow> do {
           p \<leftarrow> for_each (\<lambda>i p. if i < length out then wr32 p (pay_off + 4 * i) (out ! i) else None) [HEADER_SIZE_B..<n] p;
           p \<leftarrow> refresh_csum p;
           if length p < pay_off + 2 * 8 then Some (Inr (XDP_PASS, p, st))
           else do {
             p \<leftarrow> stamp_times p time time';
             p \<leftarrow> swap_hdrs p;
             p \<leftarrow> refresh_csum p;
             Some (Inr (XDP_TX, p, st))
           }
         }
     }))"

section \<open>Properties\<close>

text \<open>With a map that always has the element, \<open>Initialization\<close> is that of the DPDK program.\<close>

lemma xdp_init_rounds_eq:
  "(\<And>i s. lfsr_s i s = Some (junk i s)) \<Longrightarrow> xdp_init_rounds lfsr_s n st = Inr (init_rounds junk n st)"
  by (induction n arbitrary: st)
     (simp_all add: xdp_LFSRWithInitialisationMode_def LFSRWithInitialisationMode_def Let_def split: prod.split)

lemma xdp_Initialization_eq:
  assumes "\<And>i s. lfsr_s i s = Some (junk i s)"
  shows "xdp_Initialization lfsr_s k iv st = map_option Inr (Initialization junk k iv st)"
  using xdp_init_rounds_eq [of lfsr_s junk, OF assms] by (simp add: xdp_Initialization_def Initialization_def)

lemma four_words: "[0..<4] = [0, 1, 2, 3 :: nat]"
  by (simp add: upt_conv_Cons)

text \<open>One word is not enough for a key stream of four.\<close>

lemma xdp_GenerateKeystream_None: "xdp_GenerateKeystream [z] 4 st = None"
  by (simp add: xdp_GenerateKeystream_def four_words Let_def split: prod.split)

lemma xdp_EEA3_cases:
  assumes "16 \<le> length CK"
  shows "xdp_EEA3 lfsr_s CK len p M C st =
    (case xdp_init_rounds lfsr_s 32 (expand_key CK eea3_iv st) of Inl x \<Rightarrow> Some (Inl x) | Inr st \<Rightarrow> None)"
  using assms
  by (simp add: xdp_EEA3_def xdp_ZUC_def xdp_Initialization_def xdp_GenerateKeystream_None split: sum.split)

text \<open>
  C26: the XDP ZUC server never answers: a frame that is not an acceptable request is passed up the stack unchanged; for
  a request it either ends at \<open>exit(0)\<close>, when a lookup of the missing map fails, or writes the key stream past the end of a
  local variable, whatever the key, the message and the registers are.
\<close>

theorem xdp_zuc_never_replies:
  "xdp_zuc lfsr_s junk t0 t1 p st =
    (if \<not> job_frame p then Some (Inr (XDP_PASS, p, st))
     else case xdp_init_rounds lfsr_s 32 (expand_key (get_bytes p 42 16) eea3_iv st) of
       Inl x \<Rightarrow> Some (Inl x)
     | Inr st \<Rightarrow> None)"
proof (cases "job_frame p")
  case False
  then show ?thesis
    by (simp add: xdp_zuc_def with_job_eq)
next
  case True
  then have "1066 \<le> length p"
    by (rule job_frame_length)
  then show ?thesis
    using True
    by (simp add: xdp_zuc_def with_job_eq HEADER_SIZE_B_def rd_bytes_in xdp_EEA3_cases length_get_bytes Let_def split: sum.split)
qed

end
