(* ===== verification/Pspin_Zuc.thy ===== *)
theory Pspin_Zuc
  imports Dpdk_Zuc
begin

text \<open>
  \<open>src/pspin/zuc\<close>: the ZUC server as a handler on the processing units (HPUs) of a PsPIN network card, and the driver that
  fills its packets.  The cipher is that of \<open>Zuc\<close>, but the key stream and the result are kept in the scratchpad of the
  cluster, of which every HPU uses 3000 bytes.

  The headers \<open>handler.h\<close>, \<open>packets.h\<close> and \<open>spin_dma.h\<close> are not part of the repository: where a field of a packet
  header is, what \<open>GET_IP_UDP_PLD\<close> finds and what \<open>spin__memcpy\<close> does are the parameter \<open>spin_sdk\<close>.
\<close>

section \<open>State\<close>

text \<open>The packet in L1 memory, the scratchpad of the cluster, the registers of the cipher, and the packets sent: (start, length).\<close>

record spin =
  pkt_mem :: bytes
  scratchpad :: bytes
  regs :: zuc
  sent :: "(nat \<times> u16) list"

datatype hdr_field = Source_id | Dest_id | Src_port | Dst_port

record spin_sdk =
  ip_ihl :: "bytes \<Rightarrow> nat"
  ip_udp_pld :: "bytes \<Rightarrow> nat \<times> u16"
  get_field :: "hdr_field \<Rightarrow> bytes \<Rightarrow> u32"
  put_field :: "hdr_field \<Rightarrow> u32 \<Rightarrow> bytes \<Rightarrow> bytes"
  spin_memcpy :: "nat \<Rightarrow> nat \<Rightarrow> u32 \<Rightarrow> bytes \<Rightarrow> bytes \<Rightarrow> (bytes \<times> bytes) option"

section \<open>The cipher in the scratchpad\<close>

text \<open>
  \<open>EEA3\<close>: \<open>z\<close> is 1500 bytes into the area of the HPU.  \<open>CK\<close> and \<open>M\<close> are offsets in the packet, \<open>C\<close> one in the
  scratchpad.
\<close>

definition pspin_EEA3 :: "(nat \<Rightarrow> zuc \<Rightarrow> u32) \<Rightarrow> nat \<Rightarrow> nat \<Rightarrow> u32 \<Rightarrow> nat \<Rightarrow> nat \<Rightarrow> spin \<Rightarrow> spin option" where
  "pspin_EEA3 junk hpu_id CK len M C s = (
     let L = eea3_words len;
         z = 2 * 1500 * hpu_id + 1500
     in do {
       (ks, r) \<leftarrow> ZUC junk (drop CK (pkt_mem s)) eea3_iv L (regs s);
       sp \<leftarrow> for_each (\<lambda>i sp. wr32 sp (z + 4 * i) (ks ! i)) [0..<L] (scratchpad s);
       sp \<leftarrow> for_each (\<lambda>i sp. do {
         m \<leftarrow> rd32 (pkt_mem s) (M + 4 * i);
         k \<leftarrow> rd32 sp (z + 4 * i);
         wr32 sp (C + 4 * i) (m XOR k)
       }) [0..<L] sp;
       Some (s\<lparr>scratchpad := sp, regs := r\<rparr>)
     })"

section \<open>Words in a buffer\<close>

definition put_words :: "bytes \<Rightarrow> nat \<Rightarrow> u32 list \<Rightarrow> bytes" where
  "put_words p off ws = put_bytes p off (concat (map (le_of_word 4) ws))"

lemma length_put_words: "off + 4 * length ws \<le> length p \<Longrightarrow> length (put_words p off ws) = length p"
  by (simp add: put_words_def mem_simps)

lemma put_bytes_append:
  "off + length bs + length cs \<le> length p \<Longrightarrow>
     put_bytes (put_bytes p off bs) (off + length bs) cs = put_bytes p off (bs @ cs)"
  by (simp add: put_bytes_def ac_simps)

lemma put_words_snoc:
  assumes "off + 4 * length ws + 4 \<le> length p"
  shows "put32 (put_words p off ws) (off + 4 * length ws) w = put_words p off (ws @ [w])"
  using put_bytes_append [of off "concat (map (le_of_word 4) ws)" "le_of_word 4 w" p] assms
  by (simp add: put_words_def)

lemma put_words_loop:
  assumes "off + 4 * n \<le> length p"
    and "\<And>i. i < n \<Longrightarrow> f i (put_words p off (map w [0..<i])) = wr32 (put_words p off (map w [0..<i])) (off + 4 * i) (w i)"
  shows "for_each f [0..<n] p = Some (put_words p off (map w [0..<n]))"
  using assms
proof (induction n)
  case 0
  then show ?case
    by (simp add: put_words_def put_bytes_def)
next
  case (Suc n)
  have IH: "for_each f [0..<n] p = Some (put_words p off (map w [0..<n]))"
    using Suc by simp
  have "f n (put_words p off (map w [0..<n])) = Some (put_words p off (map w [0..<n] @ [w n]))"
    using Suc.prems put_words_snoc [of off "map w [0..<n]" p "w n"]
    by (simp add: store_def length_put_words)
  then show ?case
    using IH by (simp add: for_each_append)
qed

lemma get_put_words:
  assumes "off + 4 * length ws \<le> length p"
  shows "i < length ws \<Longrightarrow> le32 (put_words p off ws) (off + 4 * i) = ws ! i"
    and "o' + n \<le> off \<or> off + 4 * length ws \<le> o' \<Longrightarrow> get_bytes (put_words p off ws) o' n = get_bytes p o' n"
proof -
  assume i: "i < length ws"
  have "get_bytes (put_words p off ws) (off + 4 * i) 4 =
      get_bytes (get_bytes (put_words p off ws) off (4 * length ws)) (4 * i) 4"
    using i by (simp add: get_bytes_get_bytes)
  also have "\<dots> = le_of_word 4 (ws ! i)"
    using assms i by (simp add: put_words_def get_put_same get_bytes_concat_words)
  finally show "le32 (put_words p off ws) (off + 4 * i) = ws ! i"
    by (simp add: word_of_le_le_of_word)
next
  assume "o' + n \<le> off \<or> off + 4 * length ws \<le> o'"
  then show "get_bytes (put_words p off ws) o' n = get_bytes p o' n"
    using assms by (simp add: put_words_def get_put_far)
qed

text \<open>What \<open>pspin_EEA3\<close> leaves in the scratchpad, when the message has at most 1500 bytes' worth of words.\<close>

lemma pspin_EEA3_eq:
  fixes hpu_id :: nat
  defines "area \<equiv> 3000 * hpu_id"
  assumes "16 \<le> length (drop CK (pkt_mem s))" "eea3_words len \<le> 375" "M + 4 * eea3_words len \<le> length (pkt_mem s)"
    and "area + 3000 \<le> length (scratchpad s)"
  shows "\<exists>ks r. ZUC junk (drop CK (pkt_mem s)) eea3_iv (eea3_words len) (regs s) = Some (ks, r) \<and>
    length ks = eea3_words len \<and>
    pspin_EEA3 junk hpu_id CK len M area s = Some (s\<lparr>regs := r, scratchpad :=
      put_words (put_words (scratchpad s) (area + 1500) ks) area
        (map (\<lambda>i. le32 (pkt_mem s) (M + 4 * i) XOR ks ! i) [0..<eea3_words len])\<rparr>)"
proof -
  let ?L = "eea3_words len"
  obtain st1 where "ZUC junk (drop CK (pkt_mem s)) eea3_iv ?L (regs s) = Some (GenerateKeystream ?L st1)"
    using ZUC_eq [OF assms(2), of eea3_iv junk ?L] by auto
  moreover obtain ks r where g: "GenerateKeystream ?L st1 = (ks, r)"
    by (cases "GenerateKeystream ?L st1")
  moreover have ks: "length ks = ?L"
    using length_keystream [of ?L st1] by (simp add: g)
  ultimately have zuc: "ZUC junk (drop CK (pkt_mem s)) eea3_iv ?L (regs s) = Some (ks, r)"
    by simp
  define sp where "sp = put_words (scratchpad s) (area + 1500) ks"
  have room: "area + 1500 + 4 * ?L \<le> length (scratchpad s)"
    using assms(3,5) by simp
  have sp_len: "length sp = length (scratchpad s)"
    using room ks by (simp add: sp_def length_put_words)
  have "for_each (\<lambda>i sp. wr32 sp (area + 1500 + 4 * i) (ks ! i)) [0..<?L] (scratchpad s) = Some sp"
    using put_words_loop [of "area + 1500" ?L "scratchpad s" "\<lambda>i sp. wr32 sp (area + 1500 + 4 * i) (ks ! i)" "\<lambda>i. ks ! i"]
      room ks map_nth [of ks] by (simp add: sp_def)
  moreover have "for_each (\<lambda>i sp. do {
         m \<leftarrow> rd32 (pkt_mem s) (M + 4 * i);
         k \<leftarrow> rd32 sp (area + 1500 + 4 * i);
         wr32 sp (area + 4 * i) (m XOR k) }) [0..<?L] sp =
      Some (put_words sp area (map (\<lambda>i. le32 (pkt_mem s) (M + 4 * i) XOR ks ! i) [0..<?L]))"
  proof (rule put_words_loop)
    show "area + 4 * ?L \<le> length sp"
      using room sp_len by simp
    fix i assume i: "i < ?L"
    let ?w = "\<lambda>i. le32 (pkt_mem s) (M + 4 * i) XOR ks ! i"
    let ?q = "put_words sp area (map ?w [0..<i])"
    have q: "length ?q = length (scratchpad s)"
      using i room sp_len by (simp add: length_put_words)
    have "get_bytes ?q (area + 1500 + 4 * i) 4 = get_bytes sp (area + 1500 + 4 * i) 4"
      using i assms(3) room sp_len by (intro get_put_words(2)) auto
    then have "le32 ?q (area + 1500 + 4 * i) = ks ! i"
      using get_put_words(1) [of "area + 1500" ks "scratchpad s" i] i room ks by (simp add: sp_def)
    then show "do {
         m \<leftarrow> rd32 (pkt_mem s) (M + 4 * i);
         k \<leftarrow> rd32 ?q (area + 1500 + 4 * i);
         wr32 ?q (area + 4 * i) (m XOR k) } = wr32 ?q (area + 4 * i) (?w i)"
      using i q room assms(4) by (simp add: load_in)
  qed
  ultimately have "pspin_EEA3 junk hpu_id CK len M area s = Some (s\<lparr>regs := r, scratchpad :=
      put_words sp area (map (\<lambda>i. le32 (pkt_mem s) (M + 4 * i) XOR ks ! i) [0..<?L])\<rparr>)"
    by (simp add: pspin_EEA3_def zuc Let_def area_def)
  then show ?thesis
    using zuc ks by (auto simp: sp_def)
qed

section \<open>The handler\<close>

text \<open>Source and destination, then the ports, change places.\<close>

definition turn_round :: "spin_sdk \<Rightarrow> bytes \<Rightarrow> bytes" where
  "turn_round sdk p = (
     let src_id = get_field sdk Source_id p;
         p = put_field sdk Source_id (get_field sdk Dest_id p) p;
         p = put_field sdk Dest_id src_id p;
         src_port = get_field sdk Src_port p;
         p = put_field sdk Src_port (get_field sdk Dst_port p) p
     in put_field sdk Dst_port src_port p)"

text \<open>
  \<open>zuc_ph\<close>, with the packet in L1 (\<open>FROM_L1\<close>) and without waiting for the command.  The UDP length is read but not used.
  \<open>spin__memcpy\<close> gets the scratchpad offset of \<open>C\<close>, the packet offset of \<open>M\<close> and the length.
\<close>

definition zuc_ph :: "spin_sdk \<Rightarrow> (nat \<Rightarrow> zuc \<Rightarrow> u32) \<Rightarrow> nat \<Rightarrow> spin \<Rightarrow> spin option" where
  "zuc_ph sdk junk hpu_id s = (
     let (pkt_pld, pkt_pld_len) = ip_udp_pld sdk (pkt_mem s);
         IV = pkt_pld;
         len = ucast pkt_pld_len - 4;
         M = pkt_pld + 4;
         C = 2 * 1500 * hpu_id
     in do {
       s \<leftarrow> pspin_EEA3 junk hpu_id IV len M C s;
       (sp, p) \<leftarrow> spin_memcpy sdk C M len (scratchpad s) (pkt_mem s);
       Some (s\<lparr>scratchpad := sp, pkt_mem := turn_round sdk p, sent := sent s @ [(0, pkt_pld_len)]\<rparr>)
     })"

text \<open>\<open>init_handlers\<close>: header, payload and completion handler.\<close>

definition init_handlers :: "'h \<Rightarrow> 'h option \<times> 'h option \<times> 'h option" where
  "init_handlers ph = (None, Some ph, None)"

text \<open>
  \<open>fill_packet\<close> of the driver: \<open>hdr\<close> is the size of \<open>pkt_hdr_t\<close>, \<open>set_hdr\<close> sets \<open>ihl\<close> and \<open>length\<close>, \<open>rand\<close> the numbers
  that \<open>rand\<close> returns.
\<close>

definition fill_packet :: "nat \<Rightarrow> (nat \<Rightarrow> u32 \<Rightarrow> bytes \<Rightarrow> bytes) \<Rightarrow> (nat \<Rightarrow> nat) \<Rightarrow> u32 \<Rightarrow> bytes \<Rightarrow> (u32 \<times> bytes) option" where
  "fill_packet hdr set_hdr rand max_pkt_size pkt_buff = (
     let pkt_buff = set_hdr 5 max_pkt_size pkt_buff;
         payload_len = max_pkt_size - of_nat hdr
     in do {
       pkt_buff \<leftarrow> for_each (\<lambda>i p. wr32 p (hdr + 4 * i) (of_nat (rand i mod 1024))) [0..<unat payload_len div 4] pkt_buff;
       Some (max_pkt_size, pkt_buff)
     })"

section \<open>The kit\<close>

text \<open>
  What the handler relies on, for packets with a header of five words: the payload follows the two headers, the four
  fields are distinct parts of the headers, and \<open>spin__memcpy\<close> copies from its first to its second argument.
\<close>

fun other_end :: "hdr_field \<Rightarrow> hdr_field" where
  "other_end Source_id = Dest_id"
| "other_end Dest_id = Source_id"
| "other_end Src_port = Dst_port"
| "other_end Dst_port = Src_port"

locale spin_kit =
  fixes sdk :: spin_sdk
  assumes pld_at: "28 \<le> length p \<Longrightarrow> ip_ihl sdk p = 5 \<Longrightarrow> fst (ip_udp_pld sdk p) = 28"
    and get_put_field: "28 \<le> length p \<Longrightarrow> 28 \<le> length q \<Longrightarrow>
      get_field sdk f (put_field sdk f (get_field sdk (other_end f) q) p) = get_field sdk (other_end f) q"
    and get_put_field_other: "28 \<le> length p \<Longrightarrow> f \<noteq> g \<Longrightarrow> get_field sdk g (put_field sdk f v p) = get_field sdk g p"
    and length_put_field: "28 \<le> length p \<Longrightarrow> length (put_field sdk f v p) = length p"
    and put_field_payload: "28 \<le> length p \<Longrightarrow> drop 28 (put_field sdk f v p) = drop 28 p"
    and get_field_payload: "28 \<le> length p \<Longrightarrow> 28 \<le> off \<Longrightarrow> off + length bs \<le> length p \<Longrightarrow>
      get_field sdk f (put_bytes p off bs) = get_field sdk f p"
    and memcpy_out: "C + unat n \<le> length sp \<Longrightarrow> M + unat n \<le> length p \<Longrightarrow>
      spin_memcpy sdk C M n sp p = Some (sp, put_bytes p M (get_bytes sp C (unat n)))"
begin

lemma turn_round_fields:
  assumes "28 \<le> length p"
  shows "get_field sdk f (turn_round sdk p) = get_field sdk (other_end f) p"
    and "length (turn_round sdk p) = length p" and "drop 28 (turn_round sdk p) = drop 28 p"
proof -
  show "length (turn_round sdk p) = length p" "drop 28 (turn_round sdk p) = drop 28 p"
    using assms by (simp_all add: turn_round_def Let_def length_put_field put_field_payload)
  show "get_field sdk f (turn_round sdk p) = get_field sdk (other_end f) p"
    using assms get_put_field [of _ p Source_id] get_put_field [of _ p Dest_id]
      get_put_field [of _ p Src_port] get_put_field [of _ p Dst_port]
    by (cases f) (simp_all add: turn_round_def Let_def length_put_field get_put_field_other)
qed

end

text \<open>The standard layout of IPv4 and UDP headers, in the byte order of the card.\<close>

definition std_sdk :: spin_sdk where
  "std_sdk = \<lparr>ip_ihl = (\<lambda>p. unat (p ! 0 AND 0xF)),
     ip_udp_pld = (\<lambda>p. (unat (p ! 0 AND 0xF) * 4 + 8, le16 p 2 - of_nat (unat (p ! 0 AND 0xF) * 4 + 8))),
     get_field = (\<lambda>f p. case f of Source_id \<Rightarrow> le32 p 12 | Dest_id \<Rightarrow> le32 p 16
       | Src_port \<Rightarrow> ucast (le16 p 20) | Dst_port \<Rightarrow> ucast (le16 p 22)),
     put_field = (\<lambda>f v p. case f of Source_id \<Rightarrow> put32 p 12 v | Dest_id \<Rightarrow> put32 p 16 v
       | Src_port \<Rightarrow> put16 p 20 (ucast v) | Dst_port \<Rightarrow> put16 p 22 (ucast v)),
     spin_memcpy = (\<lambda>C M n sp p. do { bs \<leftarrow> rd_bytes sp C (unat n); p \<leftarrow> wr_bytes p M bs; Some (sp, p) })\<rparr>"

lemma ucast_ucast_u16: "(ucast (ucast (w :: u16) :: u32) :: u16) = w"
  by (rule bit_word_eqI) (auto simp: bit_simps)

lemma drop_put_bytes: "off + length bs \<le> k \<Longrightarrow> k \<le> length p \<Longrightarrow> drop k (put_bytes p off bs) = drop k p"
  by (simp add: put_bytes_def)

interpretation std_kit: spin_kit std_sdk
proof
  fix p q bs :: bytes and f g v off
  assume p: "28 \<le> length p"
  show "get_field std_sdk f (put_field std_sdk f (get_field std_sdk (other_end f) q) p) = get_field std_sdk (other_end f) q"
    if "28 \<le> length q"
    using p that by (cases f) (simp_all add: std_sdk_def mem_simps ucast_ucast_u16)
  show "f \<noteq> g \<Longrightarrow> get_field std_sdk g (put_field std_sdk f v p) = get_field std_sdk g p"
    using p by (cases f; cases g) (simp_all add: std_sdk_def mem_simps)
  show "length (put_field std_sdk f v p) = length p"
    using p by (cases f) (simp_all add: std_sdk_def mem_simps)
  show "drop 28 (put_field std_sdk f v p) = drop 28 p"
    using p by (cases f) (simp_all add: std_sdk_def drop_put_bytes)
  show "28 \<le> off \<Longrightarrow> off + length bs \<le> length p \<Longrightarrow> get_field std_sdk f (put_bytes p off bs) = get_field std_sdk f p"
    by (cases f) (simp_all add: std_sdk_def mem_simps)
qed (simp_all add: std_sdk_def mem_simps)

section \<open>Properties\<close>

lemma message_words:
  assumes "8 \<le> n" "unat n \<le> 1500"
  shows "unat (ucast (n :: u16) - 4 :: u32) = unat n - 4"
    and "eea3_words (ucast n - 4) = (unat n + 27) div 32"
    and "4 * eea3_words (ucast n - 4) \<le> unat n - 4" and "eea3_words (ucast n - 4) \<le> 375"
proof -
  have n: "8 \<le> unat n"
    using assms(1) by (simp add: word_le_nat_alt)
  then show len: "unat (ucast n - 4 :: u32) = unat n - 4"
    by (simp add: unat_sub word_le_nat_alt unat_ucast_u16)
  have "unat (ucast n - 4 + 31 :: u32) = unat n + 27"
    using assms(2) n unat_add_lem [of "ucast n - 4 :: u32" 31] len by simp
  then show words: "eea3_words (ucast n - 4) = (unat n + 27) div 32"
    by (simp add: eea3_words_def unat_div)
  show "4 * eea3_words (ucast n - 4) \<le> unat n - 4" "eea3_words (ucast n - 4) \<le> 375"
    unfolding words using n assms(2) by arith+
qed

lemma get_bytes_drop28: "get_bytes p (28 + k) n = get_bytes (drop 28 p) k n"
  by (simp add: get_bytes_def add.commute)

text \<open>The area of an HPU after the cipher: the result, then what was there; nothing else changes.\<close>

lemma hpu_area:
  assumes "area + 3000 \<le> length sp" "4 * length ks \<le> 1500" "length ws = length ks"
  defines "sp' \<equiv> put_words (put_words sp (area + 1500) ks) area ws"
  shows "length sp' = length sp"
    and "i < length ks \<Longrightarrow> le32 sp' (area + 4 * i) = ws ! i"
    and "length ks \<le> i \<Longrightarrow> 4 * i + 4 \<le> 1500 \<Longrightarrow> le32 sp' (area + 4 * i) = le32 sp (area + 4 * i)"
    and "off + k \<le> area \<or> area + 3000 \<le> off \<Longrightarrow> get_bytes sp' off k = get_bytes sp off k"
proof -
  have sp1: "length (put_words sp (area + 1500) ks) = length sp"
    using assms(1,2) by (intro length_put_words) simp
  then show "length sp' = length sp"
    using assms by (simp add: length_put_words)
  show "i < length ks \<Longrightarrow> le32 sp' (area + 4 * i) = ws ! i"
    unfolding sp'_def using sp1 assms(1-3) by (intro get_put_words(1)) simp_all
  have keep: "get_bytes sp' off k = get_bytes sp off k"
    if "off + k \<le> area \<or> area + 4 * length ks \<le> off" "off + k \<le> area + 1500 \<or> area + 3000 \<le> off" for off k
  proof -
    have "get_bytes sp' off k = get_bytes (put_words sp (area + 1500) ks) off k"
      unfolding sp'_def using that sp1 assms(1-3) by (intro get_put_words(2)) auto
    also have "\<dots> = get_bytes sp off k"
      using that assms(1,2) by (intro get_put_words(2)) auto
    finally show ?thesis .
  qed
  show "length ks \<le> i \<Longrightarrow> 4 * i + 4 \<le> 1500 \<Longrightarrow> le32 sp' (area + 4 * i) = le32 sp (area + 4 * i)"
    using keep [of "area + 4 * i" 4] by simp
  show "off + k \<le> area \<or> area + 3000 \<le> off \<Longrightarrow> get_bytes sp' off k = get_bytes sp off k"
    using keep [of off k] assms(2) by auto
qed

text \<open>The words written over the message, after the packet was turned round.\<close>

lemma turned_word:
  assumes "spin_kit sdk" "4 * i + 4 \<le> length bs" "32 + length bs \<le> length p" "44 \<le> length p"
  shows "le32 (turn_round sdk (put_bytes p 32 bs)) (32 + 4 * i) = le32 bs (4 * i)"
proof -
  let ?q = "put_bytes p 32 bs"
  have q: "length ?q = length p"
    using assms(3) by (simp add: mem_simps)
  have "get_bytes (turn_round sdk ?q) (28 + (4 + 4 * i)) 4 = get_bytes ?q (28 + (4 + 4 * i)) 4"
    using spin_kit.turn_round_fields(3) [OF assms(1), of ?q] q assms(4) by (simp only: get_bytes_drop28)
  also have "\<dots> = get_bytes (get_bytes ?q 32 (length bs)) (4 * i) 4"
    using assms(2) by (simp add: get_bytes_get_bytes)
  also have "\<dots> = get_bytes bs (4 * i) 4"
    using assms(3) by (simp add: get_put_same)
  finally show ?thesis
    by simp
qed

text \<open>
  C25: what the PsPIN server sends back: one packet, turned round, in which the first thirty-second part of the message words
  is encrypted and the others are whatever the scratchpad held before; and an HPU changes nothing in the
  scratchpad outside its own 3000 bytes.
\<close>

theorem zuc_ph_reply:
  assumes "spin_kit sdk" "ip_ihl sdk (pkt_mem s) = 5" "snd (ip_udp_pld sdk (pkt_mem s)) = n"
    and "8 \<le> n" "unat n \<le> 1500" "28 + unat n \<le> length (pkt_mem s)" "44 \<le> length (pkt_mem s)"
    and "3000 * hpu_id + 3000 \<le> length (scratchpad s)"
  shows "\<exists>ks r s'. ZUC junk (drop 28 (pkt_mem s)) eea3_iv ((unat n + 27) div 32) (regs s) = Some (ks, r) \<and>
    zuc_ph sdk junk hpu_id s = Some s' \<and> sent s' = sent s @ [(0, n)] \<and>
    (\<forall>f. get_field sdk f (pkt_mem s') = get_field sdk (other_end f) (pkt_mem s)) \<and>
    (\<forall>i. 4 * i + 8 \<le> unat n \<longrightarrow> le32 (pkt_mem s') (32 + 4 * i) =
      (if i < (unat n + 27) div 32 then le32 (pkt_mem s) (32 + 4 * i) XOR ks ! i
       else le32 (scratchpad s) (3000 * hpu_id + 4 * i))) \<and>
    (\<forall>off k. off + k \<le> 3000 * hpu_id \<or> 3000 * hpu_id + 3000 \<le> off \<longrightarrow>
      get_bytes (scratchpad s') off k = get_bytes (scratchpad s) off k)"
proof -
  let ?p = "pkt_mem s" and ?area = "3000 * hpu_id" and ?L = "(unat n + 27) div 32"
  note len = message_words [OF assms(4,5)]
  have n: "8 \<le> unat n"
    using assms(4) by (simp add: word_le_nat_alt)
  have pld: "ip_udp_pld sdk ?p = (28, n)"
    using spin_kit.pld_at [OF assms(1), of ?p] assms(2,3,7) by (cases "ip_udp_pld sdk ?p") simp
  obtain ks r where ks: "ZUC junk (drop 28 ?p) eea3_iv ?L (regs s) = Some (ks, r)" "length ks = ?L"
    and eea: "pspin_EEA3 junk hpu_id 28 (ucast n - 4) 32 ?area s = Some (s\<lparr>regs := r, scratchpad :=
      put_words (put_words (scratchpad s) (?area + 1500) ks) ?area (map (\<lambda>i. le32 ?p (32 + 4 * i) XOR ks ! i) [0..<?L])\<rparr>)"
    using pspin_EEA3_eq [of 28 s "ucast n - 4" 32 hpu_id junk] len assms(5-8) n by (auto simp: le_diff_conv2)
  let ?ws = "map (\<lambda>i. le32 ?p (32 + 4 * i) XOR ks ! i) [0..<?L]"
  let ?sp = "put_words (put_words (scratchpad s) (?area + 1500) ks) ?area ?ws"
  let ?q = "put_bytes ?p 32 (get_bytes ?sp ?area (unat n - 4))"
  note area = hpu_area [of ?area "scratchpad s" ks ?ws, OF assms(8)]
  have L: "4 * length ks \<le> 1500" "length ?ws = length ks"
    using len(2,3) ks(2) assms(5) by simp_all
  have sp: "length ?sp = length (scratchpad s)"
    by (rule area(1) [OF L])
  then have bs: "length (get_bytes ?sp ?area (unat n - 4)) = unat n - 4"
    using assms(5,8) by (simp add: mem_simps)
  then have q: "length ?q = length ?p"
    using n assms(6) by (simp add: mem_simps)
  have "spin_memcpy sdk ?area 32 (ucast n - 4) ?sp ?p = Some (?sp, ?q)"
    using spin_kit.memcpy_out [OF assms(1), of ?area "ucast n - 4" ?sp 32 ?p] sp len(1) n assms(5,6,8) by simp
  then have ph: "zuc_ph sdk junk hpu_id s = Some (s\<lparr>regs := r, scratchpad := ?sp, pkt_mem := turn_round sdk ?q,
      sent := sent s @ [(0, n)]\<rparr>)"
    using eea by (simp add: zuc_ph_def pld Let_def)
  have "get_field sdk f (turn_round sdk ?q) = get_field sdk (other_end f) ?p" for f
    using spin_kit.turn_round_fields(1) [OF assms(1), of ?q f] spin_kit.get_field_payload [OF assms(1), of ?p 32] bs q n assms(6,7)
    by simp
  moreover have "le32 (turn_round sdk ?q) (32 + 4 * i) = (if i < ?L then le32 ?p (32 + 4 * i) XOR ks ! i
      else le32 (scratchpad s) (?area + 4 * i))" if i: "4 * i + 8 \<le> unat n" for i
  proof -
    have w: "le32 (turn_round sdk ?q) (32 + 4 * i) = le32 ?sp (?area + 4 * i)"
      using turned_word [OF assms(1), of i "get_bytes ?sp ?area (unat n - 4)" ?p] i bs n assms(6,7)
      by (simp add: get_bytes_get_bytes)
    show ?thesis
      unfolding w using area(2,3) [OF L, of i] i ks(2) assms(5) by auto
  qed
  moreover note area(4) [OF L]
  ultimately show ?thesis
    using ks(1) ph by auto
qed

theorem zuc_ph_reply_witness:
  "\<exists>s'. zuc_ph std_sdk (\<lambda>_. LFSR_S0) 1 \<lparr>pkt_mem = [0x45, 0, 28, 1] @ replicate 280 5, scratchpad = replicate 6000 9,
      regs = some_registers, sent = []\<rparr> = Some s' \<and> sent s' = [(0, 256)] \<and> le32 (pkt_mem s') 64 = 0x09090909"
proof -
  let ?p = "[0x45, 0, 28, 1] @ replicate 280 5 :: bytes"
  let ?s = "\<lparr>pkt_mem = ?p, scratchpad = replicate 6000 9, regs = some_registers, sent = []\<rparr>"
  have n: "snd (ip_udp_pld std_sdk ?p) = 256" "ip_ihl std_sdk ?p = 5"
    by (simp_all add: std_sdk_def get_bytes_def)
  have "get_bytes (replicate 6000 9) 3032 4 = [9, 9, 9, 9]"
  proof -
    have "get_bytes (replicate 6000 9) 3032 4 = replicate 4 (9 :: u8)"
      by (simp add: get_bytes_def)
    then show ?thesis
      by (simp add: numeral_eq_Suc)
  qed
  then have "le32 (replicate 6000 9) 3032 = 0x09090909"
    by simp
  moreover obtain s' where s': "zuc_ph std_sdk (\<lambda>_. LFSR_S0) 1 ?s = Some s'" "sent s' = [(0, 256)]"
    and words: "\<And>i. 4 * i + 8 \<le> 256 \<Longrightarrow> 8 \<le> i \<Longrightarrow> le32 (pkt_mem s') (32 + 4 * i) = le32 (replicate 6000 9) (3000 + 4 * i)"
    using zuc_ph_reply [of std_sdk ?s 256 1 "\<lambda>_. LFSR_S0", OF std_kit.spin_kit_axioms] n by auto
  ultimately show ?thesis
    using words [of 8] by auto
qed

text \<open>The driver fills the whole payload with numbers below 1024.\<close>

lemma fill_packet_words:
  assumes "length (set_hdr 5 max_pkt_size buf) = length buf" "hdr \<le> unat max_pkt_size" "unat max_pkt_size \<le> length buf"
  shows "\<exists>p. fill_packet hdr set_hdr rand max_pkt_size buf = Some (max_pkt_size, p) \<and> length p = length buf \<and>
    (\<forall>i < (unat max_pkt_size - hdr) div 4. le32 p (hdr + 4 * i) = of_nat (rand i mod 1024))"
proof -
  let ?q = "set_hdr 5 max_pkt_size buf" and ?w = "\<lambda>i. of_nat (rand i mod 1024)"
  have "hdr < 2 ^ 32"
    using assms(2) unsigned_less [of max_pkt_size, where ?'a = nat] by simp
  then have n: "unat (max_pkt_size - of_nat hdr) = unat max_pkt_size - hdr"
    using assms(2) by (simp add: unat_sub word_le_nat_alt unat_of_nat take_bit_nat_eq_self)
  define n where "n = (unat max_pkt_size - hdr) div 4"
  have fit: "hdr + 4 * n \<le> length ?q"
    using assms by (simp add: n_def)
  then have "for_each (\<lambda>i p. wr32 p (hdr + 4 * i) (?w i)) [0..<n] ?q = Some (put_words ?q hdr (map ?w [0..<n]))"
    by (intro put_words_loop) simp_all
  then have "fill_packet hdr set_hdr rand max_pkt_size buf = Some (max_pkt_size, put_words ?q hdr (map ?w [0..<n]))"
    unfolding fill_packet_def n n_def Let_def by simp
  moreover have "le32 (put_words ?q hdr (map ?w [0..<n])) (hdr + 4 * i) = ?w i" if "i < n" for i
    using get_put_words(1) [of hdr "map ?w [0..<n]" ?q i] fit that by simp
  ultimately show ?thesis
    using fit assms(1) by (auto simp: n_def [symmetric] length_put_words)
qed

end
