(* ===== verification/Spec2Isabelle.thy ===== *)
theory Spec2Isabelle
  imports Xdp_Aggregate Xdp_Reduce Xdp_Histogram Xdp_Copy Xdp_Filter Xdp_Kvstore Xdp_Forward Xdp_Race Xdp_Cores Zuc_Props
    Xdp_Loader Rtt_Client Dpdk_Batch Dpdk_Filter Dpdk_Forward Dpdk_Zuc Dpdk_Port Dpdk_Main Dpdk_Clock Dpdk_Quit Dpdk_Lcores
    Dpdk_Lcores_Forward Zuc_Lcores Dpdk_Log Dpdk_Loadbalance Xdp_Zuc Pspin_Zuc
begin

text \<open>
  Verification library for the packet-processing benchmarks of this repository: the same small network programs
  (aggregate, reduce, histogram, copy to and from the host, filter, key-value store, ping-pong, ZUC encryption), written
  once as XDP programs that run in the kernel (\<open>src/ebpf-xdp\<close>) and once as DPDK programs that poll the network card
  (\<open>src/dpdk\<close>), with loaders and clients that measure them; ZUC also as a handler on a programmable network card (\<open>src/pspin\<close>).

  \<^bold>\<open>How the code is modelled.\<close>  A packet is a list of bytes, from its first byte to the end the program can
  see; C integers are words of their width, so sums, counters, sizes and time differences wrap as in the code; loads and
  stores are little-endian.  A load or store outside the memory a program may touch makes the result \<^const>\<open>None\<close>:
  every theorem that ends in \<open>Some\<close> says also that this does not happen.  A handler takes the packet and its state and
  returns the action, the packet as it leaves and the new state.  \<open>exit\<close>, early returns and error codes are values of
  sums and datatypes.  Loops run over the index lists of the code (\<open>for_each\<close>, and \<open>for_each_ret\<close> for loops with a
  return), so all definitions are total and executable; no fuel is used.  Loops without an end (\<open>while(!force_quit)\<close>,
  \<open>while(1)\<close>) run over the list of what the outside world brings until then (\<open>Dpdk_Quit\<close> says when that is).

  \<^bold>\<open>The XDP programs.\<close>
  \<^item> \<open>Xdp_Packet\<close>: header checks, payload size, swap of the parties, constants of \<open>helpers.h\<close>.
  \<^item> \<open>Xdp_Checksum\<close>: \<open>caludpcsum\<close> of \<open>helpers.c\<close> and its closed form; the stored checksum is the right one exactly when the one fold suffices.
  \<^item> \<open>Bpf_Maps\<close>: the maps.  The kernel's helpers are the parameter \<open>map_ops\<close>; their documented laws are the locales
    \<open>bpf_array\<close>, \<open>bpf_hash\<close> and \<open>bpf_lru_hash\<close>, each interpreted on a list-based map.  \<open>cell_array\<close> is what any array
    of counters obeys, also the atomics of DPDK.
  \<^item> \<open>Xdp_Steps\<close>: the steps that the batch programs share, and the contracts \<open>counted_job\<close> (one answer per 1024 packets)
    and \<open>accumulating_job\<close> (state adds up over a run) with the theorems on runs.
  \<^item> \<open>Xdp_Aggregate\<close>, \<open>Xdp_Reduce\<close>, \<open>Xdp_Histogram\<close>, \<open>Xdp_Copy\<close>, \<open>Xdp_Filter\<close>: the handlers \<open>x.c\<close> and \<open>x_no_t.c\<close>, one
    definition each, with the behaviour of one invocation and of runs of any length.
  \<^item> \<open>Xdp_Kvstore\<close>: the cache; it refines a map from keys to the last value written, whatever is evicted.
  \<^item> \<open>Xdp_Forward\<close>: ping-pong, \<open>fw_back\<close>, baseline, load balancer and the other programs without maps.
  \<^item> \<open>Xdp_Zuc\<close>: the ZUC server with the changed functions of its own \<open>zuc.h\<close>; it never answers a request.  The map that it
    looks up but does not declare is the parameter \<open>lfsr_s\<close>.
  \<^item> \<open>Xdp_Race\<close>: the count and its test on several cores, as a step relation with invariants by rule induction.
  \<^item> \<open>Xdp_Cores\<close>: aggregate, reduce and histogram on several cores, over the step relation of \<open>Dpdk_Lcores\<close>; the contract
    \<open>core_job\<close> says which additions a program makes, and from it the results are exact in all interleavings.
  \<^item> \<open>Xdp_Loader\<close>: \<open>main\<close> and \<open>poll_stats\<close> of all loaders; what stays attached, and the benchmark end to end.
  \<^item> \<open>Rtt_Client\<close>: the clients \<open>*_stats.c\<close> of both architectures.

  \<^bold>\<open>ZUC.\<close>  \<open>Zuc\<close> is the cipher of \<open>zuc.h\<close>, \<open>Zuc_Props\<close> its arithmetic, register invariant, bijective layers and
  that decryption is encryption.  \<open>LFSRWithInitialisationMode\<close> reads a variable that was never assigned: the parameter
  \<open>junk\<close>.

  \<^bold>\<open>The DPDK programs.\<close>
  \<^item> \<open>Dpdk_Env\<close>: buffers, atomics, header checks, latency log, and the two shapes of a poll, \<open>batch_poll\<close> and \<open>forward_poll\<close>.
  \<^item> \<open>Dpdk_Poll\<close>: which buffers a poll gives back, and the contract \<open>lcore_job\<close> of the work on a packet, from which the
    state after a poll and a run follows; every program interprets it.
  \<^item> \<open>Dpdk_Batch\<close>, \<open>Dpdk_Filter\<close>, \<open>Dpdk_Forward\<close>, \<open>Dpdk_Zuc\<close>: \<open>lcore_main\<close> of the programs, timed and untimed.  The hash
    library is a parameter with its laws as the locales \<open>rte_hash_keys\<close> and \<open>rte_hash_data\<close>.
  \<^item> \<open>Dpdk_Port\<close>: \<open>port_init\<close>.  The driver is a parameter; the calls made to it are recorded, and \<open>port_init\<close> is shown
    to follow a fixed plan of calls until one is refused.
  \<^item> \<open>Dpdk_Main\<close>: \<open>main\<close>, from the start of the environment layer over the ports, the buffer pool and the shared data
    to the lcores, and whole processes of aggregate and filter.
  \<^item> \<open>Dpdk_Lcores\<close>: the batch programs on several lcores, as a step relation over their atomic accesses; one lcore
    alone refines to \<open>batch_poll\<close>, sums are exact and every run ends in all interleavings, copies can be torn.
  \<^item> \<open>Dpdk_Lcores_Forward\<close>: kvstore on several lcores.  It is linearizable, because one call of the hash library is one step.
  \<^item> \<open>Zuc_Lcores\<close>: zuc on several lcores, interleaved between the calls of the functions of the cipher.  Its registers, which
    are globals without a lock, keep their range, but the keys get mixed up.
  \<^item> \<open>Dpdk_Log\<close>: the latency file, which all lcores append to through one global stream under a lock.
  \<^item> \<open>Dpdk_Loadbalance\<close>: the load balancer, as far as it was written: start-up, choice of the queue, and which buffers a poll
    releases.
  \<^item> \<open>Dpdk_Quit\<close>: signals and the end of the polling loop, and so which polls the other theorems are about.
  \<^item> \<open>Dpdk_Clock\<close>: the benchmark of the clock itself.

  \<^bold>\<open>The PsPIN program.\<close>  \<open>Pspin_Zuc\<close>: the ZUC server as a handler on a network card (\<open>src/pspin/zuc\<close>), with the cipher in
  the scratchpad.  The development kit is the parameter \<open>spin_sdk\<close>, what the handler relies on the locale \<open>spin_kit\<close>.

  This theory holds what spans the two architectures.

  \<^bold>\<open>Parameters and bounds.\<close>  \<open>cksum\<close> is \<open>rte_ipv4_udptcp_cksum\<close>; \<open>scale\<close> is the conversion of cycles to nanoseconds in
  floating point; \<open>blk\<close> is what a block of \<open>rte_malloc\<close> holds; \<open>host\<close>, \<open>world\<close>, \<open>rtt_env\<close> and \<open>poll_env\<close> are what the
  calls to libraries and the kernel return.  A burst has at most 64 packets (\<open>BURST_SIZE\<close>), and the data room of a buffer
  has at least 1066 bytes (\<open>RTE_MBUF_DEFAULT_BUF_SIZE\<close> gives 2048): the DPDK programs read the payload without looking
  at the length of the packet.

  \<^bold>\<open>Not modelled.\<close>  Printed messages and the warning about NUMA nodes.  Of the DPDK load balancer, the missing queue
  argument of \<open>rte_eth_tx_burst\<close>; its undeclared \<open>rte_que_id\<close> is a parameter.  Interleavings of zuc inside one function of
  the cipher.  Of PsPIN, \<open>main\<close> of the driver, which only calls the kit, and several HPUs at once, which share the
  registers of the cipher as the lcores of \<open>Zuc_Lcores\<close> do.  The Python and shell scripts over measured data are left out.
\<close>

section \<open>The two architectures\<close>

lemma job_frame_dpdk_frame:
  assumes "1066 \<le> length p" "le16 p 12 = 8" "p ! 23 = 17"
  shows "job_frame p \<longleftrightarrow> dpdk_frame p"
proof -
  let ?n = "unat (ntohs (le16 p 38))"
  have "payload_len p = 1024 \<longleftrightarrow> ?n = 1032"
  proof -
    have "payload_len p = 1024 \<longleftrightarrow> ucast (ntohs (le16 p 38)) = (1032 :: u32)"
      by (auto simp: payload_len_def diff_eq_eq)
    also have "\<dots> \<longleftrightarrow> ?n = 1032"
      by (simp add: word_unat_eq_iff unat_ucast_u16)
    finally show ?thesis .
  qed
  moreover have "ntohs (le16 p 38) - 8 = 1024 \<longleftrightarrow> ?n = 1032"
  proof -
    have "ntohs (le16 p 38) - 8 = 1024 \<longleftrightarrow> ntohs (le16 p 38) = 1032"
      by (simp add: diff_eq_eq)
    then show ?thesis
      by (simp add: word_unat_eq_iff)
  qed
  ultimately show ?thesis
    using assms by (simp add: job_frame_def udp_frame_def dpdk_frame_def const_defs)
qed



end
